(* ===== verification/Prelude.thy ===== *)
theory Prelude
  imports Complex_Main "HOL-Library.Word" "HOL-Library.Log_Nat"
begin

text \<open>
  Shared vocabulary of the development: the machine integer types of the Rust sources as
  words, the time line of \<^verbatim>\<open>std::time::Instant\<close>, the collections of simplification rules the
  component theories fill, and the facts on lists and words that several components use.
\<close>

section \<open>Types of the sources\<close>

type_synonym u8 = "8 word"
type_synonym u16 = "16 word"
type_synonym u32 = "32 word"
type_synonym u64 = "64 word"
type_synonym usize = "64 word"

text \<open>
  \<open>Instant\<close> and \<open>Duration\<close> count nanoseconds. An \<open>Instant\<close> is its distance from the start of
  the monotonic clock; \<open>Instant::duration_since\<close> saturates at zero, as \<open>-\<close> on \<^typ>\<open>nat\<close> does.
\<close>

type_synonym instant = nat
type_synonym duration = nat

text \<open>
  A \<^typ>\<open>string\<close> stands for the UTF-8 bytes of a Rust string, one character per byte. An I/O error is
  its message.
\<close>

datatype io_error = IoError string

definition as_bytes :: "string \<Rightarrow> u8 list" where
  "as_bytes s = map of_char s"

section \<open>Rule collections\<close>

named_theorems heap_simps \<open>reading the heap of backends and its counters after an operation\<close>
named_theorems limiter_simps \<open>fields of a token bucket that an operation keeps\<close>

section \<open>Lists\<close>

text \<open>The first element that satisfies a predicate, as \<open>Iterator::find\<close> returns it.\<close>

lemma find_Some_in_set: "find P xs = Some x \<Longrightarrow> x \<in> set xs \<and> P x"
  by (induction xs) (auto split: if_splits)

lemma find_None_all: "find P xs = None \<Longrightarrow> x \<in> set xs \<Longrightarrow> \<not> P x"
  by (induction xs) (auto split: if_splits)

lemma find_cong_set: "(\<And>x. x \<in> set xs \<Longrightarrow> P x = Q x) \<Longrightarrow> find P xs = find Q xs"
  by (induction xs) auto

lemma find_map: "find P (map f xs) = map_option f (find (P \<circ> f) xs)"
  by (induction xs) auto

lemma nth_list_update_if: "j < length xs \<Longrightarrow> xs[i := x] ! j = (if i = j then x else xs ! j)"
  by (simp add: nth_list_update)

text \<open>Occurrences of a key among the elements of a list.\<close>

definition count_by :: "('a \<Rightarrow> 'k) \<Rightarrow> 'k \<Rightarrow> 'a list \<Rightarrow> nat" where
  "count_by f k xs = length (filter (\<lambda>x. f x = k) xs)"

lemma count_by_Nil [simp]: "count_by f k [] = 0"
  by (simp add: count_by_def)

lemma count_by_Cons [simp]: "count_by f k (x # xs) = (if f x = k then Suc (count_by f k xs) else count_by f k xs)"
  by (simp add: count_by_def)

lemma count_by_append [simp]: "count_by f k (xs @ ys) = count_by f k xs + count_by f k ys"
  by (simp add: count_by_def)

lemma count_by_le_length: "count_by f k xs \<le> length xs"
  by (simp add: count_by_def)

lemma count_by_pos_iff: "0 < count_by f k xs \<longleftrightarrow> k \<in> f ` set xs"
  by (induction xs) auto

lemma count_list_map_Some: "count_list (map Some xs) (Some x) = count_list xs x"
  by (induction xs) auto

text \<open>Replacing one element moves one occurrence.\<close>

lemma count_list_update:
  assumes "k < length xs"
  shows "count_list (xs[k := y]) x + (if xs ! k = x then 1 else 0) = count_list xs x + (if y = x then 1 else 0)"
  using assms
proof (induction xs arbitrary: k)
  case (Cons z zs)
  show ?case
  proof (cases k)
    case (Suc j)
    then show ?thesis using Cons.IH[of j] Cons.prems by auto
  qed auto
qed simp

text \<open>Removing one element by position, as dropping one of several live values does.\<close>

definition remove_nth :: "nat \<Rightarrow> 'a list \<Rightarrow> 'a list" where
  "remove_nth i xs = take i xs @ drop (Suc i) xs"

lemma set_remove_nth_subset: "set (remove_nth i xs) \<subseteq> set xs"
  by (auto simp: remove_nth_def dest: in_set_takeD in_set_dropD)

lemma count_by_remove_nth:
  assumes "i < length xs"
  shows "count_by f k xs = count_by f k (remove_nth i xs) + (if f (xs ! i) = k then 1 else 0)"
proof -
  have "xs = take i xs @ xs ! i # drop (Suc i) xs"
    using assms by (rule id_take_nth_drop)
  then have "count_by f k xs = count_by f k (take i xs @ xs ! i # drop (Suc i) xs)" by simp
  then show ?thesis by (simp add: remove_nth_def)
qed

lemma count_by_remove_nth_le: "count_by f k (remove_nth i xs) \<le> count_by f k xs"
  using count_by_remove_nth[of i xs f k] by (cases "i < length xs") (simp_all add: remove_nth_def)

lemma sum_indicator_card: "(\<Sum>i < (n :: nat). if P i then 1 else 0 :: nat) = card {i. i < n \<and> P i}"
proof -
  have "card {i. i < n \<and> P i} = (\<Sum>i \<in> {i \<in> {..<n}. P i}. 1)" by simp
  also have "\<dots> = (\<Sum>i < n. if P i then 1 else 0)" by (rule sum.inter_filter) simp
  finally show ?thesis by simp
qed

section \<open>Decimal output\<close>

text \<open>A natural number as \<open>format!\<close> writes it.\<close>

definition digit_char :: "nat \<Rightarrow> char" where
  "digit_char d = char_of (48 + d)"

fun string_of_nat :: "nat \<Rightarrow> string" where
  "string_of_nat n =
     (if n < 10 then [digit_char n] else string_of_nat (n div 10) @ [digit_char (n mod 10)])"

declare string_of_nat.simps [simp del]

section \<open>Words\<close>

lemma unat_of_nat_small: "n < 2 ^ LENGTH('a) \<Longrightarrow> unat (of_nat n :: 'a::len word) = n"
  by (simp add: unat_of_nat take_bit_nat_eq_self)

lemma unat_less_2p: "unat (w :: 'a::len word) < 2 ^ LENGTH('a)"
  by (rule unsigned_less)

text \<open>Reduction of a word modulo a length that fits, as an index of a list of that length.\<close>

lemma unat_mod_less:
  assumes "0 < n" "n < 2 ^ LENGTH('a)"
  shows "unat (w mod (of_nat n :: 'a::len word)) < n"
  using assms by (simp add: unat_mod unat_of_nat_small)

section \<open>Transition systems\<close>

text \<open>
  A component that moves in steps and keeps an invariant. The load balancer, as a sequence of whole
  operations and as interleaved tasks, and the token buckets are such systems.
\<close>

locale invariant_system =
  fixes step :: "'s \<Rightarrow> 's \<Rightarrow> bool" and inv :: "'s \<Rightarrow> bool"
  assumes step_inv: "step s t \<Longrightarrow> inv s \<Longrightarrow> inv t"
begin

lemma steps_inv: "step\<^sup>*\<^sup>* s t \<Longrightarrow> inv s \<Longrightarrow> inv t"
  by (induction rule: rtranclp_induct) (auto intro: step_inv)

end

text \<open>
  A system in which an atomic counter tracks how many holders an object has. The counter is a
  \<open>usize\<close>, so it is the number of holders modulo \<open>2\<^sup>6\<^sup>4\<close>; while fewer than \<open>2\<^sup>6\<^sup>4\<close> holders exist it is
  that number, and releasing a holder cannot wrap it below zero.
\<close>

locale counted_system = invariant_system +
  fixes counter :: "'s \<Rightarrow> 'o \<Rightarrow> usize" and holders :: "'s \<Rightarrow> 'o \<Rightarrow> nat" and live :: "'s \<Rightarrow> 'o \<Rightarrow> bool"
  assumes counted: "inv s \<Longrightarrow> live s x \<Longrightarrow> counter s x = of_nat (holders s x)"
begin

lemma counter_exact:
  "step\<^sup>*\<^sup>* s t \<Longrightarrow> inv s \<Longrightarrow> live t x \<Longrightarrow> holders t x < 2 ^ 64 \<Longrightarrow> unat (counter t x) = holders t x"
  using steps_inv[of s t] counted[of t x] by (simp add: unat_of_nat_small)

lemma release_no_underflow:
  "step\<^sup>*\<^sup>* s t \<Longrightarrow> inv s \<Longrightarrow> live t x \<Longrightarrow> 0 < holders t x \<Longrightarrow> holders t x < 2 ^ 64 \<Longrightarrow>
    unat (counter t x - 1) = holders t x - 1"
proof -
  assume t: "step\<^sup>*\<^sup>* s t" "inv s" "live t x" and h: "0 < holders t x" "holders t x < 2 ^ 64"
  have "counter t x - 1 = of_nat (holders t x - 1)"
    using counted[OF steps_inv[OF t(1,2)] t(3)] h(1) by (simp add: of_nat_diff)
  then show ?thesis using h(2) by (simp add: unat_of_nat_small)
qed

end

text \<open>
  A system that runs on top of another: an event of the one stands for a sequence of events of the other,
  and \<open>abs\<close> reads the state of the other out of it. Its runs are then runs of the other. A service
  runs on its balancer in this way, and a whole program on each of its services.
\<close>

fun history :: "('e \<Rightarrow> 's \<Rightarrow> 's) \<Rightarrow> ('e \<Rightarrow> 's \<Rightarrow> 'f list) \<Rightarrow> 'e list \<Rightarrow> 's \<Rightarrow> 'f list" where
  "history step share [] s = []"
| "history step share (e # es) s = share e s @ history step share es (step e s)"

locale simulation =
  fixes step :: "'e \<Rightarrow> 's \<Rightarrow> 's" and share :: "'e \<Rightarrow> 's \<Rightarrow> 'f list" and astep :: "'f \<Rightarrow> 'a \<Rightarrow> 'a" and abs :: "'s \<Rightarrow> 'a"
    and inv :: "'s \<Rightarrow> bool"
  assumes abs_step: "inv s \<Longrightarrow> abs (step e s) = fold astep (share e s) (abs s)"
    and inv_step: "inv s \<Longrightarrow> inv (step e s)"
begin

lemma abs_run: "inv s \<Longrightarrow> abs (fold step es s) = fold astep (history step share es s) (abs s)"
  by (induction es arbitrary: s) (simp_all add: abs_step inv_step)

end

end
