(* ===== verification/Config.thy ===== *)
theory Config
  imports Prelude
begin

text \<open>
  The configuration (\<^verbatim>\<open>src/config/mod.rs\<close>): one record per struct, with the fields in the order
  of the source, and \<open>validate\<close>. Reading YAML into these types is done by \<^verbatim>\<open>serde_yaml\<close>, which is
  not part of the sources; the program is modelled from the parsed value on.
\<close>

section \<open>Data\<close>

datatype ConfigError = MissingField string | InvalidValue string

record LogConfig =
  lg_level :: string

record ClusterConfig =
  cl_enabled :: bool
  cl_bind_addr :: string
  cl_peers :: "string list"

datatype BackendConfig = Simple string | Detailed (d_addr: string) (d_drain: bool)

definition default_drain :: bool where
  "default_drain = False"

record HealthCheckConfig =
  hc_enabled :: bool
  hc_interval_ms :: u64
  hc_timeout_ms :: u64
  hc_protocol :: string
  hc_path :: "string option"

record TlsConfig =
  tls_enabled :: bool
  tls_cert :: string
  tls_key :: string

record RateLimitConfig =
  rl_enabled :: bool
  rl_requests_per_second :: u32
  rl_burst :: u32

record ClientBandwidthConfig =
  cb_upload_per_sec :: u32
  cb_download_per_sec :: u32

record BackendBandwidthConfig =
  bb_upload_per_sec :: u32
  bb_download_per_sec :: u32

record BandwidthLimitConfig =
  bw_enabled :: bool
  bw_client :: "ClientBandwidthConfig option"
  bw_backend :: "BackendBandwidthConfig option"

record BackendTlsConfig =
  bt_enabled :: bool
  bt_ignore_verify :: bool

record LBRule =
  r_name :: string
  r_listen :: string
  r_backends :: "BackendConfig list"
  r_protocol :: "string option"
  r_proxy_protocol :: bool
  r_tls :: "TlsConfig option"
  r_backend_tls :: "BackendTlsConfig option"
  r_rate_limit :: "RateLimitConfig option"
  r_bandwidth_limit :: "BandwidthLimitConfig option"
  r_backend_connection_limit :: "usize option"
  r_health_check :: "HealthCheckConfig option"
  r_allow_list :: "string list option"
  r_deny_list :: "string list option"

record Config =
  c_rules :: "LBRule list"
  c_cluster :: "ClusterConfig option"
  c_log :: "LogConfig option"

text \<open>
  The pair of address and drain flag that every consumer of a \<open>BackendConfig\<close> matches out: a
  plain string stands for a backend that is not draining.
\<close>

fun backend_entry :: "BackendConfig \<Rightarrow> string \<times> bool" where
  "backend_entry (Simple a) = (a, False)"
| "backend_entry (Detailed a d) = (a, d)"

section \<open>Validation\<close>

text \<open>The loop over the enumerated rules; the first rule with a fault decides.\<close>

fun validate_rules :: "nat \<Rightarrow> LBRule list \<Rightarrow> ConfigError + unit" where
  "validate_rules i [] = Inr ()"
| "validate_rules i (rule # rest) =
     (if r_backends rule = [] then
        Inl (InvalidValue (''Rule '' @ [CHR 0x27] @ r_name rule @ [CHR 0x27] @ '' (index '' @
          string_of_nat i @ '') has no backends''))
      else if r_listen rule = [] then
        Inl (InvalidValue (''Rule '' @ [CHR 0x27] @ r_name rule @ [CHR 0x27] @ '' has no listen address''))
      else validate_rules (Suc i) rest)"

definition validate :: "Config \<Rightarrow> ConfigError + unit" where
  "validate c =
     (if c_rules c = [] then Inl (MissingField ''rules are empty'') else validate_rules 0 (c_rules c))"

section \<open>What an accepted configuration has\<close>

definition rule_ok :: "LBRule \<Rightarrow> bool" where
  "rule_ok r \<longleftrightarrow> r_backends r \<noteq> [] \<and> r_listen r \<noteq> []"

lemma validate_rules_iff: "validate_rules i rs = Inr () \<longleftrightarrow> list_all rule_ok rs"
  by (induction i rs rule: validate_rules.induct) (auto simp: rule_ok_def)

lemma validate_iff: "validate c = Inr () \<longleftrightarrow> c_rules c \<noteq> [] \<and> list_all rule_ok (c_rules c)"
  by (simp add: validate_def validate_rules_iff)

text \<open>The first faulty rule is the one an error names, with its index when it has no backends.\<close>

lemma validate_rules_skip:
  "list_all rule_ok pre \<Longrightarrow> validate_rules i (pre @ rs) = validate_rules (i + length pre) rs"
  by (induction pre arbitrary: i) (auto simp: rule_ok_def)

end
