(* ===== verification/F64.thy ===== *)
theory F64
  imports Prelude
begin

text \<open>
  The binary64 arithmetic of the token buckets. An \<open>f64\<close> is the rational number it denotes and
  every floating-point operation of the sources is the exact operation followed by \<open>rnd\<close>, the
  IEEE 754 rounding to nearest, ties to even, with 53 significant bits. The values the limiters
  compute are finite and lie between \<open>2\<^sup>-\<^sup>1\<^sup>0\<^sup>2\<^sup>2\<close> and \<open>2\<^sup>1\<^sup>0\<^sup>2\<^sup>4\<close> or are zero (a limiter's rate and burst are \<open>u32\<close> values and
  an elapsed time is at least a nanosecond), so the exponent range is not bounded here.

  The theory also holds the two conversions of \<^verbatim>\<open>std::time::Duration\<close> the limiters call and the
  locale \<open>rounding\<close>, the contract on which all bounds of the token buckets rest.
\<close>

section \<open>Rounding to nearest, ties to even\<close>

type_synonym f64 = rat

text \<open>The exponent of the binade of a positive number.\<close>

definition ilog2 :: "rat \<Rightarrow> int" where
  "ilog2 x = (if 1 \<le> x then bitlen \<lfloor>x\<rfloor> - 1 else - bitlen (\<lceil>1 / x\<rceil> - 1))"

definition round_half_even :: "rat \<Rightarrow> int" where
  "round_half_even x =
     (let f = \<lfloor>x\<rfloor>; d = x - of_int f
      in if d < 1 / 2 then f else if 1 / 2 < d then f + 1 else if even f then f else f + 1)"

text \<open>The distance between two neighbouring 53-bit numbers in the binade of \<open>x\<close>.\<close>

definition ulp :: "rat \<Rightarrow> rat" where
  "ulp x = 2 powi (ilog2 x - 52)"

definition round_pos :: "rat \<Rightarrow> f64" where
  "round_pos x = of_int (round_half_even (x / ulp x)) * ulp x"

definition rnd :: "rat \<Rightarrow> f64" where
  "rnd x = (if x = 0 then 0 else if 0 < x then round_pos x else - round_pos (- x))"

section \<open>Laws of the rounding\<close>

lemma bitlen_Suc_bounds:
  assumes "0 < m"
  obtains k where "bitlen m = int (Suc k)" "(2::rat) ^ k \<le> of_int m" "of_int m + 1 \<le> (2::rat) ^ Suc k"
proof -
  have "0 < bitlen m"
    using assms bitlen_nonneg[of m] bitlen_eq_zero_iff[of m] by linarith
  then have k: "bitlen m = int (Suc (nat (bitlen m - 1)))" by simp
  define k where "k = nat (bitlen m - 1)"
  note k = k[folded k_def]
  have b: "2 ^ k \<le> m" "m + 1 \<le> 2 ^ Suc k"
    using bitlen_bounds[OF assms] by (simp_all add: k nat_add_distrib)
  have "of_int (2 ^ k) \<le> (of_int m :: rat)" "of_int (m + 1) \<le> (of_int (2 ^ Suc k) :: rat)"
    using b by (simp_all only: of_int_le_iff)
  then show thesis using that k by simp
qed

lemma ilog2_bounds_ge_1:
  assumes "1 \<le> x"
  shows "2 powi ilog2 x \<le> x \<and> x < 2 powi (ilog2 x + 1)"
proof -
  have n: "0 < \<lfloor>x\<rfloor>" using assms by simp
  from bitlen_Suc_bounds[OF n] obtain k where k: "bitlen \<lfloor>x\<rfloor> = int (Suc k)"
    "(2::rat) ^ k \<le> of_int \<lfloor>x\<rfloor>" "of_int \<lfloor>x\<rfloor> + 1 \<le> (2::rat) ^ Suc k" .
  have "2 ^ k \<le> x" "x < 2 ^ Suc k"
    using k(2,3) of_int_floor_le[of x] floor_correct[of x] by linarith+
  moreover have "ilog2 x = int k" "ilog2 x + 1 = int (Suc k)"
    using assms by (simp_all add: ilog2_def k)
  ultimately show ?thesis by (simp only: power_int_of_nat)
qed

lemma ilog2_bounds_less_1:
  assumes "0 < x" "x < 1"
  shows "2 powi ilog2 x \<le> x \<and> x < 2 powi (ilog2 x + 1)"
proof -
  have y: "1 < 1 / x" using assms by simp
  then have n: "0 < \<lceil>1 / x\<rceil> - 1" by simp
  from bitlen_Suc_bounds[OF n] obtain k where k: "bitlen (\<lceil>1 / x\<rceil> - 1) = int (Suc k)"
    "(2::rat) ^ k \<le> of_int (\<lceil>1 / x\<rceil> - 1)" "of_int (\<lceil>1 / x\<rceil> - 1) + 1 \<le> (2::rat) ^ Suc k" .
  have "2 ^ k < 1 / x" "1 / x \<le> 2 ^ Suc k"
    using k(2,3) ceiling_correct[of "1 / x"] unfolding of_int_diff of_int_1 by linarith+
  then have "inverse (2 ^ Suc k) \<le> x" "x < inverse (2 ^ k)"
    using assms by (simp_all add: field_simps)
  moreover have "ilog2 x = - int (Suc k)" "ilog2 x + 1 = - int k"
    using assms by (simp_all add: ilog2_def k)
  ultimately show ?thesis by (simp only: power_int_minus power_int_of_nat)
qed

lemma ilog2_bounds:
  assumes "0 < x"
  shows "2 powi ilog2 x \<le> x" and "x < 2 powi (ilog2 x + 1)"
  using ilog2_bounds_ge_1[of x] ilog2_bounds_less_1[of x] assms by linarith+

lemma ulp_pos [simp]: "0 < ulp x"
  by (simp add: ulp_def)

lemma powi_2_mono: "a \<le> b \<Longrightarrow> (2::rat) powi a \<le> 2 powi b"
  by (rule power_int_increasing) simp_all

lemma ilog2_mono:
  assumes "0 < x" "x \<le> y"
  shows "ilog2 x \<le> ilog2 y"
proof (rule ccontr)
  assume "\<not> ilog2 x \<le> ilog2 y"
  then have "(2::rat) powi (ilog2 y + 1) \<le> 2 powi ilog2 x" by (intro powi_2_mono) simp
  then show False using ilog2_bounds(1)[of x] ilog2_bounds(2)[of y] assms by linarith
qed

lemma round_half_even_int [simp]: "round_half_even (of_int n) = n"
  by (simp add: round_half_even_def)

lemma round_half_even_error: "\<bar>of_int (round_half_even x) - x\<bar> \<le> 1 / 2"
proof -
  have "of_int \<lfloor>x\<rfloor> \<le> x" "x < of_int \<lfloor>x\<rfloor> + 1" by linarith+
  then show ?thesis by (auto simp: round_half_even_def Let_def abs_le_iff)
qed

lemma round_half_even_mono:
  assumes "x \<le> y"
  shows "round_half_even x \<le> round_half_even y"
proof (cases "\<lfloor>x\<rfloor> = \<lfloor>y\<rfloor>")
  case True
  then show ?thesis using assms by (auto simp: round_half_even_def Let_def)
next
  case False
  then have "\<lfloor>x\<rfloor> + 1 \<le> \<lfloor>y\<rfloor>" using floor_mono[OF assms] by linarith
  moreover have "round_half_even x \<le> \<lfloor>x\<rfloor> + 1" "\<lfloor>y\<rfloor> \<le> round_half_even y"
    by (auto simp: round_half_even_def Let_def)
  ultimately show ?thesis by linarith
qed

lemma powi_ilog2_ulp: "2 powi ilog2 x = 2 ^ 52 * ulp x"
  using power_int_add[of "2::rat" "ilog2 x - 52" 52] by (simp add: ulp_def)

lemma powi_Suc_ilog2_ulp: "2 powi (ilog2 x + 1) = 2 ^ 53 * ulp x"
  using power_int_add[of "2::rat" "ilog2 x - 52" 53] by (simp add: ulp_def add.commute mult.commute)

lemma ulp_scale:
  assumes "0 < x"
  shows "2 ^ 52 \<le> x / ulp x" and "x / ulp x < 2 ^ 53"
proof -
  show "2 ^ 52 \<le> x / ulp x" "x / ulp x < 2 ^ 53"
    using ilog2_bounds[OF assms]
    by (simp_all only: powi_ilog2_ulp powi_Suc_ilog2_ulp pos_le_divide_eq pos_divide_less_eq ulp_pos)
qed

lemma round_pos_binade:
  assumes "0 < x"
  shows "2 powi ilog2 x \<le> round_pos x" and "round_pos x \<le> 2 powi (ilog2 x + 1)"
proof -
  have u: "2 powi ilog2 x = of_int (2 ^ 52) * ulp x" "2 powi (ilog2 x + 1) = of_int (2 ^ 53) * ulp x"
    by (simp_all add: powi_ilog2_ulp powi_Suc_ilog2_ulp)
  have "round_half_even (of_int (2 ^ 52)) \<le> round_half_even (x / ulp x)"
    "round_half_even (x / ulp x) \<le> round_half_even (of_int (2 ^ 53))"
    using ulp_scale[OF assms] by (intro round_half_even_mono; simp)+
  then have "2 ^ 52 \<le> round_half_even (x / ulp x)" "round_half_even (x / ulp x) \<le> 2 ^ 53"
    by (simp_all only: round_half_even_int)
  then show "2 powi ilog2 x \<le> round_pos x" "round_pos x \<le> 2 powi (ilog2 x + 1)"
    unfolding u round_pos_def by (intro mult_right_mono; simp only: of_int_le_iff ulp_pos less_imp_le)+
qed

lemma round_pos_mono:
  assumes "0 < x" "x \<le> y"
  shows "round_pos x \<le> round_pos y"
proof (cases "ilog2 x = ilog2 y")
  case True
  then have u: "ulp x = ulp y" by (simp add: ulp_def)
  have "round_half_even (x / ulp x) \<le> round_half_even (y / ulp y)"
    using assms by (intro round_half_even_mono) (simp add: u divide_right_mono less_imp_le)
  then show ?thesis by (simp add: round_pos_def u mult_right_mono less_imp_le)
next
  case False
  then have "(2::rat) powi (ilog2 x + 1) \<le> 2 powi ilog2 y"
    using ilog2_mono[OF assms] by (intro powi_2_mono) simp
  then show ?thesis
    using round_pos_binade(2)[of x] round_pos_binade(1)[of y] assms by linarith
qed

lemma round_pos_pos: "0 < x \<Longrightarrow> 0 < round_pos x"
  using round_pos_binade(1)[of x] zero_less_power_int[of "2::rat" "ilog2 x"] by linarith

lemma rnd_0 [simp]: "rnd 0 = 0"
  by (simp add: rnd_def)

lemma rnd_nonneg_iff [simp]: "0 \<le> rnd x \<longleftrightarrow> 0 \<le> x"
  using round_pos_pos[of x] round_pos_pos[of "- x"]
  by (cases x "0::rat" rule: linorder_cases) (simp_all add: rnd_def)

lemma rnd_mono:
  assumes "x \<le> y"
  shows "rnd x \<le> rnd y"
proof (cases "0 < x")
  case True
  then show ?thesis using assms round_pos_mono[of x y] by (simp add: rnd_def)
next
  case x: False
  show ?thesis
  proof (cases "y < 0")
    case True
    then show ?thesis using assms round_pos_mono[of "- y" "- x"] by (simp add: rnd_def)
  next
    case False
    then have "0 \<le> rnd y" by simp
    moreover have "rnd x \<le> 0"
      using x round_pos_pos[of "- x"] by (simp add: rnd_def less_imp_le)
    ultimately show ?thesis by (rule order_trans[rotated])
  qed
qed

lemma rnd_error:
  assumes "0 \<le> x"
  shows "\<bar>rnd x - x\<bar> \<le> x / 2 ^ 53"
proof (cases "x = 0")
  case False
  then have x: "0 < x" using assms by simp
  have "rnd x - x = (of_int (round_half_even (x / ulp x)) - x / ulp x) * ulp x"
    using x by (simp add: rnd_def round_pos_def left_diff_distrib less_imp_neq[symmetric])
  then have "\<bar>rnd x - x\<bar> = \<bar>of_int (round_half_even (x / ulp x)) - x / ulp x\<bar> * ulp x"
    by (simp add: abs_mult abs_of_pos)
  also have "\<dots> \<le> 1 / 2 * ulp x"
    by (intro mult_right_mono round_half_even_error) (simp add: less_imp_le)
  also have "\<dots> \<le> x / 2 ^ 53"
    using ulp_scale(1)[OF x] by (simp add: pos_le_divide_eq)
  finally show ?thesis .
qed simp



lemma round_pos_2_53: "round_pos (2 ^ 53) = 2 ^ 53"
  by code_simp

lemma ulp_scale_int:
  assumes "ilog2 (of_nat n) \<le> 52"
  shows "of_nat n / ulp (of_nat n) = of_int (int n * 2 ^ nat (52 - ilog2 (of_nat n)))"
proof -
  have "inverse (ulp (of_nat n)) = 2 powi (52 - ilog2 (of_nat n))"
    by (simp add: ulp_def flip: power_int_minus)
  also have "\<dots> = 2 ^ nat (52 - ilog2 (of_nat n))"
    using assms by (simp add: power_int_def)
  finally show ?thesis by (simp add: divide_inverse)
qed

lemma rnd_of_nat [simp]:
  assumes "n \<le> 2 ^ 53"
  shows "rnd (of_nat n) = of_nat n"
proof (cases "n = 0")
  case False
  let ?x = "of_nat n :: rat"
  have x: "0 < ?x" using False by simp
  have le: "?x \<le> 2 ^ 53"
    using of_nat_le_iff[where 'a = rat, of n "2 ^ 53"] assms by simp
  have "round_pos ?x = ?x"
  proof (cases "ilog2 ?x \<le> 52")
    case True
    then have "round_pos ?x = ?x / ulp ?x * ulp ?x"
      unfolding round_pos_def by (simp only: ulp_scale_int round_half_even_int)
    then show ?thesis using ulp_pos[of ?x] by simp
  next
    case False
    then have "(2::rat) powi 53 \<le> 2 powi ilog2 ?x" by (intro powi_2_mono) simp
    then have "?x = 2 ^ 53" using ilog2_bounds(1)[OF x] le by simp
    then show ?thesis by (simp only: round_pos_2_53)
  qed
  then show ?thesis using x by (simp add: rnd_def)
qed simp

section \<open>The contract of the rounding\<close>

text \<open>
  What the token buckets rely on: the rounding is monotone, it leaves the naturals up to \<open>2\<^sup>5\<^sup>3\<close>
  unchanged (rates, bursts, request sizes), and its error is relative to the exact result.
\<close>

locale rounding =
  fixes rd :: "rat \<Rightarrow> rat" and eps :: rat
  assumes rd_mono: "x \<le> y \<Longrightarrow> rd x \<le> rd y"
    and rd_of_nat: "n \<le> 2 ^ 53 \<Longrightarrow> rd (of_nat n) = of_nat n"
    and rd_error: "0 \<le> x \<Longrightarrow> \<bar>rd x - x\<bar> \<le> x * eps"
    and eps_bounds: "0 \<le> eps" "eps \<le> 1"
begin

lemma rd_nonneg: "0 \<le> x \<Longrightarrow> 0 \<le> rd x"
  using rd_mono[of 0 x] rd_of_nat[of 0] by simp

lemma rd_le_of_nat: "x \<le> of_nat n \<Longrightarrow> n \<le> 2 ^ 53 \<Longrightarrow> rd x \<le> of_nat n"
  using rd_mono[of x "of_nat n"] rd_of_nat[of n] by simp

lemma of_nat_le_rd: "of_nat n \<le> x \<Longrightarrow> n \<le> 2 ^ 53 \<Longrightarrow> of_nat n \<le> rd x"
  using rd_mono[of "of_nat n" x] rd_of_nat[of n] by simp

lemma rd_upper: "0 \<le> x \<Longrightarrow> rd x \<le> x * (1 + eps)"
  using rd_error[of x] by (simp add: distrib_left abs_le_iff)

lemma rd_lower: "0 \<le> x \<Longrightarrow> x * (1 - eps) \<le> rd x"
  using rd_error[of x] by (simp add: right_diff_distrib abs_le_iff)

text \<open>A value bounded by \<open>b\<close> moves by at most \<open>b * eps\<close>.\<close>

lemma rd_upper_abs: "0 \<le> x \<Longrightarrow> x \<le> b \<Longrightarrow> rd x \<le> x + b * eps"
  using rd_upper[of x] mult_right_mono[of x b eps] eps_bounds by (simp add: distrib_left)

lemma rd_lower_abs: "0 \<le> x \<Longrightarrow> x \<le> b \<Longrightarrow> x - b * eps \<le> rd x"
  using rd_lower[of x] mult_right_mono[of x b eps] eps_bounds by (simp add: right_diff_distrib)

end

text \<open>The unit roundoff of binary64.\<close>

definition eps64 :: rat where
  "eps64 = 1 / 2 ^ 53"

interpretation b64: rounding rnd eps64
proof unfold_locales
  show "rnd x \<le> rnd y" if "x \<le> y" for x y using that by (rule rnd_mono)
  show "rnd (of_nat n) = of_nat n" if "n \<le> 2 ^ 53" for n using that by (rule rnd_of_nat)
  show "\<bar>rnd x - x\<bar> \<le> x * eps64" if "0 \<le> x" for x
    using rnd_error[OF that] by (simp add: eps64_def)
qed (simp_all add: eps64_def)

lemma rnd_1 [simp]: "rnd 1 = 1"
  using rnd_of_nat[of 1] by simp

lemma rnd_numeral [simp]:
  assumes "(numeral k :: nat) \<le> 2 ^ 53"
  shows "rnd (numeral k) = numeral k"
  using rnd_of_nat[OF assms] by simp

section \<open>Durations\<close>

text \<open>\<open>Duration::as_secs_f64\<close>: the whole seconds plus the nanoseconds over \<open>10\<^sup>9\<close>.\<close>

definition as_secs_f64 :: "duration \<Rightarrow> f64" where
  "as_secs_f64 d =
     rnd (rnd (of_nat (d div 1000000000)) + rnd (of_nat (d mod 1000000000) / 1000000000))"

text \<open>
  \<open>Duration::from_secs_f64\<close> rounds to the nearest nanosecond, ties to even; it panics (\<open>None\<close>) on
  a negative number and on one of \<open>2\<^sup>6\<^sup>4\<close> seconds or more.
\<close>

definition from_secs_f64 :: "f64 \<Rightarrow> duration option" where
  "from_secs_f64 x =
     (let ns = round_half_even (x * 1000000000)
      in if x < 0 \<or> 2 ^ 64 * 1000000000 \<le> ns then None else Some (nat ns))"

text \<open>A duration in seconds, exactly.\<close>

definition secs :: "duration \<Rightarrow> rat" where
  "secs d = of_nat d / 1000000000"

lemma secs_split: "secs d = of_nat (d div 1000000000) + of_nat (d mod 1000000000) / 1000000000"
proof -
  have "of_nat d = (of_nat (1000000000 * (d div 1000000000) + d mod 1000000000) :: rat)" by simp
  then show ?thesis unfolding secs_def of_nat_add of_nat_mult by (simp add: add_divide_distrib)
qed

lemma secs_nonneg [simp]: "0 \<le> secs d"
  by (simp add: secs_def)

lemma secs_mono: "a \<le> b \<Longrightarrow> secs a \<le> secs b"
  by (simp add: secs_def divide_right_mono)

lemma secs_diff: "a \<le> b \<Longrightarrow> secs (b - a) = secs b - secs a"
  by (simp add: secs_def of_nat_diff diff_divide_distrib)

lemma as_secs_f64_nonneg [simp]: "0 \<le> as_secs_f64 d"
  by (simp add: as_secs_f64_def b64.rd_nonneg)

lemma as_secs_f64_0 [simp]: "as_secs_f64 0 = 0"
  by (simp add: as_secs_f64_def)

lemma as_secs_f64_upper: "as_secs_f64 d \<le> secs d * (1 + eps64) ^ 2"
proof -
  let ?s = "of_nat (d div 1000000000) :: rat" and ?f = "of_nat (d mod 1000000000) / 1000000000 :: rat"
  have "rnd ?s + rnd ?f \<le> (?s + ?f) * (1 + eps64)"
    using b64.rd_upper[of ?s] b64.rd_upper[of ?f] by (simp add: distrib_right)
  moreover have "0 \<le> rnd ?s + rnd ?f" by (simp add: b64.rd_nonneg)
  moreover note b64.rd_upper[of "rnd ?s + rnd ?f"] b64.eps_bounds(1)
  ultimately have "as_secs_f64 d \<le> (?s + ?f) * (1 + eps64) * (1 + eps64)"
    unfolding as_secs_f64_def by (meson add_nonneg_nonneg mult_right_mono order_trans zero_le_one)
  then show ?thesis by (simp add: secs_split power2_eq_square mult.assoc)
qed

lemma as_secs_f64_lower: "secs d * (1 - eps64) ^ 2 \<le> as_secs_f64 d"
proof -
  let ?s = "of_nat (d div 1000000000) :: rat" and ?f = "of_nat (d mod 1000000000) / 1000000000 :: rat"
  have "(?s + ?f) * (1 - eps64) \<le> rnd ?s + rnd ?f"
    using b64.rd_lower[of ?s] b64.rd_lower[of ?f] by (simp add: distrib_right)
  moreover have "0 \<le> rnd ?s + rnd ?f" by (simp add: b64.rd_nonneg)
  moreover note b64.rd_lower[of "rnd ?s + rnd ?f"] b64.eps_bounds(2)
  ultimately have "(?s + ?f) * (1 - eps64) * (1 - eps64) \<le> as_secs_f64 d"
    unfolding as_secs_f64_def by (meson diff_ge_0_iff_ge mult_right_mono order_trans)
  then show ?thesis by (simp add: secs_split power2_eq_square mult.assoc)
qed

end
