(* ===== verification/Metrics.thy ===== *)
theory Metrics
  imports F64
begin

text \<open>
  The metric families (\<^verbatim>\<open>src/metrics/mod.rs\<close>) and the updates the program makes to them. The
  registry itself is the \<^verbatim>\<open>prometheus\<close> crate; the model keeps the chronological list of the calls
  made to it. \<open>gauge_reading\<close> states what a gauge shows after such a list: \<open>set\<close> assigns, \<open>inc\<close>
  and \<open>dec\<close> move by one, and a gauge starts at zero. It is a rational number where the crate has a
  binary64, which is the same as long as the gauge stays below \<open>2\<^sup>5\<^sup>3\<close>.
\<close>

section \<open>Families\<close>

datatype metric =
    ACTIVE_CONNECTIONS
  | TOTAL_CONNECTIONS
  | TRAFFIC_BYTES
  | BACKEND_ACTIVE_CONNECTIONS
  | BACKEND_HEALTH_STATUS
  | CONNECTION_DURATION

datatype metric_kind = GaugeVec | IntCounterVec | HistogramVec "f64 list"

fun metric_kind_of :: "metric \<Rightarrow> metric_kind" where
  "metric_kind_of ACTIVE_CONNECTIONS = GaugeVec"
| "metric_kind_of TOTAL_CONNECTIONS = IntCounterVec"
| "metric_kind_of TRAFFIC_BYTES = IntCounterVec"
| "metric_kind_of BACKEND_ACTIVE_CONNECTIONS = GaugeVec"
| "metric_kind_of BACKEND_HEALTH_STATUS = GaugeVec"
| "metric_kind_of CONNECTION_DURATION =
     HistogramVec (map rnd [1/1000, 5/1000, 1/100, 5/100, 1/10, 5/10, 1, 5, 10, 30, 60, 300])"

fun metric_name :: "metric \<Rightarrow> string" where
  "metric_name ACTIVE_CONNECTIONS = ''l4lb_active_connections''"
| "metric_name TOTAL_CONNECTIONS = ''l4lb_connections_total''"
| "metric_name TRAFFIC_BYTES = ''l4lb_traffic_bytes_total''"
| "metric_name BACKEND_ACTIVE_CONNECTIONS = ''l4lb_backend_active_connections''"
| "metric_name BACKEND_HEALTH_STATUS = ''l4lb_backend_health_status''"
| "metric_name CONNECTION_DURATION = ''l4lb_connection_duration_seconds''"

fun label_names :: "metric \<Rightarrow> string list" where
  "label_names ACTIVE_CONNECTIONS = [''rule_name'']"
| "label_names TOTAL_CONNECTIONS = [''rule_name'']"
| "label_names TRAFFIC_BYTES = [''rule_name'', ''direction'']"
| "label_names BACKEND_ACTIVE_CONNECTIONS = [''rule_name'', ''backend_addr'']"
| "label_names BACKEND_HEALTH_STATUS = [''rule_name'', ''backend_addr'']"
| "label_names CONNECTION_DURATION = [''rule_name'']"

section \<open>Updates\<close>

text \<open>One call \<open>M.with_label_values(&[...]).op(...)\<close>.\<close>

datatype metric_op =
    GaugeSet metric "string list" f64
  | GaugeInc metric "string list"
  | GaugeDec metric "string list"
  | CounterInc metric "string list" u64
  | Observe metric "string list" f64

text \<open>
  \<open>with_label_values\<close> panics unless it is given one value per label name of the family, and each
  kind of family has its own operations.
\<close>

fun op_ok :: "metric_op \<Rightarrow> bool" where
  "op_ok (GaugeSet m ls v) \<longleftrightarrow> metric_kind_of m = GaugeVec \<and> length ls = length (label_names m)"
| "op_ok (GaugeInc m ls) \<longleftrightarrow> metric_kind_of m = GaugeVec \<and> length ls = length (label_names m)"
| "op_ok (GaugeDec m ls) \<longleftrightarrow> metric_kind_of m = GaugeVec \<and> length ls = length (label_names m)"
| "op_ok (CounterInc m ls n) \<longleftrightarrow> metric_kind_of m = IntCounterVec \<and> length ls = length (label_names m)"
| "op_ok (Observe m ls v) \<longleftrightarrow>
     (case metric_kind_of m of HistogramVec _ \<Rightarrow> True | _ \<Rightarrow> False) \<and> length ls = length (label_names m)"

section \<open>Readings\<close>

fun gauge_step :: "metric \<Rightarrow> string list \<Rightarrow> metric_op \<Rightarrow> rat \<Rightarrow> rat" where
  "gauge_step m ls (GaugeSet m' ls' v) x = (if m' = m \<and> ls' = ls then v else x)"
| "gauge_step m ls (GaugeInc m' ls') x = (if m' = m \<and> ls' = ls then x + 1 else x)"
| "gauge_step m ls (GaugeDec m' ls') x = (if m' = m \<and> ls' = ls then x - 1 else x)"
| "gauge_step m ls _ x = x"

definition gauge_reading :: "metric \<Rightarrow> string list \<Rightarrow> metric_op list \<Rightarrow> rat" where
  "gauge_reading m ls ops = fold (gauge_step m ls) ops 0"

lemma gauge_reading_Nil [simp]: "gauge_reading m ls [] = 0"
  by (simp add: gauge_reading_def)

lemma gauge_reading_append: "gauge_reading m ls (ops @ ops') = fold (gauge_step m ls) ops' (gauge_reading m ls ops)"
  by (simp add: gauge_reading_def)

lemma gauge_reading_snoc [simp]: "gauge_reading m ls (ops @ [x]) = gauge_step m ls x (gauge_reading m ls ops)"
  by (simp add: gauge_reading_append)

text \<open>A counter is an atomic \<open>u64\<close>.\<close>

fun counter_amount :: "metric \<Rightarrow> string list \<Rightarrow> metric_op \<Rightarrow> u64" where
  "counter_amount m ls (CounterInc m' ls' n) = (if m' = m \<and> ls' = ls then n else 0)"
| "counter_amount m ls _ = 0"

definition counter_reading :: "metric \<Rightarrow> string list \<Rightarrow> metric_op list \<Rightarrow> u64" where
  "counter_reading m ls ops = sum_list (map (counter_amount m ls) ops)"

text \<open>A gauge that is never set shows how often it was incremented more than decremented, in whatever order.\<close>

fun sets_gauge :: "metric \<Rightarrow> string list \<Rightarrow> metric_op \<Rightarrow> bool" where
  "sets_gauge m ls (GaugeSet m' ls' v) \<longleftrightarrow> m' = m \<and> ls' = ls"
| "sets_gauge m ls _ \<longleftrightarrow> False"

lemma fold_gauge_step:
  assumes "\<forall>x \<in> set ops. \<not> sets_gauge m ls x"
  shows "fold (gauge_step m ls) ops v =
    v + of_nat (count_list ops (GaugeInc m ls)) - of_nat (count_list ops (GaugeDec m ls))"
  using assms
proof (induction ops arbitrary: v)
  case (Cons x ops)
  then show ?case by (cases x) auto
qed simp

lemma gauge_reading_counts:
  "\<forall>x \<in> set ops. \<not> sets_gauge m ls x \<Longrightarrow>
    gauge_reading m ls ops = of_nat (count_list ops (GaugeInc m ls)) - of_nat (count_list ops (GaugeDec m ls))"
  by (simp add: gauge_reading_def fold_gauge_step)

section \<open>The scrape handler\<close>

record http_response =
  resp_status :: nat
  resp_content_type :: "string option"
  resp_body :: "u8 list"

text \<open>
  \<open>metrics_handler\<close>: \<open>encoded\<close> is what \<open>TextEncoder::encode\<close> made of the gathered families, an
  error message or the text, and \<open>format_type\<close> is the encoder's content type. \<open>Response::builder\<close>
  starts at status 200.
\<close>

definition metrics_handler :: "string \<Rightarrow> string + u8 list \<Rightarrow> http_response" where
  "metrics_handler format_type encoded =
     (case encoded of
        Inl e \<Rightarrow> \<lparr>resp_status = 500, resp_content_type = None, resp_body = map of_char (''Error: '' @ e)\<rparr>
      | Inr buffer \<Rightarrow> \<lparr>resp_status = 200, resp_content_type = Some format_type, resp_body = buffer\<rparr>)"

end
