(* ===== verification/Balancer.thy ===== *)
theory Balancer
  imports Config Metrics
begin

text \<open>
  The load balancer (\<^verbatim>\<open>src/core/balancer.rs\<close>). Backends live behind \<open>Arc\<close>, are shared between the
  balancer's list, the guards of live connections and earlier snapshots of the list, and are
  mutated in place; so the model has a heap of backends and references into it. A reference is
  the position of the backend in the heap, and allocation appends.
\<close>

section \<open>State\<close>

type_synonym backend_ref = nat

record Backend =
  b_rule_name :: string
  b_addr :: string
  b_active_connections :: usize
  b_healthy :: bool
  b_drain :: bool

record LoadBalancer =
  lb_rule_name :: string
  lb_backends :: "backend_ref list"
  lb_current :: usize
  lb_connection_limit :: "usize option"

text \<open>The counter of a guard is the \<open>active_connections\<close> cell of the backend it was made from.\<close>

record ConnectionGuard =
  g_rule_name :: string
  g_backend_addr :: string
  g_counter :: backend_ref

record store =
  st_heap :: "Backend list"
  st_metrics :: "metric_op list"

definition emit :: "metric_op \<Rightarrow> store \<Rightarrow> store" where
  "emit x s = s\<lparr>st_metrics := st_metrics s @ [x]\<rparr>"

definition alloc :: "Backend \<Rightarrow> store \<Rightarrow> backend_ref \<times> store" where
  "alloc b s = (length (st_heap s), s\<lparr>st_heap := st_heap s @ [b]\<rparr>)"

definition upd_backend :: "backend_ref \<Rightarrow> (Backend \<Rightarrow> Backend) \<Rightarrow> store \<Rightarrow> store" where
  "upd_backend r f s = s\<lparr>st_heap := (st_heap s)[r := f (st_heap s ! r)]\<rparr>"

section \<open>Construction\<close>

text \<open>The two initial gauge values and the fresh backend, shared by \<open>new\<close> and \<open>update_backends\<close>.\<close>

definition init_backend :: "string \<Rightarrow> string \<Rightarrow> bool \<Rightarrow> store \<Rightarrow> backend_ref \<times> store" where
  "init_backend rule a d s =
     alloc \<lparr>b_rule_name = rule, b_addr = a, b_active_connections = 0, b_healthy = True, b_drain = d\<rparr>
       (emit (GaugeSet BACKEND_ACTIVE_CONNECTIONS [rule, a] 0)
         (emit (GaugeSet BACKEND_HEALTH_STATUS [rule, a] 1) s))"

fun new_backends :: "string \<Rightarrow> BackendConfig list \<Rightarrow> store \<Rightarrow> backend_ref list \<times> store" where
  "new_backends rule [] s = ([], s)"
| "new_backends rule (c # cs) s =
     (let (a, d) = backend_entry c;
          (r, s1) = init_backend rule a d s;
          (rs, s2) = new_backends rule cs s1
      in (r # rs, s2))"

definition new_lb :: "string \<Rightarrow> BackendConfig list \<Rightarrow> usize option \<Rightarrow> store \<Rightarrow> LoadBalancer \<times> store" where
  "new_lb rule configs limit s =
     (let (rs, s') = new_backends rule configs s
      in (\<lparr>lb_rule_name = rule, lb_backends = rs, lb_current = 0, lb_connection_limit = limit\<rparr>, s'))"

section \<open>Reconfiguration and health\<close>

definition find_backend :: "string \<Rightarrow> backend_ref list \<Rightarrow> store \<Rightarrow> backend_ref option" where
  "find_backend a refs s = find (\<lambda>r. b_addr (st_heap s ! r) = a) refs"

text \<open>
  One iteration per configured backend: an address the current list has keeps its object, with the
  drain flag stored into it at once; any other address gets a fresh object.
\<close>

definition update_one :: "string \<Rightarrow> backend_ref list \<Rightarrow> BackendConfig \<Rightarrow> store \<Rightarrow> backend_ref \<times> store" where
  "update_one rule cur c s =
     (let (a, drain_cfg) = backend_entry c
      in case find_backend a cur s of
           Some existing \<Rightarrow> (existing, upd_backend existing (\<lambda>b. b\<lparr>b_drain := drain_cfg\<rparr>) s)
         | None \<Rightarrow> init_backend rule a drain_cfg s)"

fun update_loop :: "string \<Rightarrow> backend_ref list \<Rightarrow> BackendConfig list \<Rightarrow> store \<Rightarrow> backend_ref list \<times> store" where
  "update_loop rule cur [] s = ([], s)"
| "update_loop rule cur (c # cs) s =
     (let (r, s1) = update_one rule cur c s;
          (rs, s2) = update_loop rule cur cs s1
      in (r # rs, s2))"

definition update_backends :: "LoadBalancer \<Rightarrow> BackendConfig list \<Rightarrow> store \<Rightarrow> LoadBalancer \<times> store" where
  "update_backends lb configs s =
     (let (rs, s') = update_loop (lb_rule_name lb) (lb_backends lb) configs s
      in (lb\<lparr>lb_backends := rs\<rparr>, s'))"

definition set_backend_health :: "LoadBalancer \<Rightarrow> string \<Rightarrow> bool \<Rightarrow> store \<Rightarrow> store" where
  "set_backend_health lb a h s =
     (let s1 = emit (GaugeSet BACKEND_HEALTH_STATUS [lb_rule_name lb, a] (if h then 1 else 0)) s
      in case find_backend a (lb_backends lb) s1 of
           Some r \<Rightarrow> upd_backend r (\<lambda>b. b\<lparr>b_healthy := h\<rparr>) s1
         | None \<Rightarrow> s1)"

section \<open>Selection\<close>

text \<open>The three tests of one iteration, in the order of the source.\<close>

definition available :: "usize option \<Rightarrow> Backend \<Rightarrow> bool" where
  "available limit b =
     (if b_drain b then False
      else if \<not> b_healthy b then False
      else case limit of
             Some l \<Rightarrow> b_active_connections b < l
           | None \<Rightarrow> True)"

text \<open>
  \<open>(start_index + i) % len\<close>: the addition is on \<open>usize\<close> and wraps in the release profile; the
  length of a \<open>Vec\<close> fits a \<open>usize\<close>, so the remainder is the one of the natural numbers.
\<close>

definition probe_index :: "usize \<Rightarrow> nat \<Rightarrow> nat \<Rightarrow> nat" where
  "probe_index start n i = unat (start + of_nat i) mod n"

fun scan :: "usize option \<Rightarrow> store \<Rightarrow> backend_ref list \<Rightarrow> usize \<Rightarrow> nat list \<Rightarrow> backend_ref option" where
  "scan limit s refs start [] = None"
| "scan limit s refs start (i # is) =
     (let r = refs ! probe_index start (length refs) i
      in if available limit (st_heap s ! r) then Some r else scan limit s refs start is)"

definition acquire :: "backend_ref \<Rightarrow> store \<Rightarrow> ConnectionGuard \<times> store" where
  "acquire r s =
     (let b = st_heap s ! r;
          s1 = upd_backend r (\<lambda>b. b\<lparr>b_active_connections := b_active_connections b + 1\<rparr>) s;
          s2 = emit (GaugeInc BACKEND_ACTIVE_CONNECTIONS [b_rule_name b, b_addr b]) s1
      in (\<lparr>g_rule_name = b_rule_name b, g_backend_addr = b_addr b, g_counter = r\<rparr>, s2))"

definition next_backend :: "LoadBalancer \<Rightarrow> store \<Rightarrow> (string \<times> ConnectionGuard) option \<times> LoadBalancer \<times> store" where
  "next_backend lb s =
     (if lb_backends lb = [] then (None, lb, s)
      else
        let start_index = lb_current lb;
            lb' = lb\<lparr>lb_current := lb_current lb + 1\<rparr>
        in case scan (lb_connection_limit lb) s (lb_backends lb) start_index [0..<length (lb_backends lb)] of
             None \<Rightarrow> (None, lb', s)
           | Some r \<Rightarrow> (let (g, s') = acquire r s in (Some (b_addr (st_heap s ! r), g), lb', s')))"

definition drop_guard :: "ConnectionGuard \<Rightarrow> store \<Rightarrow> store" where
  "drop_guard g s =
     emit (GaugeDec BACKEND_ACTIVE_CONNECTIONS [g_rule_name g, g_backend_addr g])
       (upd_backend (g_counter g) (\<lambda>b. b\<lparr>b_active_connections := b_active_connections b - 1\<rparr>) s)"

section \<open>Heap effects of the operations\<close>

lemma emit_heap [simp]: "st_heap (emit x s) = st_heap s"
  by (simp add: emit_def)

lemma emit_metrics [simp]: "st_metrics (emit x s) = st_metrics s @ [x]"
  by (simp add: emit_def)

lemma upd_backend_heap [simp]: "st_heap (upd_backend r f s) = (st_heap s)[r := f (st_heap s ! r)]"
  by (simp add: upd_backend_def)

lemma upd_backend_metrics [simp]: "st_metrics (upd_backend r f s) = st_metrics s"
  by (simp add: upd_backend_def)

definition fresh_backend :: "string \<Rightarrow> BackendConfig \<Rightarrow> Backend" where
  "fresh_backend rule c =
     \<lparr>b_rule_name = rule, b_addr = fst (backend_entry c), b_active_connections = 0,
      b_healthy = True, b_drain = snd (backend_entry c)\<rparr>"

lemma init_backend_eq [heap_simps]:
  "fst (init_backend rule a d s) = length (st_heap s)"
  "st_heap (snd (init_backend rule a d s)) = st_heap s @ [fresh_backend rule (Detailed a d)]"
  "st_metrics (snd (init_backend rule a d s)) = st_metrics s @
     [GaugeSet BACKEND_HEALTH_STATUS [rule, a] 1, GaugeSet BACKEND_ACTIVE_CONNECTIONS [rule, a] 0]"
  by (simp_all add: init_backend_def alloc_def fresh_backend_def)

lemma fresh_backend_Detailed [simp]: "fresh_backend rule (Detailed (fst (backend_entry c)) (snd (backend_entry c))) = fresh_backend rule c"
  by (simp add: fresh_backend_def)

lemma new_backends_eq:
  "fst (new_backends rule cs s) = [length (st_heap s)..<length (st_heap s) + length cs]"
  "st_heap (snd (new_backends rule cs s)) = st_heap s @ map (fresh_backend rule) cs"
  by (induction cs arbitrary: s)
     (simp_all add: split_beta Let_def init_backend_eq upt_conv_Cons del: upt_Suc)

text \<open>
  What a reconfiguration may do to the heap: it appends idle, healthy backends and stores drain
  flags; addresses, counters and health of the backends that exist are left alone.
\<close>

definition core :: "Backend \<Rightarrow> string \<times> string \<times> usize \<times> bool" where
  "core b = (b_rule_name b, b_addr b, b_active_connections b, b_healthy b)"

definition reconfigured :: "string \<Rightarrow> Backend list \<Rightarrow> Backend list \<Rightarrow> bool" where
  "reconfigured rule h h' \<longleftrightarrow>
     length h \<le> length h' \<and>
     (\<forall>r < length h. core (h' ! r) = core (h ! r)) \<and>
     (\<forall>r \<ge> length h. r < length h' \<longrightarrow>
        b_rule_name (h' ! r) = rule \<and> b_active_connections (h' ! r) = 0 \<and> b_healthy (h' ! r))"

lemma reconfigured_refl: "reconfigured rule h h"
  by (auto simp: reconfigured_def)

lemma reconfigured_keeps:
  assumes "reconfigured rule h h'" "r < length h"
  shows "b_rule_name (h' ! r) = b_rule_name (h ! r)" "b_addr (h' ! r) = b_addr (h ! r)"
    "b_active_connections (h' ! r) = b_active_connections (h ! r)" "b_healthy (h' ! r) = b_healthy (h ! r)"
  using assms by (auto simp: reconfigured_def core_def)

lemma reconfigured_length: "reconfigured rule h h' \<Longrightarrow> length h \<le> length h'"
  by (simp add: reconfigured_def)

lemma reconfigured_new:
  assumes "reconfigured rule h h'" "length h \<le> r" "r < length h'"
  shows "b_rule_name (h' ! r) = rule" "b_active_connections (h' ! r) = 0" "b_healthy (h' ! r)"
  using assms by (auto simp: reconfigured_def)

lemma reconfigured_trans:
  assumes 1: "reconfigured rule h h'" and 2: "reconfigured rule h' h''"
  shows "reconfigured rule h h''"
  unfolding reconfigured_def
proof (intro conjI allI impI)
  show "length h \<le> length h''" using 1 2 by (simp add: reconfigured_def)
  show "core (h'' ! r) = core (h ! r)" if "r < length h" for r
    using 1 2 that by (simp add: reconfigured_def)
  fix r assume r: "length h \<le> r" "r < length h''"
  show "b_rule_name (h'' ! r) = rule" "b_active_connections (h'' ! r) = 0" "b_healthy (h'' ! r)"
    using reconfigured_new[OF 1 r(1)] reconfigured_new[OF 2 _ r(2)] reconfigured_keeps[OF 2, of r]
    by (cases "r < length h'"; simp)+
qed

lemma core_drain [simp]: "core (b\<lparr>b_drain := d\<rparr>) = core b"
  by (simp add: core_def)

lemma reconfigured_drain: "reconfigured rule h (h[r := (h ! r)\<lparr>b_drain := d\<rparr>])"
  by (cases "r < length h") (auto simp: reconfigured_def nth_list_update list_update_beyond)

lemma reconfigured_fresh: "reconfigured rule h (h @ [fresh_backend rule c])"
  by (auto simp: reconfigured_def nth_append fresh_backend_def)

text \<open>Looking up an address sees the same backend before and after a reconfiguration.\<close>

definition refs_ok :: "backend_ref list \<Rightarrow> Backend list \<Rightarrow> bool" where
  "refs_ok refs h \<longleftrightarrow> (\<forall>r \<in> set refs. r < length h)"

lemma refs_okD [dest]: "refs_ok refs h \<Longrightarrow> r \<in> set refs \<Longrightarrow> r < length h"
  by (simp add: refs_ok_def)

lemma refs_ok_reconfigured: "refs_ok refs h \<Longrightarrow> reconfigured rule h h' \<Longrightarrow> refs_ok refs h'"
  by (fastforce simp: refs_ok_def dest: reconfigured_length)

lemma find_backend_reconfigured:
  assumes "refs_ok cur (st_heap s)" "reconfigured rule (st_heap s) (st_heap s')"
  shows "find_backend a cur s' = find_backend a cur s"
  unfolding find_backend_def
  using assms by (intro find_cong_set) (auto simp: reconfigured_keeps)

lemma find_backend_SomeD:
  "find_backend a cur s = Some r \<Longrightarrow> r \<in> set cur \<and> b_addr (st_heap s ! r) = a"
  unfolding find_backend_def by (rule find_Some_in_set)

text \<open>One iteration of the loop: which reference it yields, and what it does to the heap.\<close>

lemma update_one_reconfigured: "reconfigured rule (st_heap s) (st_heap (snd (update_one rule cur c s)))"
  by (auto simp: update_one_def split_beta Let_def init_backend_eq reconfigured_drain reconfigured_fresh split: option.split)

lemma update_loop_reconfigured: "reconfigured rule (st_heap s) (st_heap (snd (update_loop rule cur cs s)))"
proof (induction cs arbitrary: s)
  case (Cons c cs)
  then show ?case
    using reconfigured_trans[OF update_one_reconfigured Cons.IH] by (simp add: split_beta Let_def)
qed (simp add: reconfigured_refl)

lemma update_one_ref:
  assumes "refs_ok cur (st_heap s)"
  shows "fst (update_one rule cur c s) < length (st_heap (snd (update_one rule cur c s)))"
    and "b_addr (st_heap (snd (update_one rule cur c s)) ! fst (update_one rule cur c s)) = fst (backend_entry c)"
    and "b_drain (st_heap (snd (update_one rule cur c s)) ! fst (update_one rule cur c s)) = snd (backend_entry c)"
    and "fst (update_one rule cur c s) =
      (case find_backend (fst (backend_entry c)) cur s of Some r \<Rightarrow> r | None \<Rightarrow> length (st_heap s))"
  using assms find_backend_SomeD[of "fst (backend_entry c)" cur s]
  by (auto simp: update_one_def split_beta Let_def init_backend_eq fresh_backend_def refs_ok_def split: option.split)

lemma update_one_refs_ok:
  "refs_ok cur (st_heap s) \<Longrightarrow> refs_ok cur (st_heap (snd (update_one rule cur c s)))"
  using refs_ok_reconfigured update_one_reconfigured by blast

lemma update_one_find_backend:
  "refs_ok cur (st_heap s) \<Longrightarrow> find_backend a cur (snd (update_one rule cur c s)) = find_backend a cur s"
  using find_backend_reconfigured update_one_reconfigured by blast

lemma update_loop_length: "length (fst (update_loop rule cur cs s)) = length cs"
  by (induction cs arbitrary: s) (simp_all add: split_beta Let_def)

abbreviation addrs :: "BackendConfig list \<Rightarrow> string list" where
  "addrs cs \<equiv> map (fst \<circ> backend_entry) cs"

text \<open>A stored drain flag survives the iterations for other addresses.\<close>

lemma update_one_drain_other:
  assumes "r < length (st_heap s)" "b_addr (st_heap s ! r) \<noteq> fst (backend_entry c)"
  shows "b_drain (st_heap (snd (update_one rule cur c s)) ! r) = b_drain (st_heap s ! r)"
proof (cases "find_backend (fst (backend_entry c)) cur s")
  case None
  then show ?thesis using assms by (simp add: update_one_def split_beta Let_def init_backend_eq nth_append)
next
  case (Some x)
  then have "x \<noteq> r" using find_backend_SomeD[OF Some] assms(2) by auto
  then show ?thesis using Some by (simp add: update_one_def split_beta Let_def)
qed

lemma update_loop_drain_other:
  assumes "r < length (st_heap s)" "b_addr (st_heap s ! r) \<notin> set (addrs cs)"
  shows "b_drain (st_heap (snd (update_loop rule cur cs s)) ! r) = b_drain (st_heap s ! r)"
  using assms
proof (induction cs arbitrary: s)
  case (Cons c cs)
  let ?s1 = "snd (update_one rule cur c s)"
  have "r < length (st_heap ?s1)" "b_addr (st_heap ?s1 ! r) = b_addr (st_heap s ! r)"
    using Cons.prems(1) update_one_reconfigured[of rule s cur c]
    by (auto simp: reconfigured_keeps dest: reconfigured_length)
  then show ?case
    using Cons update_one_drain_other[of r s c rule cur] by (simp add: split_beta Let_def)
qed simp

lemma update_loop_nth:
  fixes rule :: string
  assumes "refs_ok cur (st_heap s)" "i < length cs"
  defines "r' \<equiv> fst (update_loop rule cur cs s) ! i"
    and "h' \<equiv> st_heap (snd (update_loop rule cur cs s))"
  shows "r' < length h' \<and> b_addr (h' ! r') = addrs cs ! i \<and>
    (distinct (addrs cs) \<longrightarrow> b_drain (h' ! r') = snd (backend_entry (cs ! i))) \<and>
    (case find_backend (addrs cs ! i) cur s of
       Some r \<Rightarrow> r' = r
     | None \<Rightarrow> length (st_heap s) \<le> r')"
  using assms(1,2) unfolding r'_def h'_def
proof (induction cs arbitrary: s i)
  case (Cons c cs)
  let ?r1 = "fst (update_one rule cur c s)" and ?s1 = "snd (update_one rule cur c s)"
  have ok1: "refs_ok cur (st_heap ?s1)" using Cons.prems(1) by (rule update_one_refs_ok)
  have len: "length (st_heap s) \<le> length (st_heap ?s1)"
    using reconfigured_length[OF update_one_reconfigured] .
  note one = update_one_ref[OF Cons.prems(1), of rule c]
  note found = update_one_find_backend[OF Cons.prems(1), of _ rule c]
  note loop = update_loop_reconfigured[of rule ?s1 cur cs]
  show ?case
  proof (cases i)
    case 0
    have "?r1 < length (st_heap (snd (update_loop rule cur cs ?s1)))"
      using one(1) reconfigured_length[OF loop] by simp
    then show ?thesis
      using one update_loop_drain_other[OF one(1), of cs rule cur] reconfigured_keeps(2)[OF loop one(1)]
      by (auto simp: 0 split_beta Let_def split: option.split)
  next
    case (Suc k)
    then show ?thesis
      using Cons.IH[OF ok1, of k] Cons.prems(2) len
      by (auto simp: split_beta Let_def found split: option.splits)
  qed
qed simp

end
