(* ===== verification/Connections.thy ===== *)
theory Connections
  imports Balancer
begin

text \<open>
  The life of connections through one load balancer: the balancer, its heap and the guards of the
  connections that are open, moved by whole operations in any order. Shown here: the counters
  track the open connections, the connection limit holds, selection is round robin over the
  available backends, and what reconfiguration and health updates keep.
\<close>

section \<open>The system\<close>

record world =
  w_lb :: LoadBalancer
  w_store :: store
  w_guards :: "ConnectionGuard list"

datatype lb_event =
    Next_backend
  | Drop_guard nat
  | Update_backends "BackendConfig list"
  | Set_backend_health string bool

fun lb_step :: "lb_event \<Rightarrow> world \<Rightarrow> world" where
  "lb_step Next_backend w =
     (case next_backend (w_lb w) (w_store w) of
        (None, lb, s) \<Rightarrow> w\<lparr>w_lb := lb, w_store := s\<rparr>
      | (Some (a, g), lb, s) \<Rightarrow> w\<lparr>w_lb := lb, w_store := s, w_guards := w_guards w @ [g]\<rparr>)"
| "lb_step (Drop_guard i) w =
     (if i < length (w_guards w)
      then w\<lparr>w_store := drop_guard (w_guards w ! i) (w_store w), w_guards := remove_nth i (w_guards w)\<rparr>
      else w)"
| "lb_step (Update_backends cs) w =
     (case update_backends (w_lb w) cs (w_store w) of (lb, s) \<Rightarrow> w\<lparr>w_lb := lb, w_store := s\<rparr>)"
| "lb_step (Set_backend_health a h) w = w\<lparr>w_store := set_backend_health (w_lb w) a h (w_store w)\<rparr>"

definition init_world :: "string \<Rightarrow> BackendConfig list \<Rightarrow> usize option \<Rightarrow> world" where
  "init_world rule configs limit =
     (case new_lb rule configs limit \<lparr>st_heap = [], st_metrics = []\<rparr> of
        (lb, s) \<Rightarrow> \<lparr>w_lb = lb, w_store = s, w_guards = []\<rparr>)"

abbreviation heap :: "world \<Rightarrow> Backend list" where
  "heap w \<equiv> st_heap (w_store w)"

abbreviation open_on :: "world \<Rightarrow> backend_ref \<Rightarrow> nat" where
  "open_on w r \<equiv> count_by g_counter r (w_guards w)"

section \<open>The invariant\<close>

definition guard_ok :: "Backend list \<Rightarrow> ConnectionGuard \<Rightarrow> bool" where
  "guard_ok h g \<longleftrightarrow> g_counter g < length h \<and>
     g_rule_name g = b_rule_name (h ! g_counter g) \<and> g_backend_addr g = b_addr (h ! g_counter g)"

definition wf_world :: "world \<Rightarrow> bool" where
  "wf_world w \<longleftrightarrow>
     refs_ok (lb_backends (w_lb w)) (heap w) \<and>
     (\<forall>g \<in> set (w_guards w). guard_ok (heap w) g) \<and>
     (\<forall>r < length (heap w). b_rule_name (heap w ! r) = lb_rule_name (w_lb w)) \<and>
     (\<forall>r < length (heap w). b_active_connections (heap w ! r) = of_nat (open_on w r))"

lemma wf_worldI:
  assumes "refs_ok (lb_backends (w_lb w)) (heap w)" "\<And>g. g \<in> set (w_guards w) \<Longrightarrow> guard_ok (heap w) g"
    "\<And>r. r < length (heap w) \<Longrightarrow> b_rule_name (heap w ! r) = lb_rule_name (w_lb w)"
    "\<And>r. r < length (heap w) \<Longrightarrow> b_active_connections (heap w ! r) = of_nat (open_on w r)"
  shows "wf_world w"
  using assms by (simp add: wf_world_def)

lemma wf_worldD:
  assumes "wf_world w"
  shows "refs_ok (lb_backends (w_lb w)) (heap w)" "\<And>g. g \<in> set (w_guards w) \<Longrightarrow> guard_ok (heap w) g"
    "\<And>r. r < length (heap w) \<Longrightarrow> b_rule_name (heap w ! r) = lb_rule_name (w_lb w)"
    "\<And>r. r < length (heap w) \<Longrightarrow> b_active_connections (heap w ! r) = of_nat (open_on w r)"
  using assms by (auto simp: wf_world_def)

lemma guard_ok_core:
  assumes "guard_ok h g" "length h \<le> length h'"
    "b_rule_name (h' ! g_counter g) = b_rule_name (h ! g_counter g)"
    "b_addr (h' ! g_counter g) = b_addr (h ! g_counter g)"
  shows "guard_ok h' g"
  using assms by (simp add: guard_ok_def)

section \<open>Selection\<close>

text \<open>The loop of \<open>next_backend\<close> is a search along the probed references.\<close>

lemma scan_find:
  "scan limit s refs start is =
     find (\<lambda>r. available limit (st_heap s ! r)) (map (\<lambda>i. refs ! probe_index start (length refs) i) is)"
  by (induction "is") (simp_all add: Let_def)

lemma probe_index_less: "0 < n \<Longrightarrow> probe_index start n i < n"
  by (simp add: probe_index_def)

text \<open>While the rotating index does not wrap, the probes visit the list once around.\<close>

lemma probe_index_no_wrap:
  assumes "unat start + n \<le> 2 ^ 64" "i < n"
  shows "probe_index start n i = (unat start + i) mod n"
  using assms by (simp add: probe_index_def unat_word_ariths unat_of_nat_small)

lemma probes_rotate:
  assumes "unat start + length refs \<le> 2 ^ 64"
  shows "map (\<lambda>i. refs ! probe_index start (length refs) i) [0..<length refs] = rotate (unat start) refs"
  using assms by (intro nth_equalityI) (simp_all add: probe_index_no_wrap nth_rotate)

lemma scan_rotate:
  assumes "unat start + length refs \<le> 2 ^ 64"
  shows "scan limit s refs start [0..<length refs] =
    find (\<lambda>r. available limit (st_heap s ! r)) (rotate (unat start) refs)"
  using probes_rotate[OF assms] by (simp add: scan_find)

lemma scan_SomeD:
  assumes "scan limit s refs start [0..<length refs] = Some r"
  shows "r \<in> set refs" and "available limit (st_heap s ! r)"
proof -
  have f: "find (\<lambda>r. available limit (st_heap s ! r))
      (map (\<lambda>i. refs ! probe_index start (length refs) i) [0..<length refs]) = Some r"
    using assms by (simp add: scan_find)
  show "available limit (st_heap s ! r)" using find_Some_in_set[OF f] by simp
  show "r \<in> set refs"
    using find_Some_in_set[OF f] by (auto intro!: nth_mem probe_index_less)
qed

text \<open>The two outcomes of \<open>next_backend\<close>.\<close>

lemma next_backend_cases:
  obtains (none) "fst (next_backend lb s) = None" "snd (snd (next_backend lb s)) = s"
      "lb_backends (fst (snd (next_backend lb s))) = lb_backends lb"
      "lb_rule_name (fst (snd (next_backend lb s))) = lb_rule_name lb"
      "lb_connection_limit (fst (snd (next_backend lb s))) = lb_connection_limit lb"
  | (chosen) r where "r \<in> set (lb_backends lb)" "available (lb_connection_limit lb) (st_heap s ! r)"
      "next_backend lb s = (Some (b_addr (st_heap s ! r), fst (acquire r s)),
         lb\<lparr>lb_current := lb_current lb + 1\<rparr>, snd (acquire r s))"
proof (cases "lb_backends lb = []")
  case True
  then show thesis by (intro none) (simp_all add: next_backend_def)
next
  case False
  show thesis
  proof (cases "scan (lb_connection_limit lb) s (lb_backends lb) (lb_current lb) [0..<length (lb_backends lb)]")
    case None
    then show thesis by (intro none) (simp_all add: next_backend_def)
  next
    case (Some r)
    then show thesis
      using scan_SomeD[OF Some] False by (intro chosen[of r]) (simp_all add: next_backend_def split_beta)
  qed
qed

lemma acquire_eq [heap_simps]:
  "g_counter (fst (acquire r s)) = r"
  "g_rule_name (fst (acquire r s)) = b_rule_name (st_heap s ! r)"
  "g_backend_addr (fst (acquire r s)) = b_addr (st_heap s ! r)"
  "st_heap (snd (acquire r s)) =
     (st_heap s)[r := (st_heap s ! r)\<lparr>b_active_connections := b_active_connections (st_heap s ! r) + 1\<rparr>]"
  "st_metrics (snd (acquire r s)) =
     st_metrics s @ [GaugeInc BACKEND_ACTIVE_CONNECTIONS [b_rule_name (st_heap s ! r), b_addr (st_heap s ! r)]]"
  by (simp_all add: acquire_def Let_def)

lemma drop_guard_eq [heap_simps]:
  "st_heap (drop_guard g s) = (st_heap s)[g_counter g :=
     (st_heap s ! g_counter g)\<lparr>b_active_connections := b_active_connections (st_heap s ! g_counter g) - 1\<rparr>]"
  "st_metrics (drop_guard g s) =
     st_metrics s @ [GaugeDec BACKEND_ACTIVE_CONNECTIONS [g_rule_name g, g_backend_addr g]]"
  by (simp_all add: drop_guard_def)

lemma set_backend_health_heap [heap_simps]:
  "st_heap (set_backend_health lb a h s) =
     (case find_backend a (lb_backends lb) s of
        Some r \<Rightarrow> (st_heap s)[r := (st_heap s ! r)\<lparr>b_healthy := h\<rparr>]
      | None \<Rightarrow> st_heap s)"
  by (simp add: set_backend_health_def Let_def find_backend_def split: option.split)

lemma set_backend_health_metrics [heap_simps]:
  "st_metrics (set_backend_health lb a h s) =
     st_metrics s @ [GaugeSet BACKEND_HEALTH_STATUS [lb_rule_name lb, a] (if h then 1 else 0)]"
  by (simp add: set_backend_health_def Let_def split: option.split)

section \<open>Every operation keeps the invariant\<close>

text \<open>An operation that stores into one backend, without moving it or renaming it.\<close>

lemma guard_ok_update:
  assumes "guard_ok h g" "b_rule_name b = b_rule_name (h ! r)" "b_addr b = b_addr (h ! r)"
  shows "guard_ok (h[r := b]) g"
  using assms by (cases "r < length h") (auto simp: guard_ok_def nth_list_update list_update_beyond)

lemma wf_next_backend:
  assumes "wf_world w"
  shows "wf_world (lb_step Next_backend w)"
proof (cases rule: next_backend_cases[of "w_lb w" "w_store w"])
  case none
  then show ?thesis
    using assms by (simp add: wf_world_def split_beta split: option.split)
next
  case (chosen r)
  note wf = wf_worldD[OF assms]
  have r: "r < length (heap w)" using wf(1) chosen(1) by auto
  have step: "lb_step Next_backend w = w\<lparr>w_lb := (w_lb w)\<lparr>lb_current := lb_current (w_lb w) + 1\<rparr>,
      w_store := snd (acquire r (w_store w)), w_guards := w_guards w @ [fst (acquire r (w_store w))]\<rparr>"
    by (simp add: chosen(3))
  show ?thesis
    unfolding step
  proof (rule wf_worldI, goal_cases)
    case 1
    then show ?case using wf(1) by (simp add: refs_ok_def acquire_eq)
  next
    case (2 g)
    then show ?case
      using wf(2) r by (auto simp: acquire_eq intro: guard_ok_update) (simp add: guard_ok_def acquire_eq)
  next
    case (3 r')
    then show ?case using wf(3) by (simp add: acquire_eq nth_list_update_if)
  next
    case (4 r')
    then show ?case using wf(4)[of r'] by (simp add: acquire_eq nth_list_update_if)
  qed
qed

lemma wf_drop_guard:
  assumes "wf_world w"
  shows "wf_world (lb_step (Drop_guard i) w)"
proof (cases "i < length (w_guards w)")
  case True
  note wf = wf_worldD[OF assms]
  have sub: "g \<in> set (w_guards w)" if "g \<in> set (remove_nth i (w_guards w))" for g
    using that set_remove_nth_subset[of i "w_guards w"] by auto
  show ?thesis
  proof (rule wf_worldI, goal_cases)
    case 1
    then show ?case using wf(1) True by (simp add: refs_ok_def drop_guard_eq)
  next
    case (2 g)
    then show ?case using wf(2) sub True by (auto simp: drop_guard_eq intro: guard_ok_update)
  next
    case (3 r')
    then show ?case using wf(3) True by (simp add: drop_guard_eq nth_list_update_if)
  next
    case (4 r')
    then show ?case
      using wf(4)[of r'] True count_by_remove_nth[OF True, of g_counter r']
      by (auto simp: drop_guard_eq nth_list_update_if)
  qed
qed (simp add: assms)

lemma open_on_fresh:
  assumes "wf_world w" "length (heap w) \<le> r"
  shows "open_on w r = 0"
proof -
  have "r \<notin> g_counter ` set (w_guards w)"
    using wf_worldD(2)[OF assms(1)] assms(2) by (fastforce simp: guard_ok_def)
  then show ?thesis using count_by_pos_iff[of g_counter r "w_guards w"] by simp
qed

lemma update_backends_eq [heap_simps]:
  "update_backends lb cs s =
     (lb\<lparr>lb_backends := fst (update_loop (lb_rule_name lb) (lb_backends lb) cs s)\<rparr>,
      snd (update_loop (lb_rule_name lb) (lb_backends lb) cs s))"
  by (simp add: update_backends_def split_beta Let_def)

lemma wf_update_backends:
  assumes "wf_world w"
  shows "wf_world (lb_step (Update_backends cs) w)"
proof -
  note wf = wf_worldD[OF assms]
  let ?lb = "w_lb w" and ?u = "update_loop (lb_rule_name (w_lb w)) (lb_backends (w_lb w)) cs (w_store w)"
  note rec = update_loop_reconfigured[of "lb_rule_name ?lb" "w_store w" "lb_backends ?lb" cs]
  have "refs_ok (fst ?u) (st_heap (snd ?u))"
    using update_loop_nth[OF wf(1), of _ cs "lb_rule_name ?lb"]
    by (auto simp: refs_ok_def in_set_conv_nth update_loop_length)
  then show ?thesis
  proof (intro wf_worldI, goal_cases)
    case (2 g)
    then show ?case
      using wf(2)[of g] rec
      by (auto simp: update_backends_eq guard_ok_def reconfigured_keeps dest: reconfigured_length)
  next
    case (3 r)
    then show ?case
      using wf(3)[of r] reconfigured_keeps[OF rec, of r] reconfigured_new[OF rec, of r]
      by (cases "r < length (heap w)") (simp_all add: update_backends_eq)
  next
    case (4 r)
    then show ?case
      using wf(4)[of r] reconfigured_keeps[OF rec, of r] reconfigured_new[OF rec, of r]
        open_on_fresh[OF assms, of r]
      by (cases "r < length (heap w)") (simp_all add: update_backends_eq)
  qed (simp add: update_backends_eq)
qed

lemma wf_set_backend_health:
  assumes "wf_world w"
  shows "wf_world (lb_step (Set_backend_health a h) w)"
  using assms
  by (auto simp: wf_world_def heap_simps refs_ok_def nth_list_update_if guard_ok_update
        split: option.split)

lemma wf_lb_step: "wf_world w \<Longrightarrow> wf_world (lb_step e w)"
  by (cases e) (simp_all only: wf_next_backend wf_drop_guard wf_update_backends wf_set_backend_health)

lemma wf_init_world: "wf_world (init_world rule configs limit)"
  by (auto simp: wf_world_def init_world_def new_lb_def split_beta Let_def new_backends_eq refs_ok_def
        fresh_backend_def)

text \<open>The balancer as a counted system: the counter of a backend tracks its open connections.\<close>

definition lb_moves :: "world \<Rightarrow> world \<Rightarrow> bool" where
  "lb_moves w w' \<longleftrightarrow> (\<exists>e. w' = lb_step e w)"

lemma lb_moves_run: "lb_moves\<^sup>*\<^sup>* w (fold lb_step es w)"
proof (induction es rule: rev_induct)
  case (snoc e es)
  then show ?case by (auto simp: lb_moves_def intro: rtranclp.rtrancl_into_rtrancl)
qed simp

interpretation lbs: counted_system lb_moves wf_world
  "\<lambda>w r. b_active_connections (heap w ! r)" open_on "\<lambda>w r. r < length (heap w)"
proof unfold_locales
  show "wf_world w'" if "lb_moves w w'" "wf_world w" for w w'
    using that wf_lb_step by (auto simp: lb_moves_def)
  show "b_active_connections (heap w ! r) = of_nat (open_on w r)" if "wf_world w" "r < length (heap w)" for w r
    using that by (rule wf_worldD(4))
qed

lemma wf_run: "wf_world (fold lb_step es (init_world rule configs limit))"
  using lbs.steps_inv[OF lb_moves_run wf_init_world] .

section \<open>Metric calls\<close>

text \<open>Every operation calls the metric families with the kind and the number of labels they are registered with.\<close>

lemma op_ok_init_backend: "list_all op_ok (st_metrics s) \<Longrightarrow> list_all op_ok (st_metrics (snd (init_backend rule a d s)))"
  by (simp add: init_backend_eq)

lemma op_ok_new_backends: "list_all op_ok (st_metrics s) \<Longrightarrow> list_all op_ok (st_metrics (snd (new_backends rule cs s)))"
  by (induction cs arbitrary: s) (simp_all add: split_beta Let_def op_ok_init_backend)

lemma op_ok_update_loop: "list_all op_ok (st_metrics s) \<Longrightarrow> list_all op_ok (st_metrics (snd (update_loop rule cur cs s)))"
proof (induction cs arbitrary: s)
  case (Cons c cs)
  have "list_all op_ok (st_metrics (snd (update_one rule cur c s)))"
    using Cons.prems op_ok_init_backend by (simp add: update_one_def split_beta Let_def split: option.split)
  then show ?case using Cons.IH by (simp add: split_beta Let_def)
qed simp

lemma op_ok_step:
  assumes "list_all op_ok (st_metrics (w_store w))"
  shows "list_all op_ok (st_metrics (w_store (lb_step e w)))"
proof (cases e)
  case Next_backend
  show ?thesis
    by (cases rule: next_backend_cases[of "w_lb w" "w_store w"])
       (use assms in \<open>simp_all add: Next_backend heap_simps split_beta split: option.split\<close>)
qed (use assms in \<open>simp_all add: heap_simps op_ok_update_loop\<close>)

lemma op_ok_run: "list_all op_ok (st_metrics (w_store (fold lb_step es (init_world rule configs limit))))"
proof (induction es rule: rev_induct)
  case Nil
  show ?case by (simp add: init_world_def new_lb_def split_beta Let_def op_ok_new_backends)
qed (simp add: op_ok_step del: lb_step.simps)

section \<open>Counters and the connection limit\<close>

text \<open>
  C1. After any sequence of selections, closed connections, reconfigurations and health updates,
  the \<open>active_connections\<close> counter of every backend ever created is the number of connections that
  are open on it, also for a backend that has been removed from the list.
\<close>

theorem counters_track_open_connections:
  assumes "w = fold lb_step es (init_world rule configs limit)"
    and "r < length (heap w)" "open_on w r < 2 ^ 64"
  shows "unat (b_active_connections (heap w ! r)) = open_on w r"
  unfolding assms(1)
  by (rule lbs.counter_exact[OF lb_moves_run wf_init_world]) (use assms in simp_all)

theorem counters_track_open_connections_witness:
  "let w = fold lb_step [Next_backend, Next_backend, Drop_guard 0, Update_backends []]
             (init_world ''app'' [Simple ''a''] None)
   in 0 < length (heap w) \<and> open_on w 0 < 2 ^ 64 \<and> unat (b_active_connections (heap w ! 0)) = open_on w 0 \<and>
      open_on w 0 = 1"
proof -
  let ?w = "fold lb_step [Next_backend, Next_backend, Drop_guard 0, Update_backends []]
             (init_world ''app'' [Simple ''a''] None)"
  have l: "0 < length (heap ?w)" by code_simp
  have one: "open_on ?w 0 = 1" by code_simp
  then have "open_on ?w 0 < 2 ^ 64" by simp
  with counters_track_open_connections[OF refl l] l one show ?thesis by (simp add: Let_def del: fold_simps)
qed

lemma lb_step_limit: "lb_connection_limit (w_lb (lb_step e w)) = lb_connection_limit (w_lb w)"
proof (cases e)
  case Next_backend
  show ?thesis
    by (cases rule: next_backend_cases[of "w_lb w" "w_store w"])
       (simp_all add: Next_backend split_beta split: option.split)
qed (simp_all add: update_backends_eq)

definition within_limit :: "usize \<Rightarrow> world \<Rightarrow> bool" where
  "within_limit l w \<longleftrightarrow> wf_world w \<and> lb_connection_limit (w_lb w) = Some l \<and> (\<forall>r. open_on w r \<le> unat l)"

lemma within_limit_next_backend:
  assumes "within_limit l w"
  shows "open_on (lb_step Next_backend w) r \<le> unat l"
proof (cases rule: next_backend_cases[of "w_lb w" "w_store w"])
  case none
  then show ?thesis using assms by (simp add: within_limit_def split_beta split: option.split)
next
  case (chosen r')
  have wf: "wf_world w" and le: "open_on w r \<le> unat l" "open_on w r' \<le> unat l"
    using assms by (simp_all add: within_limit_def)
  have "r' < length (heap w)" using wf_worldD(1)[OF wf] chosen(1) by auto
  then have "of_nat (open_on w r') < l"
    using chosen(2) assms wf_worldD(4)[OF wf] by (simp add: available_def within_limit_def split: if_splits)
  moreover have "open_on w r' < 2 ^ 64" using le(2) unat_less_2p[of l] by simp
  ultimately have "open_on w r' < unat l" by (simp add: word_less_nat_alt unat_of_nat_small)
  then show ?thesis using le(1) by (auto simp: chosen(3) acquire_eq)
qed

lemma within_limit_step:
  assumes "within_limit l w"
  shows "within_limit l (lb_step e w)"
proof -
  have "open_on (lb_step e w) r \<le> unat l" for r
  proof (cases e)
    case Next_backend
    then show ?thesis using within_limit_next_backend[OF assms] by simp
  next
    case (Drop_guard i)
    then show ?thesis
      using assms order_trans[OF count_by_remove_nth_le[of g_counter r i "w_guards w"]]
      by (simp add: within_limit_def)
  qed (use assms in \<open>simp_all add: within_limit_def update_backends_eq\<close>)
  then show ?thesis
    using assms by (simp add: within_limit_def lb_step_limit wf_lb_step del: lb_step.simps)
qed

interpretation lim: invariant_system lb_moves "within_limit l" for l
  by unfold_locales (auto simp: lb_moves_def within_limit_step)

lemma limit_run:
  "open_on (fold lb_step es (init_world rule configs (Some l))) r \<le> unat l"
proof -
  have "within_limit l (init_world rule configs (Some l))"
    using wf_init_world[of rule configs "Some l"]
    by (simp add: within_limit_def init_world_def new_lb_def split_beta Let_def)
  from lim.steps_inv[OF lb_moves_run this] show ?thesis by (simp add: within_limit_def)
qed

text \<open>
  C2. With a configured \<open>backend_connection_limit\<close>, no backend ever has more open connections than
  the limit when selections happen one at a time.
\<close>

theorem connection_limit_respected:
  "open_on (fold lb_step es (init_world rule configs (Some l))) r \<le> unat l"
  by (rule limit_run)

section \<open>Round robin\<close>

text \<open>
  C3. Unless the rotating index is about to wrap, \<open>next_backend\<close> selects the first available backend
  (not draining, healthy, below the limit) of the list read once around from that index, and
  selects none exactly when no backend is available.
\<close>

theorem next_backend_first_available:
  assumes "unat (lb_current lb) + length (lb_backends lb) \<le> 2 ^ 64"
  shows "map_option (g_counter \<circ> snd) (fst (next_backend lb s)) =
      find (\<lambda>r. available (lb_connection_limit lb) (st_heap s ! r)) (rotate (unat (lb_current lb)) (lb_backends lb))
    \<and> (fst (next_backend lb s) = None \<longleftrightarrow>
      (\<forall>r \<in> set (lb_backends lb). \<not> available (lb_connection_limit lb) (st_heap s ! r)))"
proof -
  have sel: "map_option (g_counter \<circ> snd) (fst (next_backend lb s)) =
      find (\<lambda>r. available (lb_connection_limit lb) (st_heap s ! r)) (rotate (unat (lb_current lb)) (lb_backends lb))"
    using scan_rotate[OF assms, of "lb_connection_limit lb" s]
    by (auto simp: next_backend_def split_beta Let_def acquire_eq split: option.split)
  moreover have "fst (next_backend lb s) = None \<longleftrightarrow>
      (\<forall>r \<in> set (lb_backends lb). \<not> available (lb_connection_limit lb) (st_heap s ! r))"
    using arg_cong[OF sel, of "\<lambda>x. x = None"] by (auto simp: find_None_iff)
  ultimately show ?thesis ..
qed

theorem next_backend_first_available_witness:
  "let w = init_world ''app'' [Detailed ''a'' True, Simple ''b''] None; lb = w_lb w
   in unat (lb_current lb) + length (lb_backends lb) \<le> 2 ^ 64 \<and>
      map_option (g_counter \<circ> snd) (fst (next_backend lb (w_store w))) = Some 1"
proof -
  let ?w = "init_world ''app'' [Detailed ''a'' True, Simple ''b''] None"
  have "unat (lb_current (w_lb ?w)) = 0" "length (lb_backends (w_lb ?w)) = 2" by code_simp+
  then have h: "unat (lb_current (w_lb ?w)) + length (lb_backends (w_lb ?w)) \<le> 2 ^ 64" by simp
  have "find (\<lambda>r. available (lb_connection_limit (w_lb ?w)) (heap ?w ! r))
      (rotate (unat (lb_current (w_lb ?w))) (lb_backends (w_lb ?w))) = Some 1" by code_simp
  with next_backend_first_available[OF h, of "w_store ?w"] h show ?thesis by (simp add: Let_def)
qed

text \<open>
  C9. Whatever the index, a selected backend is one of the list, was not draining, was healthy and was
  below the limit; the call returns its address, counts one connection on it and changes no other
  backend.
\<close>

theorem next_backend_sound:
  assumes "next_backend lb s = (Some (a, g), lb', s')" "refs_ok (lb_backends lb) (st_heap s)"
  shows "g_counter g \<in> set (lb_backends lb) \<and>
    (let b = st_heap s ! g_counter g
     in a = b_addr b \<and> g_backend_addr g = a \<and> \<not> b_drain b \<and> b_healthy b \<and>
        (\<forall>l. lb_connection_limit lb = Some l \<longrightarrow> b_active_connections b < l) \<and>
        st_heap s' = (st_heap s)[g_counter g := b\<lparr>b_active_connections := b_active_connections b + 1\<rparr>]) \<and>
    lb' = lb\<lparr>lb_current := lb_current lb + 1\<rparr>"
proof (cases rule: next_backend_cases[of lb s])
  case none
  then show ?thesis using assms by simp
next
  case (chosen r)
  then show ?thesis
    using assms(1) by (auto simp: acquire_eq available_def split: if_splits)
qed

theorem next_backend_sound_witness:
  "let w = init_world ''app'' [Detailed ''a'' True, Simple ''b''] (Some 5)
   in refs_ok (lb_backends (w_lb w)) (heap w) \<and>
      (\<exists>g lb' s'. next_backend (w_lb w) (w_store w) = (Some (''b'', g), lb', s') \<and> g_counter g \<in> set (lb_backends (w_lb w)))"
proof -
  let ?w = "init_world ''app'' [Detailed ''a'' True, Simple ''b''] (Some 5)"
  have ok: "refs_ok (lb_backends (w_lb ?w)) (heap ?w)" by (rule wf_worldD(1)[OF wf_init_world])
  have "map_option fst (fst (next_backend (w_lb ?w) (w_store ?w))) = Some ''b''" by code_simp
  then obtain g lb' s' where nb: "next_backend (w_lb ?w) (w_store ?w) = (Some (''b'', g), lb', s')"
    by (cases "next_backend (w_lb ?w) (w_store ?w)") auto
  from next_backend_sound[OF nb ok] ok nb show ?thesis by (auto simp: Let_def)
qed

subsection \<open>Fairness\<close>

text \<open>The backends that a number of selections in a row yield.\<close>

fun picks :: "nat \<Rightarrow> LoadBalancer \<Rightarrow> store \<Rightarrow> backend_ref option list" where
  "picks 0 lb s = []"
| "picks (Suc m) lb s =
     (case next_backend lb s of (res, lb', s') \<Rightarrow> map_option (g_counter \<circ> snd) res # picks m lb' s')"

definition all_up :: "LoadBalancer \<Rightarrow> store \<Rightarrow> bool" where
  "all_up lb s \<longleftrightarrow> lb_backends lb \<noteq> [] \<and> lb_connection_limit lb = None \<and> refs_ok (lb_backends lb) (st_heap s) \<and>
     (\<forall>r \<in> set (lb_backends lb). \<not> b_drain (st_heap s ! r) \<and> b_healthy (st_heap s ! r))"

lemma next_backend_all_up:
  assumes "all_up lb s" "unat (lb_current lb) + length (lb_backends lb) \<le> 2 ^ 64"
  defines "r \<equiv> lb_backends lb ! (unat (lb_current lb) mod length (lb_backends lb))"
  shows "next_backend lb s = (Some (b_addr (st_heap s ! r), fst (acquire r s)),
         lb\<lparr>lb_current := lb_current lb + 1\<rparr>, snd (acquire r s))"
    and "all_up (lb\<lparr>lb_current := lb_current lb + 1\<rparr>) (snd (acquire r s))"
proof -
  have ne: "lb_backends lb \<noteq> []" using assms(1) by (simp add: all_up_def)
  have hd: "hd (rotate (unat (lb_current lb)) (lb_backends lb)) = r"
    using ne by (simp add: r_def hd_rotate_conv_nth)
  have "r \<in> set (lb_backends lb)" using ne by (simp add: r_def)
  then have "available None (st_heap s ! r)" using assms(1) by (simp add: all_up_def available_def)
  then have "find (\<lambda>r. available None (st_heap s ! r)) (rotate (unat (lb_current lb)) (lb_backends lb)) = Some r"
    using ne hd by (cases "rotate (unat (lb_current lb)) (lb_backends lb)") auto
  then show "next_backend lb s = (Some (b_addr (st_heap s ! r), fst (acquire r s)),
         lb\<lparr>lb_current := lb_current lb + 1\<rparr>, snd (acquire r s))"
    using assms(1) scan_rotate[OF assms(2), of None s] by (simp add: next_backend_def all_up_def split_beta)
  show "all_up (lb\<lparr>lb_current := lb_current lb + 1\<rparr>) (snd (acquire r s))"
    using assms(1) by (auto simp: all_up_def acquire_eq refs_ok_def nth_list_update_if)
qed

lemma picks_all_up:
  assumes "all_up lb s" "unat (lb_current lb) + m + length (lb_backends lb) \<le> 2 ^ 64"
  shows "picks m lb s =
    map (\<lambda>j. Some (lb_backends lb ! ((unat (lb_current lb) + j) mod length (lb_backends lb)))) [0..<m]"
  using assms
proof (induction m arbitrary: lb s)
  case (Suc m)
  let ?lb' = "lb\<lparr>lb_current := lb_current lb + 1\<rparr>"
  have nw: "unat (lb_current lb) + length (lb_backends lb) \<le> 2 ^ 64" using Suc.prems(2) by simp
  have "lb_backends lb \<noteq> []" using Suc.prems(1) by (simp add: all_up_def)
  then have "unat (lb_current lb) + 1 < 2 ^ 64"
    using Suc.prems(2) by (cases "lb_backends lb") auto
  then have cur: "unat (lb_current lb + 1) = Suc (unat (lb_current lb))"
    by (simp add: unat_word_ariths)
  note nb = next_backend_all_up[OF Suc.prems(1) nw]
  have "unat (lb_current ?lb') + m + length (lb_backends ?lb') \<le> 2 ^ 64"
    using Suc.prems(2) by (simp add: cur)
  note tail = Suc.IH[OF nb(2) this, simplified, unfolded cur add_Suc_shift]
  show ?case
    unfolding picks.simps nb(1) prod.case tail map_upt_Suc by (simp add: acquire_eq)
qed simp

lemma count_list_full_rounds:
  assumes "distinct xs" "x \<in> set xs"
  shows "count_list (map (\<lambda>j. xs ! ((c + j) mod length xs)) [0..<k * length xs]) x = k"
proof (induction k)
  case (Suc k)
  let ?n = "length xs"
  have "[0..<Suc k * ?n] = [0..<k * ?n] @ [k * ?n..<k * ?n + ?n]"
    using upt_add_eq_append[of 0 "k * ?n" ?n] by (simp only: mult_Suc add.commute[of ?n] le0)
  moreover have "map (\<lambda>j. xs ! ((c + j) mod ?n)) [k * ?n..<k * ?n + ?n] = rotate c xs"
  proof (intro nth_equalityI)
    fix j assume "j < length (map (\<lambda>j. xs ! ((c + j) mod ?n)) [k * ?n..<k * ?n + ?n])"
    then have j: "j < ?n" by simp
    have "c + (k * ?n + j) = c + j + k * ?n" by simp
    then have "(c + (k * ?n + j)) mod ?n = (c + j) mod ?n" by (simp only: mod_mult_self1)
    then show "map (\<lambda>j. xs ! ((c + j) mod ?n)) [k * ?n..<k * ?n + ?n] ! j = rotate c xs ! j"
      using j by (simp add: nth_rotate)
  qed simp
  moreover have "count_list (rotate c xs) x = 1"
    using assms by (simp add: count_list_eq_length_filter distinct_length_filter)
  ultimately show ?case using Suc by (simp only: map_append count_list_append)
qed simp

text \<open>
  C10. Fairness: with every backend up and no connection limit, any number \<open>k\<close> of rounds of
  selections gives each backend exactly \<open>k\<close> connections (while the rotating index does not wrap).
\<close>

theorem round_robin_fair:
  assumes "all_up lb s" "distinct (lb_backends lb)" "r \<in> set (lb_backends lb)"
    and "unat (lb_current lb) + k * length (lb_backends lb) + length (lb_backends lb) \<le> 2 ^ 64"
  shows "count_list (picks (k * length (lb_backends lb)) lb s) (Some r) = k"
proof -
  let ?xs = "lb_backends lb"
  have "picks (k * length ?xs) lb s = map Some (map (\<lambda>j. ?xs ! ((unat (lb_current lb) + j) mod length ?xs)) [0..<k * length ?xs])"
    using picks_all_up[OF assms(1), of "k * length ?xs"] assms(4) by simp
  then show ?thesis
    using count_list_full_rounds[OF assms(2,3)] by (simp only: count_list_map_Some)
qed

theorem round_robin_fair_witness:
  "let w = init_world ''app'' [Simple ''a'', Simple ''b''] None; lb = w_lb w; s = w_store w
   in all_up lb s \<and> distinct (lb_backends lb) \<and> 1 \<in> set (lb_backends lb) \<and>
      count_list (picks (3 * length (lb_backends lb)) lb s) (Some 1) = 3"
proof -
  let ?w = "init_world ''app'' [Simple ''a'', Simple ''b''] None"
  have up: "all_up (w_lb ?w) (w_store ?w)" and d: "distinct (lb_backends (w_lb ?w))"
    and m: "1 \<in> set (lb_backends (w_lb ?w))"
    and len: "length (lb_backends (w_lb ?w)) = 2" and c: "unat (lb_current (w_lb ?w)) = 0"
    unfolding all_up_def refs_ok_def by code_simp+
  have "unat (lb_current (w_lb ?w)) + 3 * length (lb_backends (w_lb ?w)) + length (lb_backends (w_lb ?w)) \<le> 2 ^ 64"
    unfolding len c by simp
  from round_robin_fair[OF up d m this] up d m show ?thesis by (simp add: Let_def)
qed

section \<open>Reconfiguration\<close>

text \<open>
  C11. \<open>update_backends\<close> makes the list the configured one, in the configured order: an address that
  was listed keeps its object, so its counter and health survive, and takes the configured drain
  flag; any other address gets a new, idle and healthy backend.
\<close>

theorem update_backends_reconciles:
  assumes "refs_ok (lb_backends lb) (st_heap s)" "update_backends lb cs s = (lb', s')" "i < length cs"
  shows "length (lb_backends lb') = length cs \<and>
    (let r' = lb_backends lb' ! i; b' = st_heap s' ! r'
     in r' < length (st_heap s') \<and> b_addr b' = addrs cs ! i \<and>
        (distinct (addrs cs) \<longrightarrow> b_drain b' = snd (backend_entry (cs ! i))) \<and>
        (case find_backend (addrs cs ! i) (lb_backends lb) s of
           Some r \<Rightarrow> r' = r \<and> b_active_connections b' = b_active_connections (st_heap s ! r) \<and>
             b_healthy b' = b_healthy (st_heap s ! r)
         | None \<Rightarrow> length (st_heap s) \<le> r' \<and> b_active_connections b' = 0 \<and> b_healthy b'))"
proof -
  let ?u = "update_loop (lb_rule_name lb) (lb_backends lb) cs s"
  have eqs: "lb_backends lb' = fst ?u" "s' = snd ?u"
    using assms(2) by (auto simp: update_backends_eq)
  note rec = update_loop_reconfigured[of "lb_rule_name lb" s "lb_backends lb" cs]
  note nth = update_loop_nth[OF assms(1,3), of "lb_rule_name lb"]
  show ?thesis
  proof (cases "find_backend (addrs cs ! i) (lb_backends lb) s")
    case None
    then show ?thesis
      using nth reconfigured_new[OF rec] by (simp add: eqs update_loop_length Let_def)
  next
    case (Some r)
    have r: "r < length (st_heap s)" using find_backend_SomeD[OF Some] assms(1) by auto
    have r': "fst ?u ! i = r" using nth Some by simp
    show ?thesis
      using nth reconfigured_keeps(3,4)[OF rec r] unfolding eqs r'
      by (simp add: Some update_loop_length r')
  qed
qed

theorem update_backends_reconciles_witness:
  "let w = lb_step Next_backend (init_world ''app'' [Simple ''a''] None);
       cs = [Simple ''b'', Detailed ''a'' True];
       (lb', s') = update_backends (w_lb w) cs (w_store w)
   in refs_ok (lb_backends (w_lb w)) (heap w) \<and> 1 < length cs \<and> length (lb_backends lb') = 2 \<and>
      b_active_connections (st_heap s' ! (lb_backends lb' ! 1)) = 1"
proof -
  let ?w = "lb_step Next_backend (init_world ''app'' [Simple ''a''] None)"
  let ?cs = "[Simple ''b'', Detailed ''a'' True]"
  obtain lb' s' where u: "update_backends (w_lb ?w) ?cs (w_store ?w) = (lb', s')"
    by (cases "update_backends (w_lb ?w) ?cs (w_store ?w)")
  have ok: "refs_ok (lb_backends (w_lb ?w)) (heap ?w)"
    by (rule wf_worldD(1)[OF wf_lb_step[OF wf_init_world]])
  have f: "find_backend (addrs ?cs ! 1) (lb_backends (w_lb ?w)) (w_store ?w) = Some 0"
    and b: "b_active_connections (heap ?w ! 0) = 1" by code_simp+
  have l: "1 < length ?cs" by simp
  from update_backends_reconciles[OF ok u l] ok show ?thesis
    unfolding f Let_def u prod.case option.case b by (auto simp del: lb_step.simps)
qed

text \<open>The list as a configuration would write it. Only \<open>update_backends\<close> changes it.\<close>

definition listing :: "world \<Rightarrow> (string \<times> bool) list" where
  "listing w = map (\<lambda>r. (b_addr (heap w ! r), b_drain (heap w ! r))) (lb_backends (w_lb w))"

lemma listing_updated:
  assumes "refs_ok (lb_backends (w_lb w)) (heap w)" "distinct (addrs cs)"
  shows "listing (lb_step (Update_backends cs) w) = map backend_entry cs"
proof (rule nth_equalityI)
  show "length (listing (lb_step (Update_backends cs) w)) = length (map backend_entry cs)"
    by (simp add: listing_def update_backends_eq update_loop_length)
next
  fix i assume "i < length (listing (lb_step (Update_backends cs) w))"
  then have i: "i < length cs" by (simp add: listing_def update_backends_eq update_loop_length)
  from update_loop_nth[OF assms(1) i, of "lb_rule_name (w_lb w)"] assms(2) i
  show "listing (lb_step (Update_backends cs) w) ! i = map backend_entry cs ! i"
    by (simp add: listing_def update_backends_eq update_loop_length)
qed

lemma listing_kept:
  assumes "\<And>cs. e \<noteq> Update_backends cs"
  shows "listing (lb_step e w) = listing w"
proof -
  have kept: "b_addr (h[r := b] ! x) = b_addr (h ! x)" "b_drain (h[r := b] ! x) = b_drain (h ! x)"
    if "b_addr b = b_addr (h ! r)" "b_drain b = b_drain (h ! r)" for h r b x
    using that by (cases "r < length h"; cases "x = r"; simp add: list_update_beyond)+
  show ?thesis
  proof (cases e)
    case Next_backend
    then show ?thesis
      by (cases rule: next_backend_cases[of "w_lb w" "w_store w"]) (auto simp: listing_def split_beta acquire_eq kept split: option.split)
  next
    case (Drop_guard i)
    then show ?thesis by (simp add: listing_def drop_guard_eq kept)
  next
    case (Set_backend_health a h)
    then show ?thesis by (simp add: listing_def set_backend_health_heap kept split: option.split)
  qed (use assms in simp)
qed

section \<open>Health\<close>

lemma find_backend_unique:
  assumes "inj_on (\<lambda>r. b_addr (st_heap s ! r)) (set refs)" "r \<in> set refs" "b_addr (st_heap s ! r) = a"
  shows "find_backend a refs s = Some r"
proof (cases "find_backend a refs s")
  case None
  then show ?thesis using assms(2,3) find_None_all by (fastforce simp: find_backend_def)
next
  case (Some r')
  then show ?thesis using find_backend_SomeD[OF Some] assms by (auto dest: inj_onD)
qed

text \<open>
  When no address is listed twice, \<open>set_backend_health\<close> sets the flag of exactly the backend
  with that address, and a backend just marked unhealthy is not selected.
\<close>

theorem set_backend_health_effect:
  assumes "inj_on (\<lambda>r. b_addr (st_heap s ! r)) (set (lb_backends lb))" "refs_ok (lb_backends lb) (st_heap s)"
    and "s' = set_backend_health lb a h s"
  shows "(\<forall>r \<in> set (lb_backends lb). st_heap s' ! r =
      (if b_addr (st_heap s ! r) = a then (st_heap s ! r)\<lparr>b_healthy := h\<rparr> else st_heap s ! r)) \<and>
    (\<not> h \<longrightarrow> (\<forall>b g. fst (next_backend lb s') = Some (b, g) \<longrightarrow> b \<noteq> a))"
proof -
  have heap: "st_heap s' ! r =
      (if b_addr (st_heap s ! r) = a then (st_heap s ! r)\<lparr>b_healthy := h\<rparr> else st_heap s ! r)"
    if r: "r \<in> set (lb_backends lb)" for r
  proof (cases "b_addr (st_heap s ! r) = a")
    case True
    then show ?thesis
      using find_backend_unique[OF assms(1) r True] r assms(2)
      by (auto simp: assms(3) set_backend_health_heap)
  next
    case False
    then show ?thesis
      using find_backend_SomeD[of a "lb_backends lb" s] refs_okD[OF assms(2) r]
      by (auto simp: assms(3) set_backend_health_heap nth_list_update_if split: option.split)
  qed
  moreover have "b \<noteq> a" if "\<not> h" "fst (next_backend lb s') = Some (b, g)" for b g
  proof (cases rule: next_backend_cases[of lb s'])
    case none
    then show ?thesis using that by simp
  next
    case (chosen r)
    then show ?thesis
      using that heap[OF chosen(1)] by (auto simp: available_def split: if_splits)
  qed
  ultimately show ?thesis by blast
qed

theorem set_backend_health_effect_witness:
  "let w = init_world ''app'' [Simple ''a'', Simple ''b''] None; s' = set_backend_health (w_lb w) ''a'' False (w_store w)
   in inj_on (\<lambda>r. b_addr (heap w ! r)) (set (lb_backends (w_lb w))) \<and> refs_ok (lb_backends (w_lb w)) (heap w) \<and>
      map_option fst (fst (next_backend (w_lb w) s')) = Some ''b'' \<and> \<not> b_healthy (st_heap s' ! 0)"
proof -
  let ?w = "init_world ''app'' [Simple ''a'', Simple ''b''] None"
  have refs: "lb_backends (w_lb ?w) = [0, 1]" and addrs: "b_addr (heap ?w ! 0) = ''a''" "b_addr (heap ?w ! 1) = ''b''"
    by code_simp+
  have inj: "inj_on (\<lambda>r. b_addr (heap ?w ! r)) (set (lb_backends (w_lb ?w)))"
    by (simp add: refs inj_on_def addrs[simplified])
  have ok: "refs_ok (lb_backends (w_lb ?w)) (heap ?w)" by (rule wf_worldD(1)[OF wf_init_world])
  have sel: "map_option fst (fst (next_backend (w_lb ?w) (set_backend_health (w_lb ?w) ''a'' False (w_store ?w)))) = Some ''b''"
    by code_simp
  from set_backend_health_effect[OF inj ok refl, of "''a''" False] inj ok sel show ?thesis
    by (simp add: Let_def refs addrs)
qed

text \<open>
  The health flag of a backend that is listed a second time is never updated: \<open>find\<close> stops at
  the first entry with the address, and nothing rejects a configuration that repeats one. The
  address stays in rotation after its check has failed.
\<close>

theorem duplicate_backend_stays_in_rotation:
  "let w = lb_step (Set_backend_health ''10.0.0.1:80'' False)
             (init_world ''app'' [Simple ''10.0.0.1:80'', Simple ''10.0.0.1:80''] None)
   in map_option fst (fst (next_backend (w_lb w) (w_store w))) = Some ''10.0.0.1:80''"
  by code_simp

section \<open>The connection gauge\<close>

abbreviation conn_gauge :: "world \<Rightarrow> string \<Rightarrow> rat" where
  "conn_gauge w a \<equiv> gauge_reading BACKEND_ACTIVE_CONNECTIONS [lb_rule_name (w_lb w), a] (st_metrics (w_store w))"

abbreviation open_to :: "world \<Rightarrow> string \<Rightarrow> nat" where
  "open_to w a \<equiv> count_by g_backend_addr a (w_guards w)"

text \<open>
  A reconfiguration is safe when no address it adds has connections open from an earlier time it
  was listed.
\<close>

definition event_safe :: "world \<Rightarrow> lb_event \<Rightarrow> bool" where
  "event_safe w e =
     (case e of
        Update_backends cs \<Rightarrow>
          \<forall>a \<in> set (addrs cs). find_backend a (lb_backends (w_lb w)) (w_store w) = None \<longrightarrow> open_to w a = 0
      | _ \<Rightarrow> True)"

fun safe_run :: "lb_event list \<Rightarrow> world \<Rightarrow> bool" where
  "safe_run [] w = True"
| "safe_run (e # es) w = (event_safe w e \<and> safe_run es (lb_step e w))"

definition gauge_ok :: "world \<Rightarrow> bool" where
  "gauge_ok w \<longleftrightarrow> wf_world w \<and> (\<forall>a. conn_gauge w a = of_nat (open_to w a))"

lemma lb_step_rule_name: "lb_rule_name (w_lb (lb_step e w)) = lb_rule_name (w_lb w)"
proof (cases e)
  case Next_backend
  show ?thesis
    by (cases rule: next_backend_cases[of "w_lb w" "w_store w"])
       (simp_all add: Next_backend split_beta split: option.split)
qed (simp_all add: update_backends_eq)

lemma new_backends_gauge:
  "gauge_reading BACKEND_ACTIVE_CONNECTIONS [rule, a] (st_metrics s) = 0 \<Longrightarrow>
   gauge_reading BACKEND_ACTIVE_CONNECTIONS [rule, a] (st_metrics (snd (new_backends rule cs s))) = 0"
  by (induction cs arbitrary: s)
     (auto simp: split_beta Let_def init_backend_eq gauge_reading_append)

lemma update_one_gauge:
  assumes "find_backend (fst (backend_entry c)) cur s = None \<longrightarrow> fst (backend_entry c) = a \<longrightarrow> x = 0"
    and "gauge_reading BACKEND_ACTIVE_CONNECTIONS [rule, a] (st_metrics s) = x"
  shows "gauge_reading BACKEND_ACTIVE_CONNECTIONS [rule, a] (st_metrics (snd (update_one rule cur c s))) = x"
  using assms
  by (auto simp: update_one_def split_beta Let_def init_backend_eq gauge_reading_append split: option.split)

lemma update_loop_gauge:
  assumes "refs_ok cur (st_heap s)"
    and "\<forall>b \<in> set (addrs cs). find_backend b cur s = None \<longrightarrow> b = a \<longrightarrow> x = 0"
    and "gauge_reading BACKEND_ACTIVE_CONNECTIONS [rule, a] (st_metrics s) = x"
  shows "gauge_reading BACKEND_ACTIVE_CONNECTIONS [rule, a] (st_metrics (snd (update_loop rule cur cs s))) = x"
  using assms
proof (induction cs arbitrary: s)
  case (Cons c cs)
  have "gauge_reading BACKEND_ACTIVE_CONNECTIONS [rule, a] (st_metrics (snd (update_one rule cur c s))) = x"
    using Cons.prems(2,3) by (intro update_one_gauge) auto
  then show ?case
    using Cons.IH[OF update_one_refs_ok[OF Cons.prems(1), of rule c]] Cons.prems(1,2)
    by (auto simp: split_beta Let_def update_one_find_backend)
qed simp

lemma gauge_ok_next_backend:
  assumes "gauge_ok w"
  shows "gauge_ok (lb_step Next_backend w)"
proof (cases rule: next_backend_cases[of "w_lb w" "w_store w"])
  case none
  then show ?thesis
    using assms wf_next_backend[of w] by (simp add: gauge_ok_def split_beta split: option.splits)
next
  case (chosen r)
  have wf: "wf_world w" using assms by (simp add: gauge_ok_def)
  have "b_rule_name (heap w ! r) = lb_rule_name (w_lb w)"
    using wf_worldD(1,3)[OF wf] chosen(1) by auto
  then show ?thesis
    using assms wf_next_backend[OF wf]
    by (auto simp: gauge_ok_def chosen(3) acquire_eq)
qed

lemma gauge_ok_drop_guard:
  assumes "gauge_ok w"
  shows "gauge_ok (lb_step (Drop_guard i) w)"
proof (cases "i < length (w_guards w)")
  case True
  let ?g = "w_guards w ! i"
  have wf: "wf_world w" using assms by (simp add: gauge_ok_def)
  have "g_rule_name ?g = lb_rule_name (w_lb w)"
    using wf_worldD(2,3)[OF wf] True by (simp add: guard_ok_def)
  moreover have "(of_nat (open_to w a) :: rat) =
      of_nat (count_by g_backend_addr a (remove_nth i (w_guards w))) + (if g_backend_addr ?g = a then 1 else 0)" for a
    using count_by_remove_nth[OF True, of g_backend_addr a] by simp
  ultimately show ?thesis
    using assms wf_drop_guard[OF wf, of i] True by (auto simp: gauge_ok_def drop_guard_eq)
qed (simp add: assms)

lemma gauge_ok_step:
  assumes "gauge_ok w" "event_safe w e"
  shows "gauge_ok (lb_step e w)"
proof (cases e)
  case (Update_backends cs)
  have wf: "wf_world w" using assms by (simp add: gauge_ok_def)
  have "gauge_reading BACKEND_ACTIVE_CONNECTIONS [lb_rule_name (w_lb w), a]
      (st_metrics (snd (update_loop (lb_rule_name (w_lb w)) (lb_backends (w_lb w)) cs (w_store w)))) =
      of_nat (open_to w a)" for a
    using assms wf_worldD(1)[OF wf]
    by (intro update_loop_gauge) (auto simp: gauge_ok_def event_safe_def Update_backends)
  then show ?thesis
    using wf_update_backends[OF wf, of cs] by (simp add: gauge_ok_def Update_backends update_backends_eq)
next
  case (Set_backend_health a h)
  then show ?thesis
    using assms wf_set_backend_health[of w a h] by (simp add: gauge_ok_def set_backend_health_metrics)
qed (use assms gauge_ok_next_backend gauge_ok_drop_guard in simp_all)

lemma gauge_ok_run: "gauge_ok w \<Longrightarrow> safe_run es w \<Longrightarrow> gauge_ok (fold lb_step es w)"
  by (induction es arbitrary: w) (simp_all add: gauge_ok_step del: lb_step.simps)

lemma gauge_ok_init: "gauge_ok (init_world rule configs limit)"
  using wf_init_world[of rule configs limit]
  by (simp add: gauge_ok_def init_world_def new_lb_def split_beta Let_def new_backends_gauge)

text \<open>
  C31. As long as no reconfiguration adds back an address that still has connections open, the gauge
  \<open>l4lb_backend_active_connections\<close> of every address reads the number of open connections to it.
\<close>

theorem backend_gauge_exact:
  assumes "safe_run es (init_world rule configs limit)"
    and "w = fold lb_step es (init_world rule configs limit)"
  shows "conn_gauge w a = of_nat (open_to w a)"
  using gauge_ok_run[OF gauge_ok_init assms(1)] by (simp add: gauge_ok_def assms(2))

theorem backend_gauge_exact_witness:
  "let es = [Next_backend, Update_backends [Simple ''a'', Simple ''b''], Next_backend, Drop_guard 0];
       w = fold lb_step es (init_world ''app'' [Simple ''a''] None)
   in safe_run es (init_world ''app'' [Simple ''a''] None) \<and> conn_gauge w ''b'' = of_nat (open_to w ''b'') \<and>
      open_to w ''b'' = 1"
proof -
  let ?es = "[Next_backend, Update_backends [Simple ''a'', Simple ''b''], Next_backend, Drop_guard 0]"
  have s: "safe_run ?es (init_world ''app'' [Simple ''a''] None)" unfolding safe_run.simps event_safe_def by code_simp
  have "open_to (fold lb_step ?es (init_world ''app'' [Simple ''a''] None)) ''b'' = 1" by code_simp
  with backend_gauge_exact[OF s refl, of "''b''"] s show ?thesis
    by (simp only: Let_def simp_thms)
qed

text \<open>
  Removing a backend and adding its address back while a connection is open starts a second
  counter for the address: the limit of one connection admits a second one, the gauge reads one
  while two are open, and it falls to minus one when both have closed.
\<close>

theorem readded_backend_escapes_limit:
  "let w = fold lb_step [Next_backend, Update_backends [], Update_backends [Simple ''10.0.0.1:80''], Next_backend]
             (init_world ''app'' [Simple ''10.0.0.1:80''] (Some 1))
   in open_to w ''10.0.0.1:80'' = 2 \<and> conn_gauge w ''10.0.0.1:80'' = 1 \<and>
      conn_gauge (fold lb_step [Drop_guard 0, Drop_guard 0] w) ''10.0.0.1:80'' = - 1"
  by code_simp

text \<open>
  At the end of its range the rotating index wraps inside the scan. With three backends of which
  only the last is healthy, the probes from index \<open>2\<^sup>6\<^sup>4 - 1\<close> visit the first backend twice and the
  last never, and the connection is refused although a backend is available.
\<close>

theorem wrapping_index_skips_backend:
  "let w = fold lb_step [Set_backend_health ''a'' False, Set_backend_health ''b'' False]
             (init_world ''app'' [Simple ''a'', Simple ''b'', Simple ''c''] None);
       lb = (w_lb w)\<lparr>lb_current := - 1\<rparr>
   in available None (heap w ! 2) \<and> 2 \<in> set (lb_backends lb) \<and> fst (next_backend lb (w_store w)) = None"
  by (simp add: Let_def init_world_def new_lb_def init_backend_def alloc_def emit_def set_backend_health_def
      find_backend_def upd_backend_def next_backend_def available_def probe_index_def unsigned_minus_1_eq_mask mask_eq_exp_minus_1)

end
