(* ===== verification/Balancer_Tasks.thy ===== *)
theory Balancer_Tasks
  imports Connections
begin

text \<open>
  \<open>next_backend\<close> under concurrency. The acceptors spawn a task per connection, and the worker threads
  run \<open>next_backend\<close> at the same time on the same balancer. Here each call advances one atomic
  operation at a time (load of the list, \<open>fetch_add\<close> of the index, load of a drain flag, of a health
  flag, of a counter, \<open>fetch_add\<close> of a counter), in any interleaving with other calls, with closing
  connections and with the stores of reconfigurations and health checks. The operations are
  \<open>Relaxed\<close>; each theorem below is about the values of one atomic cell, whose updates are totally
  ordered whatever the memory ordering.
\<close>

section \<open>A call as a sequence of atomic operations\<close>

datatype call =
    Idle
  | Loaded "backend_ref list"
  | Probing "backend_ref list" usize nat
  | Not_draining "backend_ref list" usize nat
  | Is_healthy "backend_ref list" usize nat
  | Below_limit backend_ref
  | Counted backend_ref

record cstate =
  c_lb :: LoadBalancer
  c_store :: store
  c_guards :: "ConnectionGuard list"
  c_calls :: "call list"

definition set_call :: "nat \<Rightarrow> call \<Rightarrow> cstate \<Rightarrow> cstate" where
  "set_call k p s = s\<lparr>c_calls := (c_calls s)[k := p]\<rparr>"

text \<open>The backend a probe looks at.\<close>

definition probed :: "backend_ref list \<Rightarrow> usize \<Rightarrow> nat \<Rightarrow> backend_ref" where
  "probed refs start i = refs ! probe_index start (length refs) i"

text \<open>
  One atomic operation of call \<open>k\<close>. An idle slot starts a new call; a call that returns leaves its
  slot idle, and a call that returns a backend leaves its guard.
\<close>

fun call_step :: "nat \<Rightarrow> call \<Rightarrow> cstate \<Rightarrow> cstate" where
  "call_step k Idle s =
     (if lb_backends (c_lb s) = [] then s else set_call k (Loaded (lb_backends (c_lb s))) s)"
| "call_step k (Loaded refs) s =
     set_call k (Probing refs (lb_current (c_lb s)) 0)
       (s\<lparr>c_lb := (c_lb s)\<lparr>lb_current := lb_current (c_lb s) + 1\<rparr>\<rparr>)"
| "call_step k (Probing refs start i) s =
     (if length refs \<le> i then set_call k Idle s
      else if b_drain (st_heap (c_store s) ! probed refs start i) then set_call k (Probing refs start (Suc i)) s
      else set_call k (Not_draining refs start i) s)"
| "call_step k (Not_draining refs start i) s =
     (if \<not> b_healthy (st_heap (c_store s) ! probed refs start i) then set_call k (Probing refs start (Suc i)) s
      else set_call k (Is_healthy refs start i) s)"
| "call_step k (Is_healthy refs start i) s =
     (case lb_connection_limit (c_lb s) of
        Some limit \<Rightarrow>
          if limit \<le> b_active_connections (st_heap (c_store s) ! probed refs start i)
          then set_call k (Probing refs start (Suc i)) s
          else set_call k (Below_limit (probed refs start i)) s
      | None \<Rightarrow> set_call k (Below_limit (probed refs start i)) s)"
| "call_step k (Below_limit r) s =
     set_call k (Counted r)
       (s\<lparr>c_store := upd_backend r (\<lambda>b. b\<lparr>b_active_connections := b_active_connections b + 1\<rparr>) (c_store s)\<rparr>)"
| "call_step k (Counted r) s =
     (let b = st_heap (c_store s) ! r
      in set_call k Idle
           (s\<lparr>c_store := emit (GaugeInc BACKEND_ACTIVE_CONNECTIONS [b_rule_name b, b_addr b]) (c_store s),
              c_guards := c_guards s @ [\<lparr>g_rule_name = b_rule_name b, g_backend_addr = b_addr b, g_counter = r\<rparr>]\<rparr>))"

definition advance :: "nat \<Rightarrow> cstate \<Rightarrow> cstate" where
  "advance k s = (if k < length (c_calls s) then call_step k (c_calls s ! k) s else s)"

section \<open>All moves\<close>

text \<open>
  The other tasks: a connection closes; \<open>update_backends\<close> stores a drain flag, allocates a backend or
  swaps in a list of allocated backends; \<open>set_backend_health\<close> stores a health flag.
\<close>

inductive cmove :: "cstate \<Rightarrow> cstate \<Rightarrow> bool" where
  call: "cmove s (advance k s)"
| close: "i < length (c_guards s) \<Longrightarrow>
    cmove s (s\<lparr>c_store := drop_guard (c_guards s ! i) (c_store s), c_guards := remove_nth i (c_guards s)\<rparr>)"
| store_drain: "cmove s (s\<lparr>c_store := upd_backend r (\<lambda>b. b\<lparr>b_drain := d\<rparr>) (c_store s)\<rparr>)"
| store_health: "cmove s (s\<lparr>c_store := upd_backend r (\<lambda>b. b\<lparr>b_healthy := h\<rparr>) (c_store s)\<rparr>)"
| allocate: "cmove s (s\<lparr>c_store := snd (init_backend (lb_rule_name (c_lb s)) a d (c_store s))\<rparr>)"
| swap_list: "refs_ok refs (st_heap (c_store s)) \<Longrightarrow>
    cmove s (s\<lparr>c_lb := (c_lb s)\<lparr>lb_backends := refs\<rparr>\<rparr>)"

definition init_calls :: "nat \<Rightarrow> string \<Rightarrow> BackendConfig list \<Rightarrow> usize option \<Rightarrow> cstate" where
  "init_calls n rule configs limit =
     (case new_lb rule configs limit \<lparr>st_heap = [], st_metrics = []\<rparr> of
        (lb, s) \<Rightarrow> \<lparr>c_lb = lb, c_store = s, c_guards = [], c_calls = replicate n Idle\<rparr>)"

abbreviation cheap :: "cstate \<Rightarrow> Backend list" where
  "cheap s \<equiv> st_heap (c_store s)"

section \<open>The counters\<close>

text \<open>Calls that have counted a connection whose guard they have not returned yet.\<close>

definition counting :: "cstate \<Rightarrow> backend_ref \<Rightarrow> nat" where
  "counting s r = count_list (c_calls s) (Counted r)"

text \<open>Calls that have seen the backend below its limit and will count a connection on it.\<close>

definition passed :: "cstate \<Rightarrow> backend_ref \<Rightarrow> nat" where
  "passed s r = count_list (c_calls s) (Below_limit r)"

definition held :: "cstate \<Rightarrow> backend_ref \<Rightarrow> nat" where
  "held s r = count_by g_counter r (c_guards s) + counting s r"

text \<open>A call only holds references to allocated backends, and probes inside its list.\<close>

fun call_ok :: "Backend list \<Rightarrow> call \<Rightarrow> bool" where
  "call_ok h Idle = True"
| "call_ok h (Loaded refs) = refs_ok refs h"
| "call_ok h (Probing refs start i) = refs_ok refs h"
| "call_ok h (Not_draining refs start i) = (refs_ok refs h \<and> i < length refs)"
| "call_ok h (Is_healthy refs start i) = (refs_ok refs h \<and> i < length refs)"
| "call_ok h (Below_limit r) = (r < length h)"
| "call_ok h (Counted r) = (r < length h)"

lemma call_ok_mono: "call_ok h p \<Longrightarrow> length h \<le> length h' \<Longrightarrow> call_ok h' p"
  by (cases p) (auto simp: refs_ok_def)

definition wf_calls :: "cstate \<Rightarrow> bool" where
  "wf_calls s \<longleftrightarrow>
     refs_ok (lb_backends (c_lb s)) (cheap s) \<and>
     (\<forall>g \<in> set (c_guards s). g_counter g < length (cheap s)) \<and>
     (\<forall>p \<in> set (c_calls s). call_ok (cheap s) p) \<and>
     (\<forall>r < length (cheap s). b_active_connections (cheap s ! r) = of_nat (held s r))"

lemma wf_callsI:
  assumes "refs_ok (lb_backends (c_lb s)) (cheap s)"
    "\<And>g. g \<in> set (c_guards s) \<Longrightarrow> g_counter g < length (cheap s)"
    "\<And>p. p \<in> set (c_calls s) \<Longrightarrow> call_ok (cheap s) p"
    "\<And>r. r < length (cheap s) \<Longrightarrow> b_active_connections (cheap s ! r) = of_nat (held s r)"
  shows "wf_calls s"
  using assms by (simp add: wf_calls_def)

lemma wf_callsD:
  assumes "wf_calls s"
  shows "refs_ok (lb_backends (c_lb s)) (cheap s)"
    "\<And>g. g \<in> set (c_guards s) \<Longrightarrow> g_counter g < length (cheap s)"
    "\<And>p. p \<in> set (c_calls s) \<Longrightarrow> call_ok (cheap s) p"
    "\<And>r. r < length (cheap s) \<Longrightarrow> b_active_connections (cheap s ! r) = of_nat (held s r)"
  using assms by (auto simp: wf_calls_def)

lemma set_call_simps [simp]:
  "c_lb (set_call k p s) = c_lb s" "c_store (set_call k p s) = c_store s" "c_guards (set_call k p s) = c_guards s"
  "c_calls (set_call k p s) = (c_calls s)[k := p]"
  by (simp_all add: set_call_def)

lemma set_set_call: "q \<in> set ((c_calls s)[k := p]) \<Longrightarrow> q = p \<or> q \<in> set (c_calls s)"
  using set_update_subset_insert[of "c_calls s" k p] by auto

text \<open>A move of one call between places that count nothing leaves the invariant.\<close>

lemma wf_set_call:
  assumes "wf_calls s" "k < length (c_calls s)" "call_ok (cheap s) p"
    "\<And>r. c_calls s ! k \<noteq> Counted r" "\<And>r. p \<noteq> Counted r"
  shows "wf_calls (set_call k p s)"
proof (rule wf_callsI)
  show "b_active_connections (cheap (set_call k p s) ! r) = of_nat (held (set_call k p s) r)"
    if "r < length (cheap (set_call k p s))" for r
    using that wf_callsD(4)[OF assms(1), of r] count_list_update[OF assms(2), of p "Counted r"] assms(4,5)
    by (simp add: held_def counting_def)
  show "call_ok (cheap (set_call k p s)) q" if "q \<in> set (c_calls (set_call k p s))" for q
    using that set_set_call[of q s k p] wf_callsD(3)[OF assms(1), of q] assms(3) by auto
qed (use wf_callsD(1,2)[OF assms(1)] in simp_all)

lemma probed_in: "i < length refs \<Longrightarrow> probed refs start i \<in> set refs"
  unfolding probed_def by (intro nth_mem probe_index_less) auto

lemma held_count:
  assumes "k < length (c_calls s)" "c_calls s ! k = Below_limit r"
  shows "held (call_step k (Below_limit r) s) r' = held s r' + (if r' = r then 1 else 0)"
  using assms(2) count_list_update[OF assms(1), of "Counted r" "Counted r'"]
  by (auto simp: held_def counting_def)

lemma held_return:
  assumes "k < length (c_calls s)" "c_calls s ! k = Counted r"
  shows "held (call_step k (Counted r) s) r' = held s r'"
  using assms(2) count_list_update[OF assms(1), of Idle "Counted r'"]
  by (auto simp: held_def counting_def Let_def)

lemma wf_count:
  assumes wf: "wf_calls s" and k: "k < length (c_calls s)" and r: "c_calls s ! k = Below_limit r"
  shows "wf_calls (call_step k (Below_limit r) s)"
proof (rule wf_callsI, goal_cases)
  case (3 p)
  have "call_ok (cheap s) (Counted r)" using wf_callsD(3)[OF wf nth_mem[OF k]] r by simp
  then show ?case
    using 3 set_set_call[of p s k "Counted r"] wf_callsD(3)[OF wf, of p] by (auto intro: call_ok_mono)
next
  case (4 r')
  then show ?case
    using wf_callsD(4)[OF wf, of r'] by (simp only: held_count[OF k r]) (auto simp: nth_list_update_if)
qed (use wf_callsD(1,2)[OF wf] in \<open>simp_all add: refs_ok_def\<close>)

lemma wf_return:
  assumes wf: "wf_calls s" and k: "k < length (c_calls s)" and r: "c_calls s ! k = Counted r"
  shows "wf_calls (call_step k (Counted r) s)"
proof (rule wf_callsI, goal_cases)
  case (2 g)
  have "r < length (cheap s)" using wf_callsD(3)[OF wf nth_mem[OF k]] r by simp
  then show ?case using 2 wf_callsD(2)[OF wf] by (auto simp: Let_def)
next
  case (3 p)
  then show ?case
    using set_set_call[of p s k Idle] wf_callsD(3)[OF wf, of p] by (auto simp: Let_def)
next
  case (4 r')
  then show ?case
    using wf_callsD(4)[OF wf, of r'] by (simp only: held_return[OF k r]) (simp add: Let_def)
qed (use wf_callsD(1)[OF wf] in \<open>simp_all add: Let_def\<close>)

lemma wf_advance:
  assumes wf: "wf_calls s"
  shows "wf_calls (advance k s)"
proof (cases "k < length (c_calls s)")
  case k: True
  then have mem: "c_calls s ! k \<in> set (c_calls s)" by simp
  note refs = wf_callsD(3)[OF wf mem]
  show ?thesis
  proof (cases "c_calls s ! k")
    case Idle
    then show ?thesis
      using k wf wf_callsD(1)[OF wf] by (auto simp: advance_def intro!: wf_set_call)
  next
    case (Loaded rs)
    have "wf_calls (s\<lparr>c_lb := (c_lb s)\<lparr>lb_current := lb_current (c_lb s) + 1\<rparr>\<rparr>)"
      using wf by (simp add: wf_calls_def held_def counting_def)
    then show ?thesis
      using k refs by (auto simp: advance_def Loaded intro!: wf_set_call)
  next
    case (Probing rs start i)
    then show ?thesis using k wf refs by (auto simp: advance_def intro!: wf_set_call)
  next
    case (Not_draining rs start i)
    then show ?thesis using k wf refs by (auto simp: advance_def intro!: wf_set_call)
  next
    case (Is_healthy rs start i)
    have "probed rs start i < length (cheap s)"
      using probed_in refs by (auto simp: Is_healthy)
    then show ?thesis
      using k wf refs Is_healthy by (auto simp: advance_def intro!: wf_set_call split: option.split)
  next
    case (Below_limit r)
    then show ?thesis using wf_count[OF wf k Below_limit] k by (simp add: advance_def)
  next
    case (Counted r)
    then show ?thesis using wf_return[OF wf k Counted] k by (simp add: advance_def)
  qed
qed (simp add: advance_def wf)

text \<open>A store into one backend that is not its counter.\<close>

lemma wf_store_flag:
  assumes "wf_calls s" "\<And>b. b_active_connections (f b) = b_active_connections b"
  shows "wf_calls (s\<lparr>c_store := upd_backend r f (c_store s)\<rparr>)"
  using assms
  by (auto simp: wf_calls_def refs_ok_def held_def counting_def nth_list_update_if intro: call_ok_mono)

lemma wf_close:
  assumes wf: "wf_calls s" and i: "i < length (c_guards s)"
  shows "wf_calls (s\<lparr>c_store := drop_guard (c_guards s ! i) (c_store s), c_guards := remove_nth i (c_guards s)\<rparr>)"
proof (rule wf_callsI, goal_cases)
  case (2 g)
  then show ?case
    using wf_callsD(2)[OF wf, of g] set_remove_nth_subset[of i "c_guards s"] by (auto simp: drop_guard_eq)
next
  case (3 p)
  then show ?case using wf_callsD(3)[OF wf, of p] by (auto simp: drop_guard_eq intro: call_ok_mono)
next
  case (4 r)
  then show ?case
    using wf_callsD(4)[OF wf, of r] count_by_remove_nth[OF i, of g_counter r]
    by (auto simp: drop_guard_eq nth_list_update_if held_def counting_def)
qed (use wf_callsD(1)[OF wf] in \<open>simp add: refs_ok_def drop_guard_eq\<close>)

lemma held_fresh:
  assumes "wf_calls s" "length (cheap s) \<le> r"
  shows "held s r = 0"
proof -
  have "r \<notin> g_counter ` set (c_guards s)" using wf_callsD(2)[OF assms(1)] assms(2) by fastforce
  moreover have "Counted r \<notin> set (c_calls s)" using wf_callsD(3)[OF assms(1), of "Counted r"] assms(2) by auto
  ultimately show ?thesis
    using count_by_pos_iff[of g_counter r "c_guards s"]
    by (simp add: held_def counting_def count_list_0_iff)
qed

lemma wf_allocate:
  assumes wf: "wf_calls s"
  shows "wf_calls (s\<lparr>c_store := snd (init_backend rule a d (c_store s))\<rparr>)"
proof (rule wf_callsI, goal_cases)
  case (2 g)
  then show ?case using wf_callsD(2)[OF wf, of g] by (simp add: init_backend_eq)
next
  case (3 p)
  then show ?case using wf_callsD(3)[OF wf, of p] by (auto simp: init_backend_eq intro: call_ok_mono)
next
  case (4 r)
  have "held (s\<lparr>c_store := snd (init_backend rule a d (c_store s))\<rparr>) r = held s r"
    by (simp add: held_def counting_def)
  then show ?case
    using 4 wf_callsD(4)[OF wf, of r] held_fresh[OF wf, of r]
    by (auto simp: init_backend_eq nth_append fresh_backend_def less_Suc_eq)
qed (use wf_callsD(1)[OF wf] in \<open>auto simp: refs_ok_def init_backend_eq\<close>)

lemma wf_cmove: "cmove s t \<Longrightarrow> wf_calls s \<Longrightarrow> wf_calls t"
proof (induction rule: cmove.induct)
  case (swap_list refs s)
  then show ?case by (simp add: wf_calls_def held_def counting_def)
qed (simp_all add: wf_advance wf_close wf_store_flag wf_allocate)

lemma wf_init_calls: "wf_calls (init_calls n rule configs limit)"
  by (auto simp: wf_calls_def init_calls_def new_lb_def split_beta Let_def new_backends_eq refs_ok_def
        fresh_backend_def held_def counting_def count_list_0_iff)

interpretation cs: counted_system cmove wf_calls
  "\<lambda>s r. b_active_connections (cheap s ! r)" held "\<lambda>s r. r < length (cheap s)"
  by unfold_locales (auto simp: wf_cmove wf_callsD(4))

text \<open>
  C12. Under every interleaving of atomic operations, the counter of a backend is the number of its
  open connections plus the calls that have counted a connection and not returned its guard yet.
\<close>

theorem concurrent_counters_exact:
  assumes "cmove\<^sup>*\<^sup>* (init_calls n rule configs limit) s" "r < length (cheap s)" "held s r < 2 ^ 64"
  shows "unat (b_active_connections (cheap s ! r)) = held s r"
  by (rule cs.counter_exact[OF assms(1) wf_init_calls assms(2,3)])

section \<open>The limit under concurrency\<close>

lemma passed_set_call:
  assumes "k < length (c_calls s)"
  shows "passed (set_call k p s) r + (if c_calls s ! k = Below_limit r then 1 else 0) =
    passed s r + (if p = Below_limit r then 1 else 0)"
  using count_list_update[OF assms, of p "Below_limit r"] by (simp add: passed_def)

lemma held_set_call:
  assumes "k < length (c_calls s)"
  shows "held (set_call k p s) r + (if c_calls s ! k = Counted r then 1 else 0) =
    held s r + (if p = Counted r then 1 else 0)"
  using count_list_update[OF assms, of p "Counted r"] by (simp add: held_def counting_def)

text \<open>What one operation of a call does to the connections held and about to be held.\<close>

lemma set_call_pending:
  assumes "k < length (c_calls s)" "\<And>r. c_calls s ! k \<noteq> Counted r" "\<And>r. p \<noteq> Counted r" "\<And>r. p \<noteq> Below_limit r"
  shows "held (set_call k p s) r = held s r" "passed (set_call k p s) r \<le> passed s r"
  using held_set_call[OF assms(1), of p r] passed_set_call[OF assms(1), of p r] assms(2-4)
  by (auto split: if_splits)

lemma pending_lb [simp]: "held (s\<lparr>c_lb := lb\<rparr>) r = held s r" "passed (s\<lparr>c_lb := lb\<rparr>) r = passed s r"
  by (simp_all add: held_def counting_def passed_def)

lemma pending_store [simp]: "held (s\<lparr>c_store := x\<rparr>) r = held s r" "passed (s\<lparr>c_store := x\<rparr>) r = passed s r"
  by (simp_all add: held_def counting_def passed_def)

lemma passed_le_calls: "passed s r \<le> length (c_calls s)"
  by (simp add: passed_def count_le_length)

lemma advance_pending:
  fixes r :: backend_ref
  assumes k: "k < length (c_calls s)" and l: "lb_connection_limit (c_lb s) = Some l"
  shows "held (advance k s) r + passed (advance k s) r \<le> held s r + passed s r \<or>
    (held (advance k s) r = held s r \<and> b_active_connections (cheap s ! r) < l)"
proof (cases "c_calls s ! k")
  case Idle
  then show ?thesis
    using k set_call_pending[OF k, of _ r] by (auto simp: advance_def intro: add_mono)
next
  case (Loaded rs)
  let ?s = "s\<lparr>c_lb := (c_lb s)\<lparr>lb_current := lb_current (c_lb s) + 1\<rparr>\<rparr>"
  have "k < length (c_calls ?s)" using k by simp
  from set_call_pending[OF this, of "Probing rs (lb_current (c_lb s)) 0" r] show ?thesis
    using k by (simp add: advance_def Loaded)
next
  case (Probing rs start i)
  then show ?thesis
    using k set_call_pending[OF k, of _ r] by (auto simp: advance_def intro: add_mono)
next
  case (Not_draining rs start i)
  then show ?thesis
    using k set_call_pending[OF k, of _ r] by (auto simp: advance_def intro: add_mono)
next
  case (Is_healthy rs start i)
  show ?thesis
  proof (cases "l \<le> b_active_connections (cheap s ! probed rs start i)")
    case True
    then show ?thesis
      using k l set_call_pending[OF k, of _ r] by (auto simp: advance_def Is_healthy intro: add_mono)
  next
    case False
    then show ?thesis
      using k l held_set_call[OF k, of "Below_limit (probed rs start i)" r]
        passed_set_call[OF k, of "Below_limit (probed rs start i)" r]
      by (auto simp: advance_def Is_healthy not_le split: if_splits)
  qed
next
  case (Below_limit r')
  let ?s = "s\<lparr>c_store := upd_backend r' (\<lambda>b. b\<lparr>b_active_connections := b_active_connections b + 1\<rparr>) (c_store s)\<rparr>"
  have "k < length (c_calls ?s)" using k by simp
  from held_set_call[OF this, of "Counted r'" r] passed_set_call[OF this, of "Counted r'" r] show ?thesis
    using k by (auto simp: advance_def Below_limit split: if_splits)
next
  case (Counted r')
  have "passed (call_step k (Counted r') s) r = passed s r"
    using count_list_update[OF k, of Idle "Below_limit r"] by (simp add: passed_def Let_def Counted)
  then show ?thesis using k held_return[OF k Counted, of r] by (simp add: advance_def Counted)
qed

definition within_slack :: "usize \<Rightarrow> nat \<Rightarrow> cstate \<Rightarrow> bool" where
  "within_slack l n s \<longleftrightarrow> wf_calls s \<and> lb_connection_limit (c_lb s) = Some l \<and> length (c_calls s) = n \<and>
     (\<forall>r. held s r + passed s r < unat l + n)"

lemma call_step_frame:
  "lb_connection_limit (c_lb (call_step k p s)) = lb_connection_limit (c_lb s)"
  "length (c_calls (call_step k p s)) = length (c_calls s)"
  by (cases p; simp add: Let_def split: option.split)+

lemma advance_frame:
  "lb_connection_limit (c_lb (advance k s)) = lb_connection_limit (c_lb s)"
  "length (c_calls (advance k s)) = length (c_calls s)"
  by (simp_all add: advance_def call_step_frame)

lemma within_slack_advance:
  assumes s: "within_slack l n s" and n: "unat l + n \<le> 2 ^ 64"
  shows "within_slack l n (advance k s)"
proof -
  have wf: "wf_calls s" and l: "lb_connection_limit (c_lb s) = Some l" and len: "length (c_calls s) = n"
    and b: "held s r + passed s r < unat l + n" for r
    using s by (simp_all add: within_slack_def)
  have "held (advance k s) r + passed (advance k s) r < unat l + n" for r
  proof (cases "k < length (c_calls s)")
    case True
    consider (less) "held (advance k s) r + passed (advance k s) r \<le> held s r + passed s r"
      | (below) "held (advance k s) r = held s r" "b_active_connections (cheap s ! r) < l"
      using advance_pending[OF True l, of r] by blast
    then show ?thesis
    proof cases
      case less
      then show ?thesis using b[of r] by simp
    next
      case below
      have "held s r < unat l"
      proof (cases "r < length (cheap s)")
        case True
        have "held s r < 2 ^ 64" using b[of r] n by simp
        then show ?thesis
          using below(2) wf_callsD(4)[OF wf True] by (simp add: word_less_nat_alt unat_of_nat_small)
      next
        case False
        then show ?thesis
          using held_fresh[OF wf, of r] below(2) by (simp add: word_less_nat_alt)
      qed
      then show ?thesis
        using below(1) passed_le_calls[of "advance k s" r] by (simp add: advance_frame len)
    qed
  qed (use b in \<open>simp add: advance_def\<close>)
  then show ?thesis
    using wf_advance[OF wf] l len by (simp add: within_slack_def advance_frame)
qed

lemma within_slack_cmove:
  assumes "cmove s t" "within_slack l n s" "unat l + n \<le> 2 ^ 64"
  shows "within_slack l n t"
  using assms
proof (induction rule: cmove.induct)
  case (call s k)
  then show ?case by (simp add: within_slack_advance)
next
  case (close i s)
  let ?t = "s\<lparr>c_store := drop_guard (c_guards s ! i) (c_store s), c_guards := remove_nth i (c_guards s)\<rparr>"
  have "held ?t r + passed ?t r \<le> held s r + passed s r" for r
    using count_by_remove_nth_le[of g_counter r i "c_guards s"] by (simp add: held_def counting_def passed_def)
  then show ?case
    using close wf_close[of s i] by (auto simp: within_slack_def intro: le_less_trans)
next
  case (swap_list refs s)
  then have "wf_calls (s\<lparr>c_lb := (c_lb s)\<lparr>lb_backends := refs\<rparr>\<rparr>)"
    by (simp add: within_slack_def wf_calls_def)
  then show ?case using swap_list by (simp add: within_slack_def)
qed (simp_all add: within_slack_def wf_store_flag wf_allocate)

interpretation slack: invariant_system cmove "\<lambda>s. unat l + n \<le> 2 ^ 64 \<and> within_slack l n s" for l n
  by unfold_locales (auto intro: within_slack_cmove)

text \<open>
  C13. The test of the limit and the increment are two operations, so concurrent calls may pass the
  limit; with \<open>n\<close> calls running at a time a backend never has more than \<open>n - 1\<close> connections over its
  limit, whatever the interleaving with closing connections, reconfigurations and health checks.
\<close>

theorem concurrent_limit_slack:
  assumes "cmove\<^sup>*\<^sup>* (init_calls n rule configs (Some l)) s" "0 < n" "unat l + n \<le> 2 ^ 64"
  shows "held s r \<le> unat l + (n - 1)"
proof -
  have "within_slack l n (init_calls n rule configs (Some l))"
    using wf_init_calls[of n rule configs "Some l"] assms(2)
    by (simp add: within_slack_def init_calls_def new_lb_def split_beta Let_def held_def counting_def passed_def
        count_list_0_iff)
  then have "within_slack l n s" using slack.steps_inv[OF assms(1), of l n] assms(3) by blast
  then have "held s r + passed s r < unat l + n" by (simp add: within_slack_def)
  then show ?thesis using assms(2) by simp
qed

section \<open>A call that runs alone\<close>

definition solo :: "nat \<Rightarrow> cstate \<Rightarrow> cstate \<Rightarrow> bool" where
  "solo k s t \<longleftrightarrow> (\<exists>m. (advance k ^^ m) s = t)"

lemma solo_refl: "solo k s s"
  unfolding solo_def by (rule exI[of _ 0]) simp

lemma solo_step: "solo k (advance k s) t \<Longrightarrow> solo k s t"
  unfolding solo_def by (metis comp_apply funpow_Suc_right)

lemma solo_one: "advance k s = t \<Longrightarrow> solo k s t"
  by (rule solo_step) (simp add: solo_refl)

lemma set_call_set_call [simp]: "set_call k p (set_call k q s) = set_call k p s"
  by (simp add: set_call_def)

lemma advance_eq: "k < length (c_calls s) \<Longrightarrow> c_calls s ! k = p \<Longrightarrow> advance k s = call_step k p s"
  by (simp add: advance_def)

lemma set_call_same: "c_calls s ! k = p \<Longrightarrow> set_call k p s = s"
  by (auto simp: set_call_def)

text \<open>The state after a call has returned the guard of backend \<open>r\<close>.\<close>

definition taken :: "nat \<Rightarrow> backend_ref \<Rightarrow> cstate \<Rightarrow> cstate" where
  "taken k r s = set_call k Idle (s\<lparr>c_store := snd (acquire r (c_store s)),
     c_guards := c_guards s @ [fst (acquire r (c_store s))]\<rparr>)"

lemma solo_taken:
  assumes "k < length (c_calls s)" "r < length (cheap s)"
  shows "solo k (set_call k (Below_limit r) s) (taken k r s)"
proof -
  let ?inc = "\<lambda>b. b\<lparr>b_active_connections := b_active_connections b + 1\<rparr>"
  let ?s = "set_call k (Counted r) (s\<lparr>c_store := upd_backend r ?inc (c_store s)\<rparr>)"
  have 1: "advance k (set_call k (Below_limit r) s) = ?s"
    using assms(1) by (subst advance_eq[of _ _ "Below_limit r"]) (simp_all add: set_call_def)
  have "advance k ?s = taken k r s"
    using assms
    by (subst advance_eq[of _ _ "Counted r"]) (simp_all add: set_call_def taken_def acquire_def Let_def)
  from solo_one[OF this] have "solo k (advance k (set_call k (Below_limit r) s)) (taken k r s)"
    by (simp only: 1)
  then show ?thesis by (rule solo_step)
qed

lemma solo_trans: "solo k s t \<Longrightarrow> solo k t u \<Longrightarrow> solo k s u"
  unfolding solo_def by (metis comp_apply funpow_add)

lemma solo_via:
  assumes "k < length (c_calls s)" "call_step k p (set_call k p s) = u" "solo k u t"
  shows "solo k (set_call k p s) t"
proof (rule solo_step)
  have "advance k (set_call k p s) = u" using assms(1,2) by (simp add: advance_eq[of _ _ p])
  then show "solo k (advance k (set_call k p s)) t" using assms(3) by simp
qed

text \<open>One probe: three tests, and the next probe or the acquisition.\<close>

lemma solo_one_probe:
  assumes k: "k < length (c_calls s)" and i: "i < length refs" and r: "probed refs start i < length (cheap s)"
  shows "solo k (set_call k (Probing refs start i) s)
    (if available (lb_connection_limit (c_lb s)) (cheap s ! probed refs start i) then taken k (probed refs start i) s
     else set_call k (Probing refs start (Suc i)) s)" (is "solo k _ ?goal")
proof (cases "b_drain (cheap s ! probed refs start i)")
  case True
  then show ?thesis using i by (intro solo_via[OF k _ solo_refl]) (simp add: available_def)
next
  case nd: False
  have "solo k (call_step k (Is_healthy refs start i) (set_call k (Is_healthy refs start i) s)) ?goal"
    if "b_healthy (cheap s ! probed refs start i)"
    using solo_taken[OF k r] nd that by (auto simp: available_def not_less solo_refl split: option.splits)
  then have healthy: "solo k (set_call k (Is_healthy refs start i) s) ?goal" if "b_healthy (cheap s ! probed refs start i)"
    using that by (intro solo_via[OF k refl])
  have "solo k (set_call k (Not_draining refs start i) s) ?goal"
  proof (cases "b_healthy (cheap s ! probed refs start i)")
    case True
    then show ?thesis by (intro solo_via[OF k _ healthy]) simp_all
  next
    case False
    then show ?thesis by (intro solo_via[OF k _ solo_refl]) (simp add: available_def)
  qed
  then show ?thesis by (rule solo_via[OF k, rotated]) (use i nd in simp)
qed

lemma solo_probe:
  assumes "k < length (c_calls s)" "refs_ok refs (cheap s)"
  shows "solo k (set_call k (Probing refs start i) s)
    (case scan (lb_connection_limit (c_lb s)) (c_store s) refs start [i..<length refs] of
       None \<Rightarrow> set_call k Idle s
     | Some r \<Rightarrow> taken k r s)"
  using assms
proof (induction "length refs - i" arbitrary: i)
  case 0
  then have "advance k (set_call k (Probing refs start i) s) = set_call k Idle s"
    by (subst advance_eq[of _ _ "Probing refs start i"]) simp_all
  from solo_one[OF this] show ?case using 0 by simp
next
  case (Suc n)
  have i: "i < length refs" and n: "n = length refs - Suc i" using Suc.hyps(2) by simp_all
  have "probed refs start i < length (cheap s)" using probed_in[OF i] Suc.prems(2) by auto
  note probe = solo_one_probe[OF Suc.prems(1) i this]
  show ?case
  proof (cases "available (lb_connection_limit (c_lb s)) (cheap s ! probed refs start i)")
    case True
    then show ?thesis using probe i by (simp add: upt_conv_Cons probed_def)
  next
    case False
    then show ?thesis
      using solo_trans[OF _ Suc.hyps(1)[OF n Suc.prems]] probe i by (simp add: upt_conv_Cons probed_def)
  qed
qed

text \<open>
  C14. Refinement: a call whose atomic operations are not interleaved with others has exactly the
  effect of the whole operation \<open>next_backend\<close>.
\<close>

theorem solo_call_is_next_backend:
  assumes "k < length (c_calls s)" "c_calls s ! k = Idle" "refs_ok (lb_backends (c_lb s)) (cheap s)"
  shows "\<exists>m. (advance k ^^ m) s =
    (case next_backend (c_lb s) (c_store s) of
       (res, lb, st) \<Rightarrow> s\<lparr>c_lb := lb, c_store := st, c_guards := c_guards s @ (case res of None \<Rightarrow> [] | Some (a, g) \<Rightarrow> [g])\<rparr>)"
proof -
  let ?lb = "c_lb s" and ?refs = "lb_backends (c_lb s)"
  let ?s1 = "s\<lparr>c_lb := ?lb\<lparr>lb_current := lb_current ?lb + 1\<rparr>\<rparr>"
  have "solo k s (case next_backend ?lb (c_store s) of
       (res, lb, st) \<Rightarrow> s\<lparr>c_lb := lb, c_store := st, c_guards := c_guards s @ (case res of None \<Rightarrow> [] | Some (a, g) \<Rightarrow> [g])\<rparr>)"
  proof (cases "?refs = []")
    case True
    then show ?thesis by (simp add: next_backend_def solo_refl)
  next
    case False
    have idle: "set_call k Idle (?s1\<lparr>c_store := x, c_guards := y\<rparr>) = ?s1\<lparr>c_store := x, c_guards := y\<rparr>" for x y
      using assms(2) by (intro set_call_same) simp
    have idle': "set_call k Idle ?s1 = ?s1" using assms(2) by (intro set_call_same) simp
    have "solo k (set_call k (Probing ?refs (lb_current ?lb) 0) ?s1)
        (case scan (lb_connection_limit ?lb) (c_store s) ?refs (lb_current ?lb) [0..<length ?refs] of
           None \<Rightarrow> set_call k Idle ?s1 | Some r \<Rightarrow> taken k r ?s1)"
      using solo_probe[of k ?s1 ?refs "lb_current ?lb" 0] assms(1,3) by simp
    moreover have "advance k (advance k s) = set_call k (Probing ?refs (lb_current ?lb) 0) ?s1"
      using assms(1,2) False by (simp add: advance_def set_call_def)
    ultimately have "solo k s (case scan (lb_connection_limit ?lb) (c_store s) ?refs (lb_current ?lb) [0..<length ?refs] of
           None \<Rightarrow> set_call k Idle ?s1 | Some r \<Rightarrow> taken k r ?s1)"
      using solo_step[OF solo_step, of k s] by simp
    moreover have "s\<lparr>c_lb := x, c_store := c_store s, c_guards := c_guards s\<rparr> = s\<lparr>c_lb := x\<rparr>" for x
      by (cases s) simp
    ultimately show ?thesis
      using False idle idle' by (simp add: next_backend_def split_beta taken_def split: option.splits)
  qed
  then show ?thesis unfolding solo_def .
qed

theorem solo_call_is_next_backend_witness:
  "let s = init_calls 1 ''app'' [Simple ''a''] None
   in 0 < length (c_calls s) \<and> c_calls s ! 0 = Idle \<and> refs_ok (lb_backends (c_lb s)) (cheap s) \<and>
      (\<exists>m. length (c_guards ((advance 0 ^^ m) s)) = 1)"
proof -
  let ?s = "init_calls 1 ''app'' [Simple ''a''] None"
  have l: "0 < length (c_calls ?s)" and i: "c_calls ?s ! 0 = Idle" by code_simp+
  have ok: "refs_ok (lb_backends (c_lb ?s)) (cheap ?s)" by (rule wf_callsD(1)[OF wf_init_calls])
  obtain m where m: "(advance 0 ^^ m) ?s = (case next_backend (c_lb ?s) (c_store ?s) of
       (res, lb, st) \<Rightarrow> ?s\<lparr>c_lb := lb, c_store := st,
         c_guards := c_guards ?s @ (case res of None \<Rightarrow> [] | Some (a, g) \<Rightarrow> [g])\<rparr>)"
    using solo_call_is_next_backend[OF l i ok] by blast
  have "length (c_guards ((advance 0 ^^ m) ?s)) = 1" unfolding m by code_simp
  then show ?thesis using l i ok unfolding Let_def by blast
qed

text \<open>A schedule of calls, for concrete executions.\<close>

lemma schedule_moves: "cmove\<^sup>*\<^sup>* s (fold advance ks s)"
proof (induction ks rule: rev_induct)
  case (snoc k ks)
  then show ?case by (auto intro: rtranclp.rtrancl_into_rtrancl cmove.call)
qed simp

text \<open>
  The slack is real: two calls that interleave between test and increment open two connections
  on a backend whose limit is one.
\<close>

theorem concurrent_limit_exceeded:
  "\<exists>s. cmove\<^sup>*\<^sup>* (init_calls 2 ''app'' [Simple ''a''] (Some 1)) s \<and> count_by g_counter 0 (c_guards s) = 2"
proof -
  let ?s = "fold advance [0, 0, 0, 0, 0, 1, 1, 1, 1, 1, 0, 0, 1, 1] (init_calls 2 ''app'' [Simple ''a''] (Some 1))"
  have "count_by g_counter 0 (c_guards ?s) = 2" by code_simp
  then show ?thesis using schedule_moves by blast
qed

theorem concurrent_counters_exact_witness:
  "let s = fold advance [0, 0, 0, 0, 0, 0] (init_calls 1 ''app'' [Simple ''a''] None)
   in cmove\<^sup>*\<^sup>* (init_calls 1 ''app'' [Simple ''a''] None) s \<and> 0 < length (cheap s) \<and>
      unat (b_active_connections (cheap s ! 0)) = held s 0 \<and> held s 0 = 1"
proof -
  let ?s = "fold advance [0, 0, 0, 0, 0, 0] (init_calls 1 ''app'' [Simple ''a''] None)"
  have m: "cmove\<^sup>*\<^sup>* (init_calls 1 ''app'' [Simple ''a''] None) ?s" by (rule schedule_moves)
  have l: "0 < length (cheap ?s)" and h: "held ?s 0 = 1" unfolding held_def counting_def by code_simp+
  then have "held ?s 0 < 2 ^ 64" by simp
  from concurrent_counters_exact[OF m l this] m l h show ?thesis by (simp only: Let_def simp_thms)
qed

theorem concurrent_limit_slack_witness:
  "let s = fold advance [0, 0, 0, 0, 0, 1, 1, 1, 1, 1, 0, 0, 1, 1] (init_calls 2 ''app'' [Simple ''a''] (Some 1))
   in cmove\<^sup>*\<^sup>* (init_calls 2 ''app'' [Simple ''a''] (Some 1)) s \<and> held s 0 = 2 \<and> held s 0 \<le> unat (1 :: usize) + (2 - 1)"
proof -
  let ?s = "fold advance [0, 0, 0, 0, 0, 1, 1, 1, 1, 1, 0, 0, 1, 1] (init_calls 2 ''app'' [Simple ''a''] (Some 1))"
  have m: "cmove\<^sup>*\<^sup>* (init_calls 2 ''app'' [Simple ''a''] (Some 1)) ?s" by (rule schedule_moves)
  have h: "held ?s 0 = 2" unfolding held_def counting_def by code_simp
  have "held ?s 0 \<le> unat (1 :: usize) + (2 - 1)" by (rule concurrent_limit_slack[OF m]) simp_all
  then show ?thesis using m h by (simp only: Let_def simp_thms)
qed

end
