(* ===== verification/Limiter.thy ===== *)
theory Limiter
  imports F64
begin

text \<open>
  The token bucket (\<open>SimpleLimiter\<close> of \<^verbatim>\<open>src/traffic/limiter.rs\<close>). The state sits behind a mutex
  and every operation reads the clock, refills and takes tokens under the lock, so the operations
  of all tasks are a sequence; the clock reading is an argument. Shown here: the bucket stays
  between empty and full, the tokens it grants over any period are bounded by the rate, a wait for at
  most the burst asks for the right sleep and is granted after it unless other tasks take the tokens
  first, and a wait for more than the burst is never granted.
\<close>

section \<open>State and operations\<close>

record SimpleLimiter =
  sl_rate_per_sec :: u32
  sl_burst_size :: u32
  sl_tokens :: f64
  sl_last_update :: instant

text \<open>\<open>as f64\<close> on a \<open>u32\<close> is exact.\<close>

definition f64_of_u32 :: "u32 \<Rightarrow> f64" where
  "f64_of_u32 n = of_nat (unat n)"

definition new_limiter :: "u32 \<Rightarrow> u32 \<Rightarrow> instant \<Rightarrow> SimpleLimiter" where
  "new_limiter rate burst now =
     \<lparr>sl_rate_per_sec = rate, sl_burst_size = burst, sl_tokens = f64_of_u32 burst, sl_last_update = now\<rparr>"

definition refill :: "instant \<Rightarrow> SimpleLimiter \<Rightarrow> SimpleLimiter" where
  "refill now l =
     (let elapsed = as_secs_f64 (now - sl_last_update l);
          new_tokens = rnd (elapsed * f64_of_u32 (sl_rate_per_sec l))
      in if 0 < new_tokens
         then l\<lparr>sl_tokens := min (rnd (sl_tokens l + new_tokens)) (f64_of_u32 (sl_burst_size l)),
                sl_last_update := now\<rparr>
         else l)"

text \<open>\<open>Ok\<close> is \<open>True\<close>.\<close>

definition check_n :: "instant \<Rightarrow> u32 \<Rightarrow> SimpleLimiter \<Rightarrow> bool \<times> SimpleLimiter" where
  "check_n now n l =
     (let l1 = refill now l
      in if f64_of_u32 n \<le> sl_tokens l1
         then (True, l1\<lparr>sl_tokens := rnd (sl_tokens l1 - f64_of_u32 n)\<rparr>)
         else (False, l1))"

text \<open>
  One round of \<open>until_n_ready\<close>, up to the sleep it asks for. A rate of zero makes the division
  infinite, on which \<open>Duration::from_secs_f64\<close> panics.
\<close>

datatype attempt = Granted | Sleep duration | Panics

definition wait_duration :: "u32 \<Rightarrow> SimpleLimiter \<Rightarrow> duration option" where
  "wait_duration n l =
     (let missing = rnd (f64_of_u32 n - sl_tokens l)
      in if sl_rate_per_sec l = 0 then None
         else from_secs_f64 (rnd (missing / f64_of_u32 (sl_rate_per_sec l))))"

definition try_ready :: "instant \<Rightarrow> u32 \<Rightarrow> SimpleLimiter \<Rightarrow> attempt \<times> SimpleLimiter" where
  "try_ready now n l =
     (let l1 = refill now l
      in if f64_of_u32 n \<le> sl_tokens l1
         then (Granted, l1\<lparr>sl_tokens := rnd (sl_tokens l1 - f64_of_u32 n)\<rparr>)
         else (case wait_duration n l1 of Some d \<Rightarrow> Sleep d | None \<Rightarrow> Panics, l1))"

text \<open>
  The operations of all tasks on one bucket, in the order in which they hold the lock: \<open>check_n\<close>
  and the rounds of \<open>until_n_ready\<close>. Each grants its tokens or none.
\<close>

datatype bucket_op = Check instant u32 | Round instant u32

fun bucket_step :: "bucket_op \<Rightarrow> SimpleLimiter \<Rightarrow> nat \<times> SimpleLimiter" where
  "bucket_step (Check now n) l = (case check_n now n l of (ok, l1) \<Rightarrow> (if ok then unat n else 0, l1))"
| "bucket_step (Round now n) l = (case try_ready now n l of (a, l1) \<Rightarrow> (if a = Granted then unat n else 0, l1))"

fun bucket_run :: "bucket_op list \<Rightarrow> SimpleLimiter \<Rightarrow> nat \<times> SimpleLimiter" where
  "bucket_run [] l = (0, l)"
| "bucket_run (x # xs) l = (let (g, l1) = bucket_step x l; (gs, l2) = bucket_run xs l1 in (g + gs, l2))"

text \<open>
  The loop of \<open>until_n_ready\<close>. The lock is free during the sleep, so a round finds the bucket as the
  other tasks have left it: it comes with their operations since the previous round, and with its own
  clock reading, which is whatever tokio's timer makes of the sleep. \<open>None\<close> is a loop that is still
  running after the listed rounds.
\<close>

fun until_n_ready :: "(bucket_op list \<times> instant) list \<Rightarrow> u32 \<Rightarrow> SimpleLimiter \<Rightarrow> (attempt \<times> SimpleLimiter) option" where
  "until_n_ready [] n l = None"
| "until_n_ready ((others, now) # rounds) n l =
     (case try_ready now n (snd (bucket_run others l)) of
        (Sleep d, l1) \<Rightarrow> until_n_ready rounds n l1
      | (a, l1) \<Rightarrow> Some (a, l1))"

section \<open>The bucket stays between empty and full\<close>

definition bucket_ok :: "SimpleLimiter \<Rightarrow> bool" where
  "bucket_ok l \<longleftrightarrow> 0 \<le> sl_tokens l \<and> sl_tokens l \<le> f64_of_u32 (sl_burst_size l)"

lemma unat_u32_le: "unat (n :: u32) \<le> 2 ^ 53"
  using unat_less_2p[of n] by simp

lemma f64_of_u32_nonneg [simp]: "0 \<le> f64_of_u32 n"
  unfolding f64_of_u32_def by (rule of_nat_0_le_iff)

lemma f64_of_u32_mono: "f64_of_u32 m \<le> f64_of_u32 n \<longleftrightarrow> m \<le> n"
  unfolding f64_of_u32_def by (simp only: of_nat_le_iff word_le_nat_alt)

lemma rnd_le_u32: "x \<le> f64_of_u32 n \<Longrightarrow> rnd x \<le> f64_of_u32 n"
  unfolding f64_of_u32_def by (rule b64.rd_le_of_nat[OF _ unat_u32_le])

lemma refill_frame [limiter_simps]:
  "sl_rate_per_sec (refill now l) = sl_rate_per_sec l" "sl_burst_size (refill now l) = sl_burst_size l"
  by (simp_all add: refill_def Let_def)

lemma check_n_frame [limiter_simps]:
  "sl_rate_per_sec (snd (check_n now n l)) = sl_rate_per_sec l"
  "sl_burst_size (snd (check_n now n l)) = sl_burst_size l"
  by (simp_all add: check_n_def Let_def limiter_simps)

lemma try_ready_frame [limiter_simps]:
  "sl_rate_per_sec (snd (try_ready now n l)) = sl_rate_per_sec l"
  "sl_burst_size (snd (try_ready now n l)) = sl_burst_size l"
  by (simp_all add: try_ready_def Let_def limiter_simps)

lemma bucket_ok_new: "bucket_ok (new_limiter rate burst now)"
  by (simp add: bucket_ok_def new_limiter_def)

lemma bucket_ok_refill: "bucket_ok l \<Longrightarrow> bucket_ok (refill now l)"
  by (auto simp: bucket_ok_def refill_def Let_def min_def)

lemma bucket_ok_take:
  assumes "bucket_ok l" "f64_of_u32 n \<le> sl_tokens l"
  shows "bucket_ok (l\<lparr>sl_tokens := rnd (sl_tokens l - f64_of_u32 n)\<rparr>)"
proof -
  have "sl_tokens l - f64_of_u32 n \<le> f64_of_u32 (sl_burst_size l)"
    using assms(1) f64_of_u32_nonneg[of n] unfolding bucket_ok_def by linarith
  from rnd_le_u32[OF this] show ?thesis using assms by (simp add: bucket_ok_def)
qed

lemma bucket_ok_check_n: "bucket_ok l \<Longrightarrow> bucket_ok (snd (check_n now n l))"
  by (simp add: check_n_def Let_def bucket_ok_take bucket_ok_refill)

lemma bucket_ok_try_ready: "bucket_ok l \<Longrightarrow> bucket_ok (snd (try_ready now n l))"
  by (simp add: try_ready_def Let_def bucket_ok_take bucket_ok_refill)

section \<open>The rate bound\<close>

text \<open>The reading and the size of an operation.\<close>

fun op_time :: "bucket_op \<Rightarrow> instant" where
  "op_time (Check now n) = now"
| "op_time (Round now n) = now"

fun op_size :: "bucket_op \<Rightarrow> u32" where
  "op_size (Check now n) = n"
| "op_size (Round now n) = n"

text \<open>Both kinds of operation are a refill followed by an all-or-nothing withdrawal.\<close>

definition withdraw :: "u32 \<Rightarrow> SimpleLimiter \<Rightarrow> nat \<times> SimpleLimiter" where
  "withdraw n l =
     (if f64_of_u32 n \<le> sl_tokens l then (unat n, l\<lparr>sl_tokens := rnd (sl_tokens l - f64_of_u32 n)\<rparr>) else (0, l))"

lemma bucket_step_withdraw: "bucket_step x l = withdraw (op_size x) (refill (op_time x) l)"
  by (cases x) (auto simp: check_n_def try_ready_def withdraw_def Let_def split: option.split)

abbreviation rate_of :: "SimpleLimiter \<Rightarrow> rat" where
  "rate_of l \<equiv> f64_of_u32 (sl_rate_per_sec l)"

abbreviation burst_of :: "SimpleLimiter \<Rightarrow> rat" where
  "burst_of l \<equiv> f64_of_u32 (sl_burst_size l)"

text \<open>What accrues in a period, with the error of the four roundings on its way into the bucket.\<close>

definition accrual :: "SimpleLimiter \<Rightarrow> rat \<Rightarrow> rat" where
  "accrual l t = rate_of l * t * (1 + eps64) ^ 4"

abbreviation fresh_tokens :: "instant \<Rightarrow> SimpleLimiter \<Rightarrow> f64" where
  "fresh_tokens now l \<equiv> rnd (as_secs_f64 (now - sl_last_update l) * rate_of l)"

lemma refill_cases:
  obtains (idle) "refill now l = l" "fresh_tokens now l = 0"
  | (filled) "sl_last_update l < now" "0 < fresh_tokens now l"
      "refill now l = l\<lparr>sl_tokens := min (rnd (sl_tokens l + fresh_tokens now l)) (burst_of l), sl_last_update := now\<rparr>"
proof (cases "0 < fresh_tokens now l")
  case True
  then have "sl_last_update l < now" by (cases "sl_last_update l < now") simp_all
  then show thesis using True by (intro filled) (simp_all add: refill_def Let_def)
next
  case False
  moreover have "0 \<le> fresh_tokens now l" by simp
  ultimately show thesis by (intro idle) (simp_all add: refill_def Let_def)
qed

lemma refill_last: "sl_last_update l \<le> sl_last_update (refill now l)"
  "sl_last_update (refill now l) \<le> max (sl_last_update l) now"
  by (cases rule: refill_cases[of now l]; simp)+

lemma fresh_tokens_upper: "fresh_tokens now l \<le> rate_of l * secs (now - sl_last_update l) * (1 + eps64) ^ 3"
proof -
  let ?e = "as_secs_f64 (now - sl_last_update l)"
  have "fresh_tokens now l \<le> ?e * rate_of l * (1 + eps64)"
    by (intro b64.rd_upper mult_nonneg_nonneg) simp_all
  also have "\<dots> \<le> secs (now - sl_last_update l) * (1 + eps64) ^ 2 * rate_of l * (1 + eps64)"
    using as_secs_f64_upper[of "now - sl_last_update l"] b64.eps_bounds
    by (intro mult_right_mono) simp_all
  finally show ?thesis by (simp add: power2_eq_square power3_eq_cube algebra_simps)
qed

text \<open>One refill: the new level exceeds the old one by the accrual and one rounding error at most.\<close>

lemma refill_upper:
  assumes "bucket_ok l"
  shows "sl_tokens (refill now l) \<le> sl_tokens l +
    accrual l (secs (sl_last_update (refill now l)) - secs (sl_last_update l)) + burst_of l * eps64"
proof (cases rule: refill_cases[of now l])
  case idle
  then show ?thesis by (simp add: accrual_def b64.eps_bounds)
next
  case filled
  let ?x = "fresh_tokens now l"
  have nn: "0 \<le> sl_tokens l" "0 \<le> ?x" "sl_tokens l \<le> burst_of l" using assms by (simp_all add: bucket_ok_def)
  have "rnd (sl_tokens l + ?x) \<le> (sl_tokens l + ?x) * (1 + eps64)" using nn by (intro b64.rd_upper) simp
  also have "\<dots> = sl_tokens l + sl_tokens l * eps64 + ?x * (1 + eps64)" by (simp add: algebra_simps)
  also have "\<dots> \<le> sl_tokens l + burst_of l * eps64 + ?x * (1 + eps64)"
    using nn b64.eps_bounds by (intro add_mono mult_right_mono) simp_all
  also have "?x * (1 + eps64) \<le> rate_of l * secs (now - sl_last_update l) * (1 + eps64) ^ 3 * (1 + eps64)"
    using fresh_tokens_upper[of now l] b64.eps_bounds by (intro mult_right_mono) simp_all
  also have "\<dots> = accrual l (secs now - secs (sl_last_update l))"
    using filled(1) by (simp add: accrual_def secs_diff power4_eq_xxxx power3_eq_cube mult.assoc)
  finally show ?thesis using filled by simp
qed

lemma withdraw_upper:
  assumes "bucket_ok l"
  shows "sl_tokens (snd (withdraw n l)) + of_nat (fst (withdraw n l)) \<le> sl_tokens l + burst_of l * eps64"
proof (cases "f64_of_u32 n \<le> sl_tokens l")
  case True
  have "sl_tokens l - f64_of_u32 n \<le> burst_of l"
    using assms f64_of_u32_nonneg[of n] unfolding bucket_ok_def by linarith
  from b64.rd_upper_abs[OF _ this] True
  have "rnd (sl_tokens l - f64_of_u32 n) + f64_of_u32 n \<le> sl_tokens l + burst_of l * eps64" by simp
  then show ?thesis using True by (simp add: withdraw_def f64_of_u32_def)
next
  case False
  then show ?thesis by (simp add: withdraw_def b64.eps_bounds)
qed

lemma withdraw_frame [limiter_simps]:
  "sl_rate_per_sec (snd (withdraw n l)) = sl_rate_per_sec l" "sl_burst_size (snd (withdraw n l)) = sl_burst_size l"
  "sl_last_update (snd (withdraw n l)) = sl_last_update l"
  by (simp_all add: withdraw_def)

lemma bucket_ok_withdraw: "bucket_ok l \<Longrightarrow> bucket_ok (snd (withdraw n l))"
  by (simp add: withdraw_def bucket_ok_take)

text \<open>A full bucket run: the contract that every sequence of operations on a bucket satisfies.\<close>

definition drift :: "SimpleLimiter \<Rightarrow> rat" where
  "drift l = 2 * (burst_of l * eps64)"

lemma bucket_step_bound:
  fixes x :: bucket_op
  assumes "bucket_ok l"
  defines "l' \<equiv> snd (bucket_step x l)"
  shows "bucket_ok l'" "sl_rate_per_sec l' = sl_rate_per_sec l" "sl_burst_size l' = sl_burst_size l"
    "sl_last_update l \<le> sl_last_update l'" "sl_last_update l' \<le> max (sl_last_update l) (op_time x)"
    "sl_tokens l' + of_nat (fst (bucket_step x l)) \<le>
       sl_tokens l + accrual l (secs (sl_last_update l') - secs (sl_last_update l)) + drift l"
proof -
  let ?r = "refill (op_time x) l"
  have eq: "l' = snd (withdraw (op_size x) ?r)" "fst (bucket_step x l) = fst (withdraw (op_size x) ?r)"
    by (simp_all add: l'_def bucket_step_withdraw)
  have ok: "bucket_ok ?r" using assms(1) by (rule bucket_ok_refill)
  show "bucket_ok l'" unfolding eq using ok by (rule bucket_ok_withdraw)
  show "sl_rate_per_sec l' = sl_rate_per_sec l" "sl_burst_size l' = sl_burst_size l"
    by (simp_all add: eq limiter_simps)
  show "sl_last_update l \<le> sl_last_update l'" "sl_last_update l' \<le> max (sl_last_update l) (op_time x)"
    unfolding eq limiter_simps by (rule refill_last)+
  show "sl_tokens l' + of_nat (fst (bucket_step x l)) \<le>
       sl_tokens l + accrual l (secs (sl_last_update l') - secs (sl_last_update l)) + drift l"
    using withdraw_upper[OF ok, of "op_size x"] refill_upper[OF assms(1), of "op_time x"]
    unfolding eq drift_def by (simp add: limiter_simps)
qed

lemma bucket_run_bound:
  assumes "bucket_ok l"
  shows "sl_tokens (snd (bucket_run xs l)) + of_nat (fst (bucket_run xs l)) \<le>
       sl_tokens l + accrual l (secs (sl_last_update (snd (bucket_run xs l))) - secs (sl_last_update l)) +
       of_nat (length xs) * drift l \<and>
     bucket_ok (snd (bucket_run xs l)) \<and>
     (\<forall>t. sl_last_update l \<le> t \<and> (\<forall>x \<in> set xs. op_time x \<le> t) \<longrightarrow> sl_last_update (snd (bucket_run xs l)) \<le> t)"
  using assms
proof (induction xs arbitrary: l)
  case Nil
  then show ?case by (simp add: accrual_def)
next
  case (Cons x xs)
  let ?l1 = "snd (bucket_step x l)"
  note step = bucket_step_bound[OF Cons.prems, of x]
  note ih = Cons.IH[OF step(1)]
  let ?l2 = "snd (bucket_run xs ?l1)"
  have same: "accrual ?l1 t = accrual l t" "drift ?l1 = drift l" for t
    by (simp_all add: accrual_def drift_def step)
  have sum: "accrual l (secs (sl_last_update ?l1) - secs (sl_last_update l)) +
      accrual l (secs (sl_last_update ?l2) - secs (sl_last_update ?l1)) =
      accrual l (secs (sl_last_update ?l2) - secs (sl_last_update l))"
    by (simp add: accrual_def algebra_simps)
  have "sl_tokens ?l2 + (of_nat (fst (bucket_step x l)) + of_nat (fst (bucket_run xs ?l1))) \<le>
       sl_tokens l + accrual l (secs (sl_last_update ?l2) - secs (sl_last_update l)) +
       (of_nat (length xs) * drift l + drift l)"
    using conjunct1[OF ih] step(6) sum unfolding same by linarith
  then have
    "sl_tokens (snd (bucket_run (x # xs) l)) + of_nat (fst (bucket_run (x # xs) l)) \<le>
       sl_tokens l + accrual l (secs (sl_last_update (snd (bucket_run (x # xs) l))) - secs (sl_last_update l)) +
       of_nat (length (x # xs)) * drift l"
    by (simp add: split_beta Let_def distrib_right add.commute)
  moreover have "sl_last_update (snd (bucket_run (x # xs) l)) \<le> t"
    if "sl_last_update l \<le> t" "\<forall>y \<in> set (x # xs). op_time y \<le> t" for t
  proof -
    have "sl_last_update ?l1 \<le> t" using step(5) that by (simp add: max_def split: if_splits)
    then show ?thesis using ih that(2) by (simp add: split_beta Let_def)
  qed
  ultimately show ?case using ih by (simp add: split_beta Let_def)
qed

lemma bucket_run_frame:
  "sl_rate_per_sec (snd (bucket_run xs l)) = sl_rate_per_sec l" "sl_burst_size (snd (bucket_run xs l)) = sl_burst_size l"
  by (induction xs arbitrary: l) (simp_all add: split_beta Let_def bucket_step_withdraw limiter_simps)

lemma bucket_rate_le:
  assumes "bucket_ok l" "sl_last_update l \<le> t" "\<forall>x \<in> set ops. op_time x \<le> t"
  shows "of_nat (fst (bucket_run ops l)) \<le>
    burst_of l + rate_of l * secs (t - sl_last_update l) * (1 + eps64) ^ 4 + of_nat (length ops) * (2 * (burst_of l * eps64))"
proof -
  let ?l' = "snd (bucket_run ops l)"
  note b = bucket_run_bound[OF assms(1), of ops]
  have "sl_last_update ?l' \<le> t" using b assms(2,3) by blast
  then have "secs (sl_last_update ?l') - secs (sl_last_update l) \<le> secs (t - sl_last_update l)"
    using secs_mono[of "sl_last_update ?l'" t] assms(2) by (simp add: secs_diff)
  then have "accrual l (secs (sl_last_update ?l') - secs (sl_last_update l)) \<le>
      rate_of l * secs (t - sl_last_update l) * (1 + eps64) ^ 4"
    unfolding accrual_def using b64.eps_bounds(1) by (intro mult_right_mono mult_left_mono) simp_all
  moreover have "sl_tokens l \<le> burst_of l" "0 \<le> sl_tokens ?l'"
    using assms(1) b by (simp_all add: bucket_ok_def)
  ultimately show ?thesis using conjunct1[OF b] unfolding drift_def by linarith
qed

text \<open>
  Over any period, the tokens a bucket grants, to all tasks together, are at most its burst plus
  what accrues at its rate, up to the binary64 rounding errors: a factor \<open>(1 + 2\<^sup>-\<^sup>5\<^sup>3)\<^sup>4\<close> on the accrual
  and \<open>burst * 2\<^sup>-\<^sup>5\<^sup>2\<close> per operation.
\<close>

theorem bucket_rate_bound:
  assumes "bucket_ok l" "sl_last_update l \<le> t" "\<forall>x \<in> set ops. op_time x \<le> t"
  shows "of_nat (fst (bucket_run ops l)) \<le>
    burst_of l + rate_of l * secs (t - sl_last_update l) * (1 + eps64) ^ 4 + of_nat (length ops) * (2 * (burst_of l * eps64))"
  using assms by (rule bucket_rate_le)

text \<open>The bound at work: five requests of 40 tokens within a second on a bucket of 100 at 10 per second.\<close>

theorem bucket_rate_bound_witness:
  "let l = new_limiter 10 100 0; ops = [Check 0 40, Check 0 40, Check 0 40, Round 500000000 40, Check 1000000000 40]
   in of_nat (fst (bucket_run ops l)) \<le>
        burst_of l + rate_of l * secs (1000000000 - sl_last_update l) * (1 + eps64) ^ 4 +
        of_nat (length ops) * (2 * (burst_of l * eps64))"
  unfolding Let_def
  by (rule bucket_rate_bound) (auto simp: bucket_ok_new, simp add: new_limiter_def)

section \<open>Waiting for tokens\<close>

lemma f64_of_u32_pos:
  assumes "r \<noteq> 0"
  shows "1 \<le> f64_of_u32 r"
proof -
  from assms have "1 \<le> unat r" by (simp add: Suc_le_eq unat_gt_0)
  then have "(of_nat 1 :: rat) \<le> of_nat (unat r)" by (simp only: of_nat_le_iff)
  then show ?thesis by (simp only: f64_of_u32_def of_nat_1)
qed

lemma f64_of_u32_less: "f64_of_u32 n < 2 ^ 32"
proof -
  have "unat n < 2 ^ 32" using unat_less_2p[of n] by simp
  then have "(of_nat (unat n) :: rat) < of_nat (2 ^ 32)" by (simp only: of_nat_less_iff)
  then show ?thesis by (simp only: f64_of_u32_def of_nat_power of_nat_numeral)
qed

lemma fresh_tokens_lower: "rate_of l * secs (now - sl_last_update l) * (1 - eps64) ^ 3 \<le> fresh_tokens now l"
proof -
  let ?e = "as_secs_f64 (now - sl_last_update l)"
  have "secs (now - sl_last_update l) * (1 - eps64) ^ 2 * rate_of l * (1 - eps64) \<le> ?e * rate_of l * (1 - eps64)"
    using as_secs_f64_lower[of "now - sl_last_update l"] b64.eps_bounds
    by (intro mult_right_mono) simp_all
  also have "\<dots> \<le> fresh_tokens now l"
    by (intro b64.rd_lower mult_nonneg_nonneg) simp_all
  finally show ?thesis by (simp add: power2_eq_square power3_eq_cube algebra_simps)
qed

text \<open>
  A refill that brings at least \<open>y\<close> tokens: it reaches any level of at most the burst that \<open>y\<close> covers,
  and otherwise misses \<open>sl_tokens l + y\<close> by one rounding error.
\<close>

lemma refill_reaches:
  assumes "n \<le> sl_burst_size l" "y \<le> fresh_tokens now l" "f64_of_u32 n \<le> sl_tokens l + y"
  shows "f64_of_u32 n \<le> sl_tokens (refill now l)"
proof (cases rule: refill_cases[of now l])
  case idle
  then show ?thesis using assms by simp
next
  case filled
  have "f64_of_u32 n \<le> rnd (sl_tokens l + fresh_tokens now l)"
    unfolding f64_of_u32_def
    by (rule b64.of_nat_le_rd[OF _ unat_u32_le]) (use assms in \<open>simp add: f64_of_u32_def\<close>)
  then show ?thesis using filled assms(1) by (simp add: f64_of_u32_mono)
qed

lemma refill_lower:
  assumes "n \<le> sl_burst_size l" "0 \<le> sl_tokens l" "0 \<le> y" "y \<le> fresh_tokens now l"
    "sl_tokens l + y \<le> f64_of_u32 n"
  shows "sl_tokens l + y - f64_of_u32 n * eps64 \<le> sl_tokens (refill now l)"
proof (cases rule: refill_cases[of now l])
  case idle
  then show ?thesis using assms b64.eps_bounds(1) by simp
next
  case filled
  have "sl_tokens l + y - f64_of_u32 n * eps64 \<le> rnd (sl_tokens l + y)"
    using assms by (intro b64.rd_lower_abs) simp_all
  also have "\<dots> \<le> rnd (sl_tokens l + fresh_tokens now l)" using assms by (intro rnd_mono) simp
  finally have "sl_tokens l + y - f64_of_u32 n * eps64 \<le> rnd (sl_tokens l + fresh_tokens now l)" .
  moreover have "sl_tokens l + y - f64_of_u32 n * eps64 \<le> burst_of l"
  proof -
    have "0 \<le> f64_of_u32 n * eps64" using b64.eps_bounds(1) by simp
    moreover have "f64_of_u32 n \<le> burst_of l" using assms(1) by (simp add: f64_of_u32_mono)
    ultimately show ?thesis using assms(5) by linarith
  qed
  ultimately show ?thesis using filled by simp
qed

text \<open>The sleep: it never panics at a positive rate, and lasts as long as the missing tokens take.\<close>

lemma from_secs_f64_Some:
  assumes "0 \<le> x" "x \<le> 2 ^ 32"
  obtains d where "from_secs_f64 x = Some d" "x - 1 / 2000000000 \<le> secs d" "secs d \<le> x + 1 / 2000000000"
proof -
  let ?ns = "round_half_even (x * 1000000000)"
  have r: "\<bar>of_int ?ns - x * 1000000000\<bar> \<le> 1 / 2" by (rule round_half_even_error)
  have "of_int ?ns \<le> (2 ^ 32 * 1000000000 + 1 :: rat)" using r assms by linarith
  also have "\<dots> < of_int (2 ^ 64 * 1000000000)" by simp
  finally have lt: "?ns < 2 ^ 64 * 1000000000" unfolding of_int_less_iff .
  have "of_int (-1) < (of_int ?ns :: rat)" unfolding of_int_minus of_int_1 using r assms by linarith
  then have "-1 < ?ns" unfolding of_int_less_iff .
  then have nn: "0 \<le> ?ns" by simp
  show thesis
  proof (rule that)
    show "from_secs_f64 x = Some (nat ?ns)" using lt assms by (simp add: from_secs_f64_def Let_def)
    have "x * 1000000000 - 1 / 2 \<le> of_int ?ns" using r by linarith
    then show "x - 1 / 2000000000 \<le> secs (nat ?ns)" using nn by (simp add: secs_def)
    have "of_int ?ns \<le> x * 1000000000 + 1 / 2" using r by linarith
    then show "secs (nat ?ns) \<le> x + 1 / 2000000000" using nn by (simp add: secs_def)
  qed
qed

lemma wait_duration_Some:
  assumes "sl_rate_per_sec l \<noteq> 0" "0 \<le> sl_tokens l" "sl_tokens l \<le> f64_of_u32 n"
  obtains d where "wait_duration n l = Some d"
    "(f64_of_u32 n - sl_tokens l) * (1 - eps64) ^ 2 - rate_of l / 2000000000 \<le> rate_of l * secs d"
    "rate_of l * secs d \<le> (f64_of_u32 n - sl_tokens l) * (1 + eps64) ^ 2 + rate_of l / 2000000000"
proof -
  let ?m = "f64_of_u32 n - sl_tokens l" and ?r = "rate_of l"
  let ?x = "rnd (rnd ?m / ?r)"
  have r: "1 \<le> ?r" using assms(1) by (rule f64_of_u32_pos)
  have m: "0 \<le> rnd ?m" "rnd ?m \<le> f64_of_u32 n" using assms by (simp, intro rnd_le_u32, simp)
  have "rnd ?m / ?r \<le> rnd ?m / 1" using m r by (intro divide_left_mono) simp_all
  then have "rnd ?m / ?r \<le> f64_of_u32 n" using m by simp
  then have "?x \<le> f64_of_u32 n" by (rule rnd_le_u32)
  then have x1: "?x \<le> 2 ^ 32" using f64_of_u32_less[of n] by linarith
  have x0: "0 \<le> ?x" using m r by simp
  obtain d where d: "from_secs_f64 ?x = Some d" "?x - 1 / 2000000000 \<le> secs d" "secs d \<le> ?x + 1 / 2000000000"
    by (rule from_secs_f64_Some[OF x0 x1])
  have e: "0 \<le> 1 - eps64" using b64.eps_bounds by simp
  have "?m * (1 - eps64) * (1 - eps64) \<le> rnd ?m * (1 - eps64)"
    using assms e by (intro mult_right_mono b64.rd_lower) simp_all
  also have "\<dots> = ?r * (rnd ?m / ?r * (1 - eps64))" using r by simp
  also have "\<dots> \<le> ?r * ?x" using m r by (intro mult_left_mono b64.rd_lower) simp_all
  also have "\<dots> \<le> ?r * (secs d + 1 / 2000000000)" using r d(2) by (intro mult_left_mono) simp_all
  finally have "?m * (1 - eps64) ^ 2 - ?r / 2000000000 \<le> ?r * secs d"
    by (simp add: power2_eq_square mult.assoc distrib_left)
  moreover have "?r * secs d \<le> ?m * (1 + eps64) ^ 2 + ?r / 2000000000"
  proof -
    have "?r * secs d \<le> ?r * (?x + 1 / 2000000000)" using r d(3) by (intro mult_left_mono) simp_all
    also have "\<dots> = ?r * ?x + ?r / 2000000000" by (simp add: distrib_left)
    also have "?r * ?x \<le> ?r * (rnd ?m / ?r * (1 + eps64))" using m r by (intro mult_left_mono b64.rd_upper) simp_all
    also have "\<dots> = rnd ?m * (1 + eps64)" using r by simp
    also have "\<dots> \<le> ?m * (1 + eps64) * (1 + eps64)"
      using assms b64.eps_bounds by (intro mult_right_mono b64.rd_upper) simp_all
    finally show ?thesis by (simp add: power2_eq_square mult.assoc)
  qed
  moreover have "wait_duration n l = Some d" using d(1) assms(1) by (simp add: wait_duration_def Let_def)
  ultimately show thesis by (intro that)
qed

text \<open>The two outcomes of a round.\<close>

lemma try_ready_cases [consumes 2, case_names granted sleep]:
  assumes "bucket_ok l" "sl_rate_per_sec l \<noteq> 0"
  obtains (granted) l' where "f64_of_u32 n \<le> sl_tokens (refill now l)" "try_ready now n l = (Granted, l')" "bucket_ok l'"
  | (sleep) d where "\<not> f64_of_u32 n \<le> sl_tokens (refill now l)" "try_ready now n l = (Sleep d, refill now l)"
      "(f64_of_u32 n - sl_tokens (refill now l)) * (1 - eps64) ^ 2 - rate_of l / 2000000000 \<le> rate_of l * secs d"
      "rate_of l * secs d \<le> (f64_of_u32 n - sl_tokens (refill now l)) * (1 + eps64) ^ 2 + rate_of l / 2000000000"
proof (cases "f64_of_u32 n \<le> sl_tokens (refill now l)")
  case True
  then show thesis using bucket_ok_take[OF bucket_ok_refill[OF assms(1)] True]
    by (intro granted) (simp_all add: try_ready_def Let_def)
next
  case False
  have "bucket_ok (refill now l)" using assms(1) by (rule bucket_ok_refill)
  then obtain d where "wait_duration n (refill now l) = Some d"
    "(f64_of_u32 n - sl_tokens (refill now l)) * (1 - eps64) ^ 2 - rate_of l / 2000000000 \<le> rate_of l * secs d"
    "rate_of l * secs d \<le> (f64_of_u32 n - sl_tokens (refill now l)) * (1 + eps64) ^ 2 + rate_of l / 2000000000"
    using False assms(2) by (auto simp: bucket_ok_def limiter_simps intro: wait_duration_Some[of "refill now l" n])
  then show thesis using False by (intro sleep) (simp_all add: try_ready_def Let_def)
qed

section \<open>A wait among other tasks\<close>

text \<open>
  The bucket \<open>l\<close> has come from \<open>l0\<close> by \<open>k\<close> operations that took nothing: unless it already holds the
  \<open>n\<close> tokens, it holds what \<open>l0\<close> held and what has accrued since, short of the rounding errors.
\<close>

definition undrained :: "nat \<Rightarrow> u32 \<Rightarrow> SimpleLimiter \<Rightarrow> SimpleLimiter \<Rightarrow> bool" where
  "undrained k n l0 l \<longleftrightarrow>
     bucket_ok l \<and> sl_rate_per_sec l = sl_rate_per_sec l0 \<and> sl_burst_size l = sl_burst_size l0 \<and>
     (f64_of_u32 n \<le> sl_tokens l \<or>
      sl_tokens l0 + rate_of l0 * secs (sl_last_update l - sl_last_update l0) * (1 - eps64) ^ 3 - of_nat k * drift l0 \<le> sl_tokens l)"

lemma undrained_refl: "bucket_ok l \<Longrightarrow> undrained 0 n l l"
  by (simp add: undrained_def secs_def)

lemma drift_nonneg: "0 \<le> drift l"
  using b64.eps_bounds(1) by (simp add: drift_def)

lemma undrained_mono: "undrained k n l0 l \<Longrightarrow> k \<le> k' \<Longrightarrow> undrained k' n l0 l"
  using mult_right_mono[of "of_nat k" "of_nat k' :: rat" "drift l0"] drift_nonneg[of l0]
  unfolding undrained_def by auto

lemma secs_diff_le: "secs (t - a) \<le> secs (t - b) + secs (b - a)"
proof -
  have "(of_nat (t - a) :: rat) \<le> of_nat ((t - b) + (b - a))" unfolding of_nat_le_iff by simp
  then show ?thesis by (simp add: secs_def add_divide_distrib[symmetric] divide_right_mono)
qed

text \<open>A refill at \<open>t\<close> brings it up to \<open>t\<close>.\<close>

lemma undrained_refill:
  assumes "undrained k n l0 l" "n \<le> sl_burst_size l0"
  shows "f64_of_u32 n \<le> sl_tokens (refill t l) \<or>
    sl_tokens l0 + rate_of l0 * secs (t - sl_last_update l0) * (1 - eps64) ^ 3 - of_nat k * drift l0 - burst_of l0 * eps64
      \<le> sl_tokens (refill t l)"
proof -
  let ?N = "f64_of_u32 n" and ?c = "(1 - eps64) ^ 3" and ?r = "rate_of l0"
  let ?y = "rate_of l * secs (t - sl_last_update l) * ?c"
  have c: "0 \<le> ?c" using b64.eps_bounds by simp
  have l: "bucket_ok l" "rate_of l = ?r" "n \<le> sl_burst_size l" "?N \<le> burst_of l0"
    using assms by (simp_all add: undrained_def f64_of_u32_mono)
  have y: "0 \<le> ?y" "?y \<le> fresh_tokens t l" using c fresh_tokens_lower by simp_all
  show ?thesis
  proof (cases "?N \<le> sl_tokens l + ?y")
    case True
    then show ?thesis using refill_reaches[OF l(3) y(2)] by simp
  next
    case False
    then have short: "\<not> ?N \<le> sl_tokens l" using y(1) by linarith
    have "?r * secs (t - sl_last_update l0) * ?c \<le> ?r * (secs (t - sl_last_update l) + secs (sl_last_update l - sl_last_update l0)) * ?c"
      using c by (intro mult_right_mono mult_left_mono secs_diff_le) simp_all
    then have "?r * secs (t - sl_last_update l0) * ?c \<le> ?y + ?r * secs (sl_last_update l - sl_last_update l0) * ?c"
      unfolding l(2) by (simp add: distrib_left distrib_right)
    moreover have "sl_tokens l0 + ?r * secs (sl_last_update l - sl_last_update l0) * ?c - of_nat k * drift l0 \<le> sl_tokens l"
      using assms(1) short by (simp add: undrained_def)
    moreover have "sl_tokens l + ?y - ?N * eps64 \<le> sl_tokens (refill t l)"
      using False l(1) by (intro refill_lower[OF l(3) _ y]) (simp_all add: bucket_ok_def)
    moreover have "?N * eps64 \<le> burst_of l0 * eps64" using l(4) b64.eps_bounds by (intro mult_right_mono) simp_all
    ultimately show ?thesis by linarith
  qed
qed

text \<open>An operation that takes nothing keeps it, a round that fails among them.\<close>

lemma undrained_after_refill:
  assumes "undrained k n l0 l" "n \<le> sl_burst_size l0"
  shows "f64_of_u32 n \<le> sl_tokens (refill t l) \<or>
    sl_tokens l0 + rate_of l0 * secs (sl_last_update (refill t l) - sl_last_update l0) * (1 - eps64) ^ 3
      - of_nat k * drift l0 - burst_of l0 * eps64 \<le> sl_tokens (refill t l)"
proof (cases rule: refill_cases[of t l])
  case idle
  have "0 \<le> burst_of l0 * eps64" using b64.eps_bounds by simp
  then show ?thesis using assms(1) idle by (auto simp: undrained_def)
next
  case filled
  then show ?thesis using undrained_refill[OF assms, of t] by simp
qed

lemma f64_of_u32_0 [simp]: "f64_of_u32 0 = 0"
  by (simp add: f64_of_u32_def)

lemma undrained_step:
  assumes "undrained k n l0 l" "n \<le> sl_burst_size l0" "fst (bucket_step x l) = 0"
  shows "undrained (Suc k) n l0 (snd (bucket_step x l))"
proof -
  let ?l1 = "refill (op_time x) l" and ?N = "f64_of_u32 n" and ?m = "op_size x"
  let ?l2 = "snd (bucket_step x l)"
  have b: "0 \<le> burst_of l0 * eps64" using b64.eps_bounds by simp
  have N: "?N * eps64 \<le> burst_of l0 * eps64"
    using assms(2) b64.eps_bounds by (intro mult_right_mono) (simp_all add: f64_of_u32_mono)
  have ok: "bucket_ok l" using assms(1) by (simp add: undrained_def)
  have T: "0 \<le> sl_tokens ?l1" using bucket_ok_refill[OF ok] by (simp add: bucket_ok_def)
  have last: "sl_last_update ?l2 = sl_last_update ?l1" by (simp add: bucket_step_withdraw limiter_simps)
  have l2: "sl_tokens ?l2 = sl_tokens ?l1 \<or> sl_tokens ?l2 = rnd (sl_tokens ?l1)"
    using assms(3) by (auto simp: bucket_step_withdraw withdraw_def unat_eq_zero split: if_splits)
  have up: "?N \<le> sl_tokens ?l1 \<Longrightarrow> ?N \<le> sl_tokens ?l2"
    using l2 b64.of_nat_le_rd[OF _ unat_u32_le, of n] by (auto simp: f64_of_u32_def)
  have low: "\<not> ?N \<le> sl_tokens ?l1 \<Longrightarrow> sl_tokens ?l1 - burst_of l0 * eps64 \<le> sl_tokens ?l2"
    using l2 b64.rd_lower_abs[OF T, of ?N] N b by auto
  have "?N \<le> sl_tokens ?l2 \<or>
    sl_tokens l0 + rate_of l0 * secs (sl_last_update ?l2 - sl_last_update l0) * (1 - eps64) ^ 3
      - of_nat k * drift l0 - drift l0 \<le> sl_tokens ?l2"
    using undrained_after_refill[OF assms(1,2), of "op_time x"] up low unfolding last drift_def by linarith
  then show ?thesis
    using assms(1) bucket_step_bound(1-3)[OF ok, of x] by (simp add: undrained_def algebra_simps)
qed

lemma undrained_run:
  assumes "undrained k n l0 l" "n \<le> sl_burst_size l0" "fst (bucket_run xs l) = 0"
  shows "undrained (k + length xs) n l0 (snd (bucket_run xs l))"
  using assms
proof (induction xs arbitrary: k l)
  case (Cons x xs)
  have "fst (bucket_step x l) = 0" "fst (bucket_run xs (snd (bucket_step x l))) = 0"
    using Cons.prems(3) by (simp_all add: split_beta Let_def)
  then show ?case using Cons.IH[OF undrained_step[OF Cons.prems(1,2)] Cons.prems(2)] by (simp add: split_beta Let_def)
qed simp

text \<open>So a round is granted once enough has accrued since \<open>l0\<close>, and otherwise it has taken nothing.\<close>

lemma undrained_round:
  assumes "undrained k n l0 l" "n \<le> sl_burst_size l0" "sl_rate_per_sec l0 \<noteq> 0"
  shows "(\<exists>l'. try_ready t n l = (Granted, l')) \<or>
    (\<exists>d. try_ready t n l = (Sleep d, refill t l)) \<and> undrained (Suc k) n l0 (refill t l) \<and>
      \<not> f64_of_u32 n + of_nat (Suc k) * drift l0 \<le> sl_tokens l0 + rate_of l0 * secs (t - sl_last_update l0) * (1 - eps64) ^ 3"
proof -
  have "bucket_ok l" "sl_rate_per_sec l \<noteq> 0" using assms by (simp_all add: undrained_def)
  then show ?thesis
  proof (cases rule: try_ready_cases[where n = n and now = t])
    case (sleep d)
    have "0 \<le> burst_of l0 * eps64" using b64.eps_bounds by simp
    then have "\<not> f64_of_u32 n + (of_nat k * drift l0 + drift l0) \<le>
        sl_tokens l0 + rate_of l0 * secs (t - sl_last_update l0) * (1 - eps64) ^ 3"
      using undrained_refill[OF assms(1,2), of t] sleep(1) unfolding drift_def by linarith
    moreover have "undrained (Suc k) n l0 (refill t l)"
      using undrained_step[OF assms(1,2), of "Round t n"] sleep(2) by simp
    ultimately show ?thesis using sleep(2) by (simp add: distrib_right add.commute)
  qed blast
qed

text \<open>Rounds among which no other task takes tokens, and the operations made in them.\<close>

fun quiet :: "(bucket_op list \<times> instant) list \<Rightarrow> u32 \<Rightarrow> SimpleLimiter \<Rightarrow> bool" where
  "quiet [] n l \<longleftrightarrow> True"
| "quiet ((others, now) # rounds) n l \<longleftrightarrow>
     fst (bucket_run others l) = 0 \<and> quiet rounds n (snd (try_ready now n (snd (bucket_run others l))))"

definition round_ops :: "(bucket_op list \<times> instant) list \<Rightarrow> nat" where
  "round_ops rounds = (\<Sum>(others, now) \<leftarrow> rounds. length others + 1)"

lemma quiet_wait_granted:
  assumes "undrained k n l0 l" "n \<le> sl_burst_size l0" "sl_rate_per_sec l0 \<noteq> 0" "quiet (rounds @ [(others, t)]) n l"
    "f64_of_u32 n + of_nat (k + round_ops (rounds @ [(others, t)])) * drift l0 \<le>
       sl_tokens l0 + rate_of l0 * secs (t - sl_last_update l0) * (1 - eps64) ^ 3"
  shows "\<exists>l'. until_n_ready (rounds @ [(others, t)]) n l = Some (Granted, l')"
  using assms
proof (induction rounds arbitrary: k l)
  case Nil
  then have "undrained (k + length others) n l0 (snd (bucket_run others l))" by (intro undrained_run) simp_all
  from undrained_round[OF this Nil.prems(2,3), of t] Nil.prems(5) show ?case by (auto simp: round_ops_def)
next
  case (Cons rd rounds)
  obtain others' now where rd: "rd = (others', now)" by (cases rd)
  have q: "fst (bucket_run others' l) = 0" "quiet (rounds @ [(others, t)]) n (snd (try_ready now n (snd (bucket_run others' l))))"
    using Cons.prems(4) by (simp_all add: rd)
  note u = undrained_run[OF Cons.prems(1,2) q(1)]
  show ?case
    using undrained_round[OF u Cons.prems(2,3), of now]
  proof (elim disjE exE conjE)
    fix d assume s: "try_ready now n (snd (bucket_run others' l)) = (Sleep d, refill now (snd (bucket_run others' l)))"
      and u1: "undrained (Suc (k + length others')) n l0 (refill now (snd (bucket_run others' l)))"
    have "\<exists>l'. until_n_ready (rounds @ [(others, t)]) n (refill now (snd (bucket_run others' l))) = Some (Granted, l')"
      using q(2) s Cons.prems(5) by (intro Cons.IH[OF u1 Cons.prems(2,3)]) (simp_all add: rd round_ops_def add.assoc)
    then show ?thesis using s by (simp add: rd)
  qed (simp add: rd)
qed

text \<open>The sleep and the slack after it bring the missing tokens.\<close>

lemma slept_long_enough:
  assumes "n \<le> sl_burst_size l" "0 \<le> sl_tokens l" "sl_rate_per_sec l \<noteq> 0" "0 < k"
    and d: "(f64_of_u32 n - sl_tokens l) * (1 - eps64) ^ 2 - rate_of l / 2000000000 \<le> rate_of l * secs d"
    and s: "rate_of l / 1000000000 + of_nat k * (10 * (burst_of l * eps64)) \<le> rate_of l * s" "secs d + s \<le> e"
    and "sl_tokens l \<le> f64_of_u32 n"
  shows "f64_of_u32 n + of_nat k * drift l \<le> sl_tokens l + rate_of l * e * (1 - eps64) ^ 3"
proof -
  define M where "M = f64_of_u32 n - sl_tokens l"
  define b where "b = burst_of l * eps64"
  define X where "X = of_nat k * b"
  define W where "W = rate_of l / 2000000000 + 10 * X"
  define c where "c = (1 - eps64) ^ 3"
  define q where "q = (1 - eps64) ^ 5"
  have c: "0 \<le> c" "99 / 100 \<le> c" "1 - 5 * eps64 \<le> q" by (simp_all add: c_def q_def eps64_def power_divide)
  have r: "1 \<le> rate_of l" using assms(3) by (rule f64_of_u32_pos)
  have b: "0 \<le> b" using b64.eps_bounds by (simp add: b_def)
  have "M * eps64 \<le> b"
    unfolding M_def b_def using assms(1,2) f64_of_u32_mono[of n "sl_burst_size l"] b64.eps_bounds
    by (intro mult_right_mono) simp_all
  moreover have "1 * b \<le> X" unfolding X_def using assms(4) b by (intro mult_right_mono) (simp_all add: Suc_le_eq)
  ultimately have X: "M * eps64 \<le> X" "0 \<le> X" using b by linarith+
  then have W: "0 \<le> W" "10 * X \<le> W" using r by (simp_all add: W_def)
  have "(M * (1 - eps64) ^ 2 + W) * c \<le> rate_of l * (secs d + s) * c"
    using c(1) d s(1) by (intro mult_right_mono) (simp_all add: distrib_left M_def W_def X_def b_def)
  also have "\<dots> \<le> rate_of l * e * c" using s(2) c(1) r by (intro mult_right_mono mult_left_mono) simp_all
  finally have "M * q + W * c \<le> rate_of l * e * c"
    by (simp add: c_def q_def distrib_right mult.assoc flip: power_add)
  moreover have "M * (1 - 5 * eps64) \<le> M * q" using c(3) assms(8) by (intro mult_left_mono) (simp_all add: M_def)
  then have "M - 5 * (M * eps64) \<le> M * q" by (simp add: algebra_simps)
  moreover have "W * (99 / 100) \<le> W * c" using c(2) W by (intro mult_left_mono)
  ultimately have "M + 2 * X \<le> rate_of l * e * c" using X W by linarith
  then show ?thesis by (simp add: M_def X_def b_def c_def drift_def)
qed

text \<open>
  C17. A wait for at most the burst sleeps for the right time. The sleep that a failing round asks for is the
  time the missing tokens take at the bucket's rate, up to half a nanosecond and two roundings. If no other
  task takes tokens after that round (other tasks may try, and the rounds may come at any clock readings),
  the wait is granted at the latest by the first round that comes later than the end of that sleep by one
  nanosecond and the time in which the rounding errors of the operations made since accrue. The lock is not
  held during the sleep: tasks that take tokens in it can delay the wait further.
\<close>

theorem until_n_ready_grants:
  assumes "bucket_ok l" "sl_rate_per_sec l \<noteq> 0" "n \<le> sl_burst_size l" "sl_last_update l \<le> t0"
    and "try_ready t0 n l = (Sleep d, l1)" "quiet (rounds @ [(others, t)]) n l1"
    and "rate_of l / 1000000000 + of_nat (round_ops (rounds @ [(others, t)])) * (10 * (burst_of l * eps64)) \<le>
      rate_of l * secs (t - (t0 + d))"
  shows "rate_of l * secs d \<le> (f64_of_u32 n - sl_tokens l1) * (1 + eps64) ^ 2 + rate_of l / 2000000000 \<and>
    (f64_of_u32 n - sl_tokens l1) * (1 - eps64) ^ 2 - rate_of l / 2000000000 \<le> rate_of l * secs d \<and>
    (\<exists>l'. until_n_ready (([], t0) # rounds @ [(others, t)]) n l = Some (Granted, l'))"
  using assms(1,2)
proof (cases rule: try_ready_cases[where n = n and now = t0])
  case (sleep d')
  let ?rs = "rounds @ [(others, t)]"
  have eq: "d' = d" "l1 = refill t0 l" using sleep(2) assms(5) by simp_all
  have l1: "bucket_ok l1" "sl_rate_per_sec l1 = sl_rate_per_sec l" "sl_burst_size l1 = sl_burst_size l" "sl_last_update l1 \<le> t0"
    using bucket_ok_refill[OF assms(1)] refill_last(2)[of t0 l] assms(4) by (simp_all add: eq limiter_simps)
  have r: "1 \<le> rate_of l" using assms(2) by (rule f64_of_u32_pos)
  have "0 < rate_of l / 1000000000" using r by simp
  moreover have "0 \<le> of_nat (round_ops ?rs) * (10 * (burst_of l * eps64))" using b64.eps_bounds by simp
  ultimately have "0 < rate_of l * secs (t - (t0 + d))" using assms(7) by linarith
  then have "t0 + d < t" by (cases "t0 + d < t") (simp_all add: secs_def)
  then have "secs (d + (t - (t0 + d))) \<le> secs (t - sl_last_update l1)" using l1(4) by (intro secs_mono) simp
  then have e: "secs d + secs (t - (t0 + d)) \<le> secs (t - sl_last_update l1)"
    by (simp add: secs_def add_divide_distrib)
  have "0 < round_ops ?rs" by (simp add: round_ops_def)
  from slept_long_enough[OF _ _ _ this _ _ e, of n l1] have
    "f64_of_u32 n + of_nat (0 + round_ops ?rs) * drift l1 \<le>
       sl_tokens l1 + rate_of l1 * secs (t - sl_last_update l1) * (1 - eps64) ^ 3"
    using l1 assms(2,3,7) sleep by (simp add: bucket_ok_def eq)
  from quiet_wait_granted[OF undrained_refl[OF l1(1)] _ _ assms(6) this]
  have "\<exists>l'. until_n_ready ?rs n l1 = Some (Granted, l')" using l1 assms(2,3) by simp
  then show ?thesis using assms(5) sleep eq by simp
qed (use assms(5) in simp)

text \<open>
  An empty bucket of 1024 tokens per second, asked for 16384: the round asks for 16 seconds. A second
  task tries for the whole burst halfway, in vain, and a round two nanoseconds after the sleep is granted.
\<close>

theorem until_n_ready_grants_witness:
  "let l = (new_limiter 1024 65536 0)\<lparr>sl_tokens := 0\<rparr>
   in try_ready 0 16384 l = (Sleep 16000000000, l) \<and>
      (\<exists>l'. until_n_ready [([], 0), ([Check 8000000000 65536], 16000000002)] 16384 l = Some (Granted, l'))"
proof -
  let ?l = "(new_limiter 1024 65536 0)\<lparr>sl_tokens := 0\<rparr>"
  have first: "try_ready 0 16384 ?l = (Sleep 16000000000, ?l)"
    by (simp add: try_ready_def refill_def wait_duration_def from_secs_f64_def round_half_even_def Let_def new_limiter_def f64_of_u32_def)
  have quiet: "quiet ([] @ [([Check 8000000000 65536], 16000000002)]) 16384 ?l"
    by (simp add: check_n_def refill_def Let_def new_limiter_def f64_of_u32_def as_secs_f64_def)
  have "\<exists>l'. until_n_ready (([], 0) # [] @ [([Check 8000000000 65536], 16000000002)]) 16384 ?l = Some (Granted, l')"
    by (rule until_n_ready_grants[OF _ _ _ _ first quiet, THEN conjunct2, THEN conjunct2])
      (simp_all add: new_limiter_def bucket_ok_def round_ops_def secs_def f64_of_u32_def eps64_def)
  with first show ?thesis by (simp add: Let_def)
qed

text \<open>
  Tasks that take the tokens in time keep a wait from ever being granted: at one token per second, when
  another task asks for the token right before each of its rounds, no number of rounds is enough.
\<close>

lemma wait_overtaken:
  "until_n_ready (map (\<lambda>i. ([Check (i * 1000000000) 1], i * 1000000000)) [Suc k ..< Suc (k + m)]) 1
     \<lparr>sl_rate_per_sec = 1, sl_burst_size = 1, sl_tokens = 0, sl_last_update = k * 1000000000\<rparr> = None"
proof (induction m arbitrary: k)
  case (Suc m)
  let ?t = "Suc k * 1000000000"
  let ?l = "\<lambda>t. \<lparr>sl_rate_per_sec = 1, sl_burst_size = 1, sl_tokens = 0, sl_last_update = t\<rparr>"
  have taken: "check_n ?t 1 (?l (k * 1000000000)) = (True, ?l ?t)"
    by (simp add: check_n_def refill_def Let_def f64_of_u32_def as_secs_f64_def)
  have "try_ready ?t 1 (?l ?t) = (Sleep 1000000000, ?l ?t)"
    by (simp add: try_ready_def refill_def wait_duration_def from_secs_f64_def round_half_even_def Let_def f64_of_u32_def)
  moreover have "[Suc k ..< Suc (k + Suc m)] = Suc k # [Suc (Suc k) ..< Suc (Suc k + m)]" by (simp add: upt_rec)
  ultimately show ?case using taken Suc.IH[of "Suc k"] by (simp del: upt_Suc mult_Suc)
qed simp

text \<open>
  C18. A wait for more than the burst never returns, however long it goes on and whatever the other tasks do:
  no round grants it and none panics. Every caller has to keep its requests within the burst.
\<close>

theorem until_n_ready_over_burst:
  assumes "sl_rate_per_sec l \<noteq> 0" "bucket_ok l" "sl_burst_size l < n"
  shows "until_n_ready rounds n l = None"
  using assms
proof (induction rounds arbitrary: l)
  case (Cons rd rounds)
  obtain others now where rd: "rd = (others, now)" by (cases rd)
  let ?l = "snd (bucket_run others l)"
  have l: "bucket_ok ?l" "sl_rate_per_sec ?l = sl_rate_per_sec l" "sl_burst_size ?l = sl_burst_size l"
    using bucket_run_bound[OF Cons.prems(2), of others] by (simp_all add: bucket_run_frame)
  have ok: "bucket_ok (refill now ?l)" using l(1) by (rule bucket_ok_refill)
  have "\<not> f64_of_u32 n \<le> burst_of ?l" using Cons.prems l(3) by (simp add: f64_of_u32_mono not_le)
  then have "\<not> f64_of_u32 n \<le> sl_tokens (refill now ?l)" using ok by (simp add: bucket_ok_def limiter_simps)
  then obtain d where "try_ready now n ?l = (Sleep d, refill now ?l)"
    using try_ready_cases[OF l(1), of n now] Cons.prems(1) l(2) by metis
  then show ?case using Cons.IH[of "refill now ?l"] Cons.prems ok l by (simp add: rd limiter_simps)
qed simp

theorem until_n_ready_over_burst_witness:
  "until_n_ready (map (\<lambda>i. ([Check i 1], i)) [0 ..< 1000]) 65537 (new_limiter 1024 65536 0) = None"
  by (rule until_n_ready_over_burst) (simp_all add: bucket_ok_new, simp_all add: new_limiter_def)

end
