(* ===== verification/Net_Addr.thy ===== *)
theory Net_Addr
  imports Prelude
begin

text \<open>
  The addresses of \<^verbatim>\<open>std::net\<close> that the sources use: their octets, their text form (the keys of
  the backend bandwidth limiters are client addresses as text) and the parser behind
  \<open>parse::<IpAddr>()\<close> and \<open>parse::<SocketAddr>()\<close> (the plain addresses of the access lists, and the
  addresses to listen on). Shown here: an IPv4 address and an IPv4 socket address parse back from
  their text forms.
\<close>

section \<open>Addresses\<close>

datatype Ipv4Addr = Ipv4Addr u8 u8 u8 u8

text \<open>An IPv6 address is its eight segments.\<close>

datatype Ipv6Addr = Ipv6Addr u16 u16 u16 u16 u16 u16 u16 u16

datatype IpAddr = V4 Ipv4Addr | V6 Ipv6Addr

text \<open>Flow label and scope of an IPv6 socket address are read nowhere and left out.\<close>

datatype SocketAddr = SocketV4 Ipv4Addr u16 | SocketV6 Ipv6Addr u16

fun ip_of :: "SocketAddr \<Rightarrow> IpAddr" where
  "ip_of (SocketV4 a p) = V4 a"
| "ip_of (SocketV6 a p) = V6 a"

fun port_of :: "SocketAddr \<Rightarrow> u16" where
  "port_of (SocketV4 a p) = p"
| "port_of (SocketV6 a p) = p"

text \<open>A 16-bit number in network byte order.\<close>

definition be16 :: "u16 \<Rightarrow> u8 list" where
  "be16 w = [ucast (drop_bit 8 w), ucast w]"

definition of_be16 :: "u8 \<Rightarrow> u8 \<Rightarrow> u16" where
  "of_be16 h l = of_nat (256 * unat h + unat l)"

lemma of_be16_be16: "of_be16 (ucast (drop_bit 8 w)) (ucast w) = w"
proof -
  have "unat (ucast (drop_bit 8 w) :: u8) = unat w div 256"
    using unat_less_2p[of w] by (simp add: unsigned_ucast_eq unsigned_drop_bit_eq drop_bit_eq_div take_bit_eq_mod unat_div)
  moreover have "unat (ucast w :: u8) = unat w mod 256"
    by (simp add: unsigned_ucast_eq take_bit_eq_mod)
  ultimately show ?thesis by (simp add: of_be16_def)
qed

lemma be16_inject: "be16 a = be16 b \<longleftrightarrow> a = b"
  unfolding be16_def by (metis list.inject of_be16_be16)

fun octets4 :: "Ipv4Addr \<Rightarrow> u8 list" where
  "octets4 (Ipv4Addr a b c d) = [a, b, c, d]"

fun segments :: "Ipv6Addr \<Rightarrow> u16 list" where
  "segments (Ipv6Addr a b c d e f g h) = [a, b, c, d, e, f, g, h]"

definition octets6 :: "Ipv6Addr \<Rightarrow> u8 list" where
  "octets6 a = concat (map be16 (segments a))"

text \<open>Reading octets back.\<close>

fun of_octets4 :: "u8 list \<Rightarrow> Ipv4Addr option" where
  "of_octets4 [a, b, c, d] = Some (Ipv4Addr a b c d)"
| "of_octets4 _ = None"

fun u16s_of :: "u8 list \<Rightarrow> u16 list" where
  "u16s_of (h # l # rest) = of_be16 h l # u16s_of rest"
| "u16s_of _ = []"

fun ipv6_of_segments :: "u16 list \<Rightarrow> Ipv6Addr option" where
  "ipv6_of_segments [a, b, c, d, e, f, g, h] = Some (Ipv6Addr a b c d e f g h)"
| "ipv6_of_segments _ = None"

definition of_octets6 :: "u8 list \<Rightarrow> Ipv6Addr option" where
  "of_octets6 bs = ipv6_of_segments (u16s_of bs)"

lemma of_octets4 [simp]: "of_octets4 (octets4 a) = Some a"
  by (cases a) simp

lemma u16s_of_be16: "u16s_of (concat (map be16 ws)) = ws"
  by (induction ws) (simp_all add: be16_def of_be16_be16)

lemma of_octets6 [simp]: "of_octets6 (octets6 a) = Some a"
  by (cases a) (simp add: of_octets6_def octets6_def u16s_of_be16 del: list.map)

lemma length_octets [simp]: "length (octets4 a) = 4" "length (octets6 b) = 16"
  by (cases a; simp) (cases b; simp add: octets6_def be16_def)

section \<open>Text\<close>

definition hex_digit :: "nat \<Rightarrow> char" where
  "hex_digit d = (if d < 10 then char_of (48 + d) else char_of (87 + d))"

fun hex_of_nat :: "nat \<Rightarrow> string" where
  "hex_of_nat n = (if n < 16 then [hex_digit n] else hex_of_nat (n div 16) @ [hex_digit (n mod 16)])"

declare hex_of_nat.simps [simp del]

fun display4 :: "Ipv4Addr \<Rightarrow> string" where
  "display4 (Ipv4Addr a b c d) =
     string_of_nat (unat a) @ ''.'' @ string_of_nat (unat b) @ ''.'' @
     string_of_nat (unat c) @ ''.'' @ string_of_nat (unat d)"

text \<open>The first longest run of zero segments, as start and length.\<close>

fun zero_span :: "nat \<Rightarrow> nat \<times> nat \<Rightarrow> nat \<times> nat \<Rightarrow> u16 list \<Rightarrow> nat \<times> nat" where
  "zero_span i cur best [] = best"
| "zero_span i cur best (s # ss) =
     (if s = 0 then
        let cur1 = (if snd cur = 0 then (i, 1) else (fst cur, snd cur + 1))
        in zero_span (Suc i) cur1 (if snd best < snd cur1 then cur1 else best) ss
      else zero_span (Suc i) (0, 0) best ss)"

fun hex_groups :: "u16 list \<Rightarrow> string" where
  "hex_groups [] = []"
| "hex_groups [s] = hex_of_nat (unat s)"
| "hex_groups (s # ss) = hex_of_nat (unat s) @ '':'' @ hex_groups ss"

definition display6 :: "Ipv6Addr \<Rightarrow> string" where
  "display6 a =
     (let ss = segments a in
      if take 6 ss = [0, 0, 0, 0, 0, 0xFFFF] then
        ''::ffff:'' @ display4 (Ipv4Addr (ucast (drop_bit 8 (ss ! 6))) (ucast (ss ! 6))
          (ucast (drop_bit 8 (ss ! 7))) (ucast (ss ! 7)))
      else let (start, len) = zero_span 0 (0, 0) (0, 0) ss in
        if 1 < len then hex_groups (take start ss) @ ''::'' @ hex_groups (drop (start + len) ss)
        else hex_groups ss)"

fun display_ip :: "IpAddr \<Rightarrow> string" where
  "display_ip (V4 a) = display4 a"
| "display_ip (V6 a) = display6 a"

section \<open>Parsing\<close>

text \<open>A reader takes a prefix of the input, or fails and leaves the input as it was.\<close>

type_synonym 'a reader = "string \<Rightarrow> ('a \<times> string) option"

definition digit_of :: "nat \<Rightarrow> char \<Rightarrow> nat option" where
  "digit_of radix c =
     (let n = of_char c :: nat;
          v = (if 48 \<le> n \<and> n \<le> 57 then Some (n - 48)
               else if 97 \<le> n \<and> n \<le> 122 then Some (n - 87)
               else if 65 \<le> n \<and> n \<le> 90 then Some (n - 55) else None)
      in case v of Some d \<Rightarrow> if d < radix then Some d else None | None \<Rightarrow> None)"

text \<open>The digits at the front; \<open>None\<close> on overflow of the type or too many digits.\<close>

fun read_digits :: "nat \<Rightarrow> nat \<Rightarrow> nat option \<Rightarrow> nat \<Rightarrow> nat \<Rightarrow> string \<Rightarrow> (nat \<times> nat \<times> string) option" where
  "read_digits radix bound max_digits acc k [] = Some (acc, k, [])"
| "read_digits radix bound max_digits acc k (c # cs) =
     (case digit_of radix c of
        None \<Rightarrow> Some (acc, k, c # cs)
      | Some d \<Rightarrow>
          if bound \<le> acc * radix + d then None
          else if (case max_digits of Some m \<Rightarrow> m < Suc k | None \<Rightarrow> False) then None
          else read_digits radix bound max_digits (acc * radix + d) (Suc k) cs)"

definition read_number :: "nat \<Rightarrow> nat \<Rightarrow> nat option \<Rightarrow> bool \<Rightarrow> nat reader" where
  "read_number radix bound max_digits allow_zero_prefix s =
     (case read_digits radix bound max_digits 0 0 s of
        None \<Rightarrow> None
      | Some (n, k, rest) \<Rightarrow>
          if k = 0 then None
          else if \<not> allow_zero_prefix \<and> take 1 s = ''0'' \<and> 1 < k then None
          else Some (n, rest))"

definition read_given_char :: "char \<Rightarrow> unit reader" where
  "read_given_char c s = (case s of x # xs \<Rightarrow> if x = c then Some ((), xs) else None | [] \<Rightarrow> None)"

text \<open>The item at position \<open>i\<close> of a list with separators.\<close>

definition read_separator :: "char \<Rightarrow> nat \<Rightarrow> 'a reader \<Rightarrow> 'a reader" where
  "read_separator sep i inner s =
     (if 0 < i then (case read_given_char sep s of Some (_, s1) \<Rightarrow> inner s1 | None \<Rightarrow> None) else inner s)"

fun read_octets :: "nat \<Rightarrow> nat \<Rightarrow> u8 list reader" where
  "read_octets i 0 s = Some ([], s)"
| "read_octets i (Suc k) s =
     (case read_separator (CHR ''.'') i (read_number 10 256 (Some 3) False) s of
        None \<Rightarrow> None
      | Some (n, s1) \<Rightarrow> (case read_octets (Suc i) k s1 of
            None \<Rightarrow> None
          | Some (ns, s2) \<Rightarrow> Some (of_nat n # ns, s2)))"

definition read_ipv4 :: "Ipv4Addr reader" where
  "read_ipv4 s =
     (case read_octets 0 4 s of
        Some ([a, b, c, d], rest) \<Rightarrow> Some (Ipv4Addr a b c d, rest)
      | _ \<Rightarrow> None)"

text \<open>
  \<open>read_groups\<close>: up to \<open>left\<close> groups from position \<open>i\<close> on; the flag says that the last two came
  from an embedded IPv4 address.
\<close>

fun read_groups :: "nat \<Rightarrow> nat \<Rightarrow> string \<Rightarrow> u16 list \<times> bool \<times> string" where
  "read_groups i 0 s = ([], False, s)"
| "read_groups i (Suc left) s =
     (case (if 0 < left then read_separator (CHR '':'') i read_ipv4 s else None) of
        Some (Ipv4Addr a b c d, rest) \<Rightarrow> ([of_be16 a b, of_be16 c d], True, rest)
      | None \<Rightarrow> (case read_separator (CHR '':'') i (read_number 16 65536 (Some 4) True) s of
            None \<Rightarrow> ([], False, s)
          | Some (g, s1) \<Rightarrow> (case read_groups (Suc i) left s1 of (gs, v4, s2) \<Rightarrow> (of_nat g # gs, v4, s2))))"

definition read_ipv6 :: "Ipv6Addr reader" where
  "read_ipv6 s =
     (case read_groups 0 8 s of (head, head_ipv4, s1) \<Rightarrow>
        if length head = 8 then map_option (\<lambda>a. (a, s1)) (ipv6_of_segments head)
        else if head_ipv4 then None
        else case read_given_char (CHR '':'') s1 of
            None \<Rightarrow> None
          | Some (_, s2) \<Rightarrow> (case read_given_char (CHR '':'') s2 of
                None \<Rightarrow> None
              | Some (_, s3) \<Rightarrow> (case read_groups 0 (8 - (length head + 1)) s3 of (tail, _, s4) \<Rightarrow>
                    map_option (\<lambda>a. (a, s4))
                      (ipv6_of_segments (head @ replicate (8 - length head - length tail) 0 @ tail)))))"

definition read_ip :: "IpAddr reader" where
  "read_ip s =
     (case read_ipv4 s of
        Some (a, rest) \<Rightarrow> Some (V4 a, rest)
      | None \<Rightarrow> map_option (\<lambda>(a, rest). (V6 a, rest)) (read_ipv6 s))"

text \<open>A whole string is an address when nothing is left over.\<close>

definition parse_with :: "'a reader \<Rightarrow> string \<Rightarrow> 'a option" where
  "parse_with inner s = (case inner s of Some (x, []) \<Rightarrow> Some x | _ \<Rightarrow> None)"

definition parse_ip :: "string \<Rightarrow> IpAddr option" where
  "parse_ip = parse_with read_ip"

definition read_port :: "u16 reader" where
  "read_port s =
     (case read_given_char (CHR '':'') s of
        None \<Rightarrow> None
      | Some (_, s1) \<Rightarrow> map_option (\<lambda>(n, rest). (of_nat n, rest)) (read_number 10 65536 None True s1))"

definition read_socket_v4 :: "SocketAddr reader" where
  "read_socket_v4 s =
     (case read_ipv4 s of
        None \<Rightarrow> None
      | Some (a, s1) \<Rightarrow> map_option (\<lambda>(p, rest). (SocketV4 a p, rest)) (read_port s1))"

text \<open>The scope of an IPv6 socket address, \<open>%\<close> and a number, is optional.\<close>

definition read_scope :: "string \<Rightarrow> string" where
  "read_scope s =
     (case read_given_char (CHR ''%'') s of
        None \<Rightarrow> s
      | Some (_, s1) \<Rightarrow> (case read_number 10 (2 ^ 32) None True s1 of Some (_, rest) \<Rightarrow> rest | None \<Rightarrow> s))"

definition read_socket_v6 :: "SocketAddr reader" where
  "read_socket_v6 s =
     (case read_given_char (CHR ''['') s of
        None \<Rightarrow> None
      | Some (_, s1) \<Rightarrow> (case read_ipv6 s1 of
            None \<Rightarrow> None
          | Some (a, s2) \<Rightarrow> (case read_given_char (CHR '']'') (read_scope s2) of
                None \<Rightarrow> None
              | Some (_, s3) \<Rightarrow> map_option (\<lambda>(p, rest). (SocketV6 a p, rest)) (read_port s3))))"

definition parse_socket :: "string \<Rightarrow> SocketAddr option" where
  "parse_socket =
     parse_with (\<lambda>s. case read_socket_v4 s of Some r \<Rightarrow> Some r | None \<Rightarrow> read_socket_v6 s)"

text \<open>\<open>str::parse\<close> for an unsigned integer below \<open>bound\<close>: an optional plus sign and decimal digits.\<close>

definition parse_uint :: "nat \<Rightarrow> string \<Rightarrow> nat option" where
  "parse_uint bound s =
     (case read_digits 10 bound None 0 0 (if take 1 s = ''+'' then drop 1 s else s) of
        Some (n, k, []) \<Rightarrow> if k = 0 then None else Some n
      | _ \<Rightarrow> None)"

section \<open>Round trips\<close>

text \<open>A string that does not go on with a digit.\<close>

definition ends_number :: "string \<Rightarrow> bool" where
  "ends_number s \<longleftrightarrow> (case s of [] \<Rightarrow> True | c # _ \<Rightarrow> digit_of 10 c = None)"

lemma digit_of_digit_char [simp]: "d < 10 \<Longrightarrow> digit_of 10 (digit_char d) = Some d"
  by (simp add: digit_of_def digit_char_def Let_def)

lemma read_digits_end: "ends_number s \<Longrightarrow> read_digits 10 bound m acc k s = Some (acc, k, s)"
  by (cases s) (simp_all add: ends_number_def)

lemma string_of_nat_Nil [simp]: "string_of_nat n \<noteq> []"
  by (simp add: string_of_nat.simps[of n])

lemma read_digits_append:
  assumes "n < bound" "case md of Some m \<Rightarrow> length (string_of_nat n) \<le> m | None \<Rightarrow> True"
  shows "read_digits 10 bound md 0 0 (string_of_nat n @ rest) =
    read_digits 10 bound md n (length (string_of_nat n)) rest"
  using assms
proof (induction n arbitrary: rest rule: string_of_nat.induct)
  case (1 n)
  show ?case
  proof (cases "n < 10")
    case True
    then show ?thesis using 1 by (auto simp: string_of_nat.simps[of n] split: option.splits)
  next
    case False
    have "case md of Some m \<Rightarrow> length (string_of_nat (n div 10)) \<le> m | None \<Rightarrow> True"
      using 1(3) False by (simp add: string_of_nat.simps[of n] split: option.splits)
    from 1(1)[OF False _ this, of "digit_char (n mod 10) # rest"] 1(2,3) False
    show ?thesis by (auto simp: string_of_nat.simps[of n] split: option.splits)
  qed
qed

text \<open>The text form has no leading zero unless it is \<open>0\<close>.\<close>

lemma string_of_nat_hd: "take 1 (string_of_nat n @ s) = ''0'' \<longleftrightarrow> n = 0"
proof (induction n rule: string_of_nat.induct)
  case (1 n)
  have "CHR ''0'' = digit_char 0" by code_simp
  then have dc: "digit_char d = CHR ''0'' \<longleftrightarrow> d = 0" if "d < 10" for d
    using that digit_of_digit_char[of d] digit_of_digit_char[of 0] by (metis option.inject zero_less_numeral)
  show ?case
  proof (cases "n < 10")
    case True
    then show ?thesis using dc by (simp add: string_of_nat.simps[of n])
  next
    case False
    then show ?thesis using 1[OF False] by (cases "string_of_nat (n div 10)") (simp_all add: string_of_nat.simps[of n])
  qed
qed

lemma string_of_nat_length_1: "1 < length (string_of_nat n) \<Longrightarrow> n \<noteq> 0"
  by (cases "n = 0") (simp_all add: string_of_nat.simps[of 0])

lemma read_number_text:
  assumes "n < bound" "case md of Some m \<Rightarrow> length (string_of_nat n) \<le> m | None \<Rightarrow> True" "ends_number rest"
  shows "read_number 10 bound md z (string_of_nat n @ rest) = Some (n, rest)"
  unfolding read_number_def read_digits_append[OF assms(1,2)] read_digits_end[OF assms(3)]
  using string_of_nat_hd[of n rest] string_of_nat_length_1[of n] by auto

lemma string_of_u8_length: "n < 256 \<Longrightarrow> length (string_of_nat n) \<le> 3"
  by (simp add: string_of_nat.simps[of n] string_of_nat.simps[of "n div 10"] string_of_nat.simps[of "n div 10 div 10"])

lemma ends_number_simps [simp]:
  "ends_number []" "ends_number (CHR ''.'' # s)" "ends_number (CHR '':'' # s)" "ends_number (CHR ''/'' # s)"
  by (simp_all add: ends_number_def digit_of_def)

lemma read_octet_text:
  "ends_number rest \<Longrightarrow> read_number 10 256 (Some 3) False (string_of_nat (unat (a :: u8)) @ rest) = Some (unat a, rest)"
  using unat_less_2p[of a] by (intro read_number_text) (simp_all add: string_of_u8_length)

lemma read_ipv4_text:
  assumes "ends_number rest"
  shows "read_ipv4 (display4 a @ rest) = Some (a, rest)"
proof (cases a)
  case (Ipv4Addr a b c d)
  have four: "4 = Suc (Suc (Suc (Suc 0)))" by simp
  show ?thesis using assms Ipv4Addr unfolding read_ipv4_def four
    by (simp add: read_separator_def read_given_char_def read_octet_text)
qed

lemma parse_ip_display4: "parse_ip (display4 a) = Some (V4 a)"
  using read_ipv4_text[of "[]" a] by (simp add: parse_ip_def parse_with_def read_ip_def)

text \<open>Two IPv4 addresses with the same text are the same.\<close>

lemma display4_inject: "display4 a = display4 b \<longleftrightarrow> a = b"
  by (metis parse_ip_display4 option.inject IpAddr.inject(1))

lemma parse_socket_display4: "parse_socket (display4 a @ '':'' @ string_of_nat (unat p)) = Some (SocketV4 a p)"
proof -
  have "read_number 10 65536 None True (string_of_nat (unat p) @ []) = Some (unat p, [])"
    using unat_less_2p[of p] by (intro read_number_text) simp_all
  then show ?thesis using read_ipv4_text[of "'':'' @ string_of_nat (unat p)" a]
    by (simp add: parse_socket_def parse_with_def read_socket_v4_def read_port_def read_given_char_def)
qed

lemma parse_uint_text: "n < bound \<Longrightarrow> parse_uint bound (string_of_nat n) = Some n"
proof -
  assume n: "n < bound"
  have "take 1 (string_of_nat n) \<noteq> ''+''"
  proof (induction n rule: string_of_nat.induct)
    case (1 n)
    have d: "digit_char d \<noteq> CHR ''+''" if "d < 10" for d
      using digit_of_digit_char[OF that] by (auto simp: digit_of_def)
    show ?case
    proof (cases "n < 10")
      case True
      then show ?thesis using d by (simp add: string_of_nat.simps[of n])
    next
      case False
      then show ?thesis using 1[OF False] by (cases "string_of_nat (n div 10)") (simp_all add: string_of_nat.simps[of n])
    qed
  qed
  moreover have "read_digits 10 bound None 0 0 (string_of_nat n) = Some (n, length (string_of_nat n), [])"
    using read_digits_append[OF n, of None "[]"] by simp
  ultimately show ?thesis by (simp add: parse_uint_def)
qed

end
