(* ===== verification/Limiters.thy ===== *)
theory Limiters
  imports Limiter Net_Addr Config
begin

text \<open>
  The two registries of token buckets (\<^verbatim>\<open>src/traffic/limiter.rs\<close>). \<open>RateLimiter\<close> keeps one bucket
  per client address and takes one token per connection; \<open>BandwidthManager\<close> keeps four tables of
  shared buckets, handed out by reference to the connections that use them. Shown here: clients do
  not affect each other, a client is admitted exactly up to its burst at one instant and within the
  rate bound over time, a client that keeps its distance is always admitted, and the tables hand out
  one bucket per client and direction, the same for all of its connections.
\<close>

section \<open>Connection rate\<close>

record RateLimiter =
  rlm_limiters :: "IpAddr \<rightharpoonup> SimpleLimiter"
  rlm_config :: RateLimitConfig

definition new_rate_limiter :: "RateLimitConfig \<Rightarrow> RateLimiter" where
  "new_rate_limiter config = \<lparr>rlm_limiters = Map.empty, rlm_config = config\<rparr>"

text \<open>\<open>entry(ip).or_insert_with(..)\<close>: the bucket of the address, created full at \<open>now\<close>.\<close>

definition limiter_entry :: "instant \<Rightarrow> IpAddr \<Rightarrow> RateLimiter \<Rightarrow> SimpleLimiter" where
  "limiter_entry now ip rl =
     (case rlm_limiters rl ip of
        Some l \<Rightarrow> l
      | None \<Rightarrow> new_limiter (max (rl_requests_per_second (rlm_config rl)) 1) (max (rl_burst (rlm_config rl)) 1) now)"

text \<open>
  \<open>check\<close> reads the clock twice, in \<open>SimpleLimiter::new\<close> at \<open>now0\<close> (when the entry is missing) and
  in \<open>refill\<close> at \<open>now1\<close>.
\<close>

definition rl_check :: "instant \<Rightarrow> instant \<Rightarrow> IpAddr \<Rightarrow> RateLimiter \<Rightarrow> bool \<times> RateLimiter" where
  "rl_check now0 now1 ip rl =
     (if \<not> rl_enabled (rlm_config rl) then (True, rl)
      else let limiter = limiter_entry now0 ip rl; (ok, limiter1) = check_n now1 1 limiter
           in (ok, rl\<lparr>rlm_limiters := (rlm_limiters rl)(ip \<mapsto> limiter1)\<rparr>))"

text \<open>A sequence of connection attempts: the verdicts and the final state.\<close>

record arrival =
  ar_new :: instant
  ar_time :: instant
  ar_ip :: IpAddr

fun rl_run :: "arrival list \<Rightarrow> RateLimiter \<Rightarrow> bool list \<times> RateLimiter" where
  "rl_run [] rl = ([], rl)"
| "rl_run (a # as) rl =
     (let (ok, rl1) = rl_check (ar_new a) (ar_time a) (ar_ip a) rl; (oks, rl2) = rl_run as rl1
      in (ok # oks, rl2))"

text \<open>How many attempts of a client were admitted.\<close>

definition admitted :: "IpAddr \<Rightarrow> arrival list \<Rightarrow> RateLimiter \<Rightarrow> nat" where
  "admitted ip as rl = length (filter (\<lambda>(a, ok). ar_ip a = ip \<and> ok) (zip as (fst (rl_run as rl))))"

section \<open>Bandwidth\<close>

text \<open>Buckets are shared between connections by reference: a reference is a position in the heap.\<close>

type_synonym limiter_ref = nat
type_synonym limiter_heap = "SimpleLimiter list"

record BandwidthManager =
  bm_config :: BandwidthLimitConfig
  bm_client_upload :: "IpAddr \<rightharpoonup> limiter_ref"
  bm_client_download :: "IpAddr \<rightharpoonup> limiter_ref"
  bm_backend_upload :: "string \<rightharpoonup> limiter_ref"
  bm_backend_download :: "string \<rightharpoonup> limiter_ref"

definition new_bandwidth_manager :: "BandwidthLimitConfig \<Rightarrow> BandwidthManager" where
  "new_bandwidth_manager config =
     \<lparr>bm_config = config, bm_client_upload = Map.empty, bm_client_download = Map.empty,
      bm_backend_upload = Map.empty, bm_backend_download = Map.empty\<rparr>"

definition get_or_create_limiter ::
  "instant \<Rightarrow> ('k \<rightharpoonup> limiter_ref) \<Rightarrow> 'k \<Rightarrow> u32 \<Rightarrow> limiter_heap \<Rightarrow> limiter_ref \<times> ('k \<rightharpoonup> limiter_ref) \<times> limiter_heap" where
  "get_or_create_limiter now m key rate_per_sec heap =
     (case m key of
        Some r \<Rightarrow> (r, m, heap)
      | None \<Rightarrow> (length heap, m(key \<mapsto> length heap), heap @ [new_limiter (max rate_per_sec 1024) 65536 now]))"

definition get_client_upload_limiter ::
  "instant \<Rightarrow> IpAddr \<Rightarrow> BandwidthManager \<times> limiter_heap \<Rightarrow> limiter_ref option \<times> BandwidthManager \<times> limiter_heap" where
  "get_client_upload_limiter now ip = (\<lambda>(bm, heap).
     if \<not> bw_enabled (bm_config bm) then (None, bm, heap)
     else case bw_client (bm_config bm) of
        None \<Rightarrow> (None, bm, heap)
      | Some limits \<Rightarrow>
          let (r, m, heap1) = get_or_create_limiter now (bm_client_upload bm) ip (cb_upload_per_sec limits) heap
          in (Some r, bm\<lparr>bm_client_upload := m\<rparr>, heap1))"

definition get_client_download_limiter ::
  "instant \<Rightarrow> IpAddr \<Rightarrow> BandwidthManager \<times> limiter_heap \<Rightarrow> limiter_ref option \<times> BandwidthManager \<times> limiter_heap" where
  "get_client_download_limiter now ip = (\<lambda>(bm, heap).
     if \<not> bw_enabled (bm_config bm) then (None, bm, heap)
     else case bw_client (bm_config bm) of
        None \<Rightarrow> (None, bm, heap)
      | Some limits \<Rightarrow>
          let (r, m, heap1) = get_or_create_limiter now (bm_client_download bm) ip (cb_download_per_sec limits) heap
          in (Some r, bm\<lparr>bm_client_download := m\<rparr>, heap1))"

definition get_backend_upload_limiter ::
  "instant \<Rightarrow> string \<Rightarrow> BandwidthManager \<times> limiter_heap \<Rightarrow> limiter_ref option \<times> BandwidthManager \<times> limiter_heap" where
  "get_backend_upload_limiter now key = (\<lambda>(bm, heap).
     if \<not> bw_enabled (bm_config bm) then (None, bm, heap)
     else case bw_backend (bm_config bm) of
        None \<Rightarrow> (None, bm, heap)
      | Some limits \<Rightarrow>
          let (r, m, heap1) = get_or_create_limiter now (bm_backend_upload bm) key (bb_upload_per_sec limits) heap
          in (Some r, bm\<lparr>bm_backend_upload := m\<rparr>, heap1))"

definition get_backend_download_limiter ::
  "instant \<Rightarrow> string \<Rightarrow> BandwidthManager \<times> limiter_heap \<Rightarrow> limiter_ref option \<times> BandwidthManager \<times> limiter_heap" where
  "get_backend_download_limiter now key = (\<lambda>(bm, heap).
     if \<not> bw_enabled (bm_config bm) then (None, bm, heap)
     else case bw_backend (bm_config bm) of
        None \<Rightarrow> (None, bm, heap)
      | Some limits \<Rightarrow>
          let (r, m, heap1) = get_or_create_limiter now (bm_backend_download bm) key (bb_download_per_sec limits) heap
          in (Some r, bm\<lparr>bm_backend_download := m\<rparr>, heap1))"

section \<open>Clients do not affect each other\<close>

lemma rl_check_frame:
  "rlm_config (snd (rl_check t0 t1 ip rl)) = rlm_config rl"
  "ip' \<noteq> ip \<Longrightarrow> rlm_limiters (snd (rl_check t0 t1 ip rl)) ip' = rlm_limiters rl ip'"
  by (simp_all add: rl_check_def Let_def split_beta)

lemma rl_run_config [simp]: "rlm_config (snd (rl_run as rl)) = rlm_config rl"
  by (induction as arbitrary: rl) (simp_all add: Let_def split_beta rl_check_frame)

lemma length_rl_run [simp]: "length (fst (rl_run as rl)) = length as"
  by (induction as arbitrary: rl) (simp_all add: Let_def split_beta)

text \<open>A verdict depends on the configuration and the client's own bucket only.\<close>

lemma rl_check_local:
  assumes "rlm_config rl = rlm_config rl'" "rlm_limiters rl ip = rlm_limiters rl' ip"
  shows "fst (rl_check t0 t1 ip rl) = fst (rl_check t0 t1 ip rl')"
    "rlm_limiters (snd (rl_check t0 t1 ip rl)) ip = rlm_limiters (snd (rl_check t0 t1 ip rl')) ip"
proof -
  have "limiter_entry t0 ip rl = limiter_entry t0 ip rl'" unfolding limiter_entry_def assms ..
  then show "fst (rl_check t0 t1 ip rl) = fst (rl_check t0 t1 ip rl')"
    "rlm_limiters (snd (rl_check t0 t1 ip rl)) ip = rlm_limiters (snd (rl_check t0 t1 ip rl')) ip"
    using assms by (simp_all add: rl_check_def Let_def split_beta)
qed

lemma rl_run_isolated:
  assumes "rlm_config rl = rlm_config rl'" "rlm_limiters rl ip = rlm_limiters rl' ip"
  shows "filter (\<lambda>(a, ok). ar_ip a = ip) (zip as (fst (rl_run as rl))) =
      (let own = filter (\<lambda>a. ar_ip a = ip) as in zip own (fst (rl_run own rl')))"
  using assms
proof (induction as arbitrary: rl rl')
  case (Cons a as)
  let ?rl1 = "snd (rl_check (ar_new a) (ar_time a) (ar_ip a) rl)"
  let ?rl1' = "snd (rl_check (ar_new a) (ar_time a) (ar_ip a) rl')"
  show ?case
  proof (cases "ar_ip a = ip")
    case True
    have "rlm_config ?rl1 = rlm_config ?rl1'" "rlm_limiters ?rl1 ip = rlm_limiters ?rl1' ip"
      using Cons.prems True rl_check_local(2)[of rl rl' ip] by (simp_all add: rl_check_frame(1))
    from Cons.IH[OF this] show ?thesis using True rl_check_local(1)[OF Cons.prems]
      by (simp add: Let_def split_beta)
  next
    case False
    have "rlm_config ?rl1 = rlm_config rl'" "rlm_limiters ?rl1 ip = rlm_limiters rl' ip"
      using Cons.prems False by (simp_all add: rl_check_frame)
    from Cons.IH[OF this] show ?thesis using False by (simp add: Let_def split_beta)
  qed
qed simp

text \<open>
  C20. Clients do not affect each other: the verdicts on one client's attempts are the ones it would get
  if the other clients did not exist.
\<close>

theorem clients_isolated:
  "filter (\<lambda>(a, ok). ar_ip a = ip) (zip as (fst (rl_run as rl))) =
     (let own = filter (\<lambda>a. ar_ip a = ip) as in zip own (fst (rl_run own rl)))"
  by (rule rl_run_isolated) simp_all

section \<open>One client over time\<close>

abbreviation own :: "IpAddr \<Rightarrow> arrival list \<Rightarrow> arrival list" where
  "own ip as \<equiv> filter (\<lambda>a. ar_ip a = ip) as"

lemma admitted_own: "admitted ip as rl = length (filter id (fst (rl_run (own ip as) rl)))"
proof -
  have "filter (\<lambda>(a, ok). ar_ip a = ip \<and> ok) (zip as (fst (rl_run as rl))) =
      filter snd (filter (\<lambda>(a, ok). ar_ip a = ip) (zip as (fst (rl_run as rl))))"
    by (auto intro!: filter_cong)
  also have "\<dots> = filter snd (zip (own ip as) (fst (rl_run (own ip as) rl)))"
    unfolding rl_run_isolated[OF refl refl] Let_def ..
  finally have "admitted ip as rl = length (map snd (filter snd (zip (own ip as) (fst (rl_run (own ip as) rl)))))"
    by (simp add: admitted_def)
  also have "map snd (filter snd (zip (own ip as) (fst (rl_run (own ip as) rl)))) = filter id (fst (rl_run (own ip as) rl))"
    unfolding id_def by (simp flip: filter_map[unfolded comp_def, of "\<lambda>x. x" snd])
  finally show ?thesis .
qed

text \<open>Once the client has a bucket, its attempts are operations on that bucket.\<close>

lemma rl_run_bucket:
  assumes "rl_enabled (rlm_config rl)" "rlm_limiters rl ip = Some l" "\<forall>a \<in> set as. ar_ip a = ip"
  shows "length (filter id (fst (rl_run as rl))) = fst (bucket_run (map (\<lambda>a. Check (ar_time a) 1) as) l)"
  using assms
proof (induction as arbitrary: rl l)
  case (Cons a as)
  obtain ok l1 where c: "check_n (ar_time a) 1 l = (ok, l1)" by (cases "check_n (ar_time a) 1 l")
  then have r: "rl_check (ar_new a) (ar_time a) (ar_ip a) rl = (ok, rl\<lparr>rlm_limiters := (rlm_limiters rl)(ip \<mapsto> l1)\<rparr>)"
    using Cons.prems by (simp add: rl_check_def limiter_entry_def)
  show ?case using Cons.IH[of "rl\<lparr>rlm_limiters := (rlm_limiters rl)(ip \<mapsto> l1)\<rparr>" l1] Cons.prems r c
    by (simp add: Let_def split_beta)
qed simp

text \<open>The first attempt creates the bucket.\<close>

abbreviation rate_conf :: "RateLimitConfig \<Rightarrow> u32" where
  "rate_conf c \<equiv> max (rl_requests_per_second c) 1"

abbreviation burst_conf :: "RateLimitConfig \<Rightarrow> u32" where
  "burst_conf c \<equiv> max (rl_burst c) 1"

lemma limiter_entry_insert:
  assumes "rl_enabled (rlm_config rl)"
  shows "rl_check t0 t1 ip (rl\<lparr>rlm_limiters := (rlm_limiters rl)(ip \<mapsto> limiter_entry t0 ip rl)\<rparr>) = rl_check t0 t1 ip rl"
  using assms by (simp add: rl_check_def limiter_entry_def Let_def split_beta split: option.split)

lemma rl_run_new:
  assumes "rl_enabled c" "\<forall>x \<in> set (a # as). ar_ip x = ip"
  shows "length (filter id (fst (rl_run (a # as) (new_rate_limiter c)))) =
    fst (bucket_run (map (\<lambda>a. Check (ar_time a) 1) (a # as)) (new_limiter (rate_conf c) (burst_conf c) (ar_new a)))"
proof -
  let ?rl = "new_rate_limiter c"
  let ?rl' = "?rl\<lparr>rlm_limiters := (rlm_limiters ?rl)(ip \<mapsto> limiter_entry (ar_new a) ip ?rl)\<rparr>"
  have "rl_run (a # as) ?rl = rl_run (a # as) ?rl'"
    using assms limiter_entry_insert[of ?rl "ar_new a" "ar_time a" ip] by (simp add: new_rate_limiter_def)
  moreover have "limiter_entry (ar_new a) ip ?rl = new_limiter (rate_conf c) (burst_conf c) (ar_new a)"
    by (simp add: limiter_entry_def new_rate_limiter_def)
  ultimately show ?thesis using rl_run_bucket[of ?rl' ip _ "a # as"] assms by (simp add: new_rate_limiter_def)
qed

lemma client_rate_le:
  assumes "rl_enabled c" "\<forall>a \<in> set (own ip as). t0 \<le> ar_new a \<and> ar_new a \<le> t \<and> ar_time a \<le> t"
  shows "of_nat (admitted ip as (new_rate_limiter c)) \<le>
    f64_of_u32 (burst_conf c) + f64_of_u32 (rate_conf c) * secs (t - t0) * (1 + eps64) ^ 4 +
    of_nat (length (own ip as)) * (2 * (f64_of_u32 (burst_conf c) * eps64))"
proof (cases "own ip as")
  case Nil
  then show ?thesis using b64.eps_bounds unfolding admitted_own by simp
next
  case (Cons a rest)
  let ?l = "new_limiter (rate_conf c) (burst_conf c) (ar_new a)"
  let ?ops = "map (\<lambda>a. Check (ar_time a) 1) (own ip as)"
  have mem: "a \<in> set (own ip as)" using Cons by simp
  have "\<forall>x \<in> set (a # rest). ar_ip x = ip" unfolding Cons[symmetric] by simp
  from rl_run_new[OF assms(1) this] have adm: "admitted ip as (new_rate_limiter c) = fst (bucket_run ?ops ?l)"
    unfolding admitted_own Cons .
  have "of_nat (fst (bucket_run ?ops ?l)) \<le>
      burst_of ?l + rate_of ?l * secs (t - sl_last_update ?l) * (1 + eps64) ^ 4 + of_nat (length ?ops) * (2 * (burst_of ?l * eps64))"
    by (rule bucket_rate_le[OF bucket_ok_new]) (use assms(2) mem in \<open>auto simp: new_limiter_def\<close>)
  moreover have "rate_of ?l * secs (t - ar_new a) * (1 + eps64) ^ 4 \<le> rate_of ?l * secs (t - t0) * (1 + eps64) ^ 4"
    using assms(2) mem b64.eps_bounds by (intro mult_right_mono mult_left_mono secs_mono) auto
  ultimately show ?thesis unfolding adm by (simp add: new_limiter_def)
qed

text \<open>
  Of the attempts a client makes between \<open>t0\<close> and \<open>t\<close>, whatever the other clients do, at most the
  burst plus the rate times the period are admitted, up to the binary64 rounding errors.
\<close>

theorem client_rate_bound:
  assumes "rl_enabled c" "\<forall>a \<in> set (own ip as). t0 \<le> ar_new a \<and> ar_new a \<le> t \<and> ar_time a \<le> t"
  shows "of_nat (admitted ip as (new_rate_limiter c)) \<le>
    f64_of_u32 (burst_conf c) + f64_of_u32 (rate_conf c) * secs (t - t0) * (1 + eps64) ^ 4 +
    of_nat (length (own ip as)) * (2 * (f64_of_u32 (burst_conf c) * eps64))"
  using assms by (rule client_rate_le)

text \<open>Three attempts of one client and one of another, on a burst of two.\<close>

definition sample_arrivals :: "arrival list" where
  "sample_arrivals =
     (let a = V4 (Ipv4Addr 10 0 0 1); b = V4 (Ipv4Addr 10 0 0 2); arr = (\<lambda>t ip. \<lparr>ar_new = t, ar_time = t, ar_ip = ip\<rparr>)
      in [arr 5 a, arr 5 a, arr 5 b, arr 5 a])"

definition sample_rate :: RateLimitConfig where
  "sample_rate = \<lparr>rl_enabled = True, rl_requests_per_second = 1, rl_burst = 2\<rparr>"

theorem client_rate_bound_witness:
  "of_nat (admitted (V4 (Ipv4Addr 10 0 0 1)) sample_arrivals (new_rate_limiter sample_rate)) \<le>
    f64_of_u32 (burst_conf sample_rate) + f64_of_u32 (rate_conf sample_rate) * secs (9 - 5) * (1 + eps64) ^ 4 +
    of_nat (length (own (V4 (Ipv4Addr 10 0 0 1)) sample_arrivals)) * (2 * (f64_of_u32 (burst_conf sample_rate) * eps64))"
  by (rule client_rate_bound) (simp_all add: sample_rate_def sample_arrivals_def Let_def)

section \<open>The burst, exactly\<close>

lemma refill_same_instant [simp]: "refill (sl_last_update l) l = l"
  by (simp add: refill_def)

lemma f64_of_u32_eq: "f64_of_u32 1 = 1"
  by (simp add: f64_of_u32_def)

lemma check_n_whole:
  assumes "sl_tokens l = of_nat m" "m \<le> 2 ^ 53"
  shows "check_n (sl_last_update l) 1 l = (if 0 < m then (True, l\<lparr>sl_tokens := of_nat (m - 1)\<rparr>) else (False, l))"
proof (cases m)
  case (Suc k)
  have "rnd (of_nat (Suc k) - 1) = of_nat k" using rnd_of_nat[of k] assms(2) Suc by simp
  then show ?thesis using assms Suc by (simp add: check_n_def f64_of_u32_eq)
qed (simp add: check_n_def f64_of_u32_eq assms)

lemma rl_run_same_instant:
  assumes "rl_enabled (rlm_config rl)" "rlm_limiters rl ip = Some l" "\<forall>a \<in> set as. ar_ip a = ip \<and> ar_time a = sl_last_update l"
    "sl_tokens l = of_nat m" "m \<le> 2 ^ 53"
  shows "fst (rl_run as rl) = replicate (min (length as) m) True @ replicate (length as - m) False"
  using assms
proof (induction as arbitrary: rl l m)
  case (Cons a as)
  define l1 where "l1 = (if 0 < m then l\<lparr>sl_tokens := of_nat (m - 1)\<rparr> else l)"
  have c: "check_n (ar_time a) 1 l = (0 < m, l1)" using Cons.prems check_n_whole[of l m] by (simp add: l1_def)
  then have r: "rl_check (ar_new a) (ar_time a) (ar_ip a) rl = (0 < m, rl\<lparr>rlm_limiters := (rlm_limiters rl)(ip \<mapsto> l1)\<rparr>)"
    using Cons.prems by (simp add: rl_check_def limiter_entry_def)
  show ?case using Cons.IH[of "rl\<lparr>rlm_limiters := (rlm_limiters rl)(ip \<mapsto> l1)\<rparr>" l1 "m - 1"] Cons.prems r
    by (cases m) (auto simp: l1_def Let_def split_beta)
qed simp

text \<open>
  C21. Of the attempts a new client makes at one instant exactly the first \<open>max burst 1\<close> are admitted,
  whatever other clients do in between.
\<close>

theorem burst_exact:
  assumes "rl_enabled c" "\<forall>a \<in> set (own ip as). ar_new a = t \<and> ar_time a = t"
  shows "map snd (filter (\<lambda>(a, ok). ar_ip a = ip) (zip as (fst (rl_run as (new_rate_limiter c))))) =
    (let k = length (own ip as); b = unat (max (rl_burst c) 1)
     in replicate (min k b) True @ replicate (k - b) False)"
proof (cases "own ip as")
  case Nil
  then show ?thesis using rl_run_isolated[of "new_rate_limiter c" "new_rate_limiter c" ip as] by simp
next
  case (Cons a rest)
  let ?rl = "new_rate_limiter c"
  let ?l = "new_limiter (rate_conf c) (burst_conf c) t"
  let ?rl' = "?rl\<lparr>rlm_limiters := (rlm_limiters ?rl)(ip \<mapsto> limiter_entry t ip ?rl)\<rparr>"
  have a: "ar_new a = t" "ar_time a = t" "ar_ip a = ip" "\<forall>x \<in> set rest. ar_ip x = ip \<and> ar_time x = t"
    using assms(2) Cons filter_eq_ConsD[OF Cons] by (auto simp: filter_eq_Cons_iff)
  have "rl_run (a # rest) ?rl = rl_run (a # rest) ?rl'"
    using assms(1) a limiter_entry_insert[of ?rl t t ip] by (simp add: new_rate_limiter_def)
  moreover have "limiter_entry t ip ?rl = ?l" by (simp add: limiter_entry_def new_rate_limiter_def)
  moreover have "sl_tokens ?l = of_nat (unat (burst_conf c))" by (simp only: new_limiter_def f64_of_u32_def SimpleLimiter.simps)
  ultimately have "fst (rl_run (own ip as) ?rl) =
      replicate (min (length (own ip as)) (unat (burst_conf c))) True @ replicate (length (own ip as) - unat (burst_conf c)) False"
    using rl_run_same_instant[of ?rl' ip ?l "a # rest" "unat (burst_conf c)"] a assms(1) unat_u32_le[of "burst_conf c"]
    unfolding Cons by (simp add: new_rate_limiter_def new_limiter_def)
  then show ?thesis unfolding rl_run_isolated[OF refl refl] Let_def by simp
qed

theorem burst_exact_witness:
  "map snd (filter (\<lambda>(a, ok). ar_ip a = V4 (Ipv4Addr 10 0 0 1))
      (zip sample_arrivals (fst (rl_run sample_arrivals (new_rate_limiter sample_rate))))) = [True, True, False]"
  using burst_exact[of sample_rate "V4 (Ipv4Addr 10 0 0 1)" sample_arrivals 5]
  by (simp add: sample_rate_def sample_arrivals_def Let_def)

section \<open>A client that keeps its distance\<close>

lemma check_n_after_gap:
  assumes "bucket_ok l" "1 \<le> sl_burst_size l" "sl_last_update l \<le> s" "s < t"
    "1000000000 \<le> (t - s - 1) * unat (sl_rate_per_sec l)"
  shows "fst (check_n t 1 l)"
proof -
  let ?r = "of_nat (unat (sl_rate_per_sec l)) :: rat"
  have r: "1 \<le> ?r" using assms(5) by (cases "unat (sl_rate_per_sec l)") simp_all
  have "of_nat 1000000000 \<le> (of_nat ((t - s - 1) * unat (sl_rate_per_sec l)) :: rat)"
    using assms(5) unfolding of_nat_le_iff .
  also have "\<dots> = (of_nat (t - s) - 1) * ?r" using assms(4) by (simp add: of_nat_diff del: of_nat_unat)
  finally have "1000000000 + ?r \<le> of_nat (t - s) * ?r" by (simp add: left_diff_distrib)
  then have "1000000000 + 1 \<le> of_nat (t - s) * ?r" using r by linarith
  then have "(1000000000 + 1) / 1000000000 \<le> of_nat (t - s) * ?r / 1000000000" by (rule divide_right_mono) simp
  then have "1 + 1 / 1000000000 \<le> ?r * secs (t - s)" by (simp add: secs_def mult.commute del: of_nat_unat of_nat_diff)
  also have "\<dots> \<le> ?r * secs (t - sl_last_update l)" using assms(3) r by (intro mult_left_mono secs_mono) (simp_all del: of_nat_unat)
  finally have "(1 + 1 / 1000000000) * (1 - eps64) ^ 3 \<le> ?r * secs (t - sl_last_update l) * (1 - eps64) ^ 3"
    by (intro mult_right_mono) (simp_all add: eps64_def)
  moreover have "1 \<le> (1 + 1 / 1000000000) * (1 - eps64) ^ 3" by (simp add: eps64_def power_divide)
  ultimately have "1 \<le> rate_of l * secs (t - sl_last_update l) * (1 - eps64) ^ 3"
    unfolding f64_of_u32_def by linarith
  then have "f64_of_u32 1 \<le> sl_tokens (refill t l)"
    using assms(1) by (intro refill_reaches[OF assms(2) fresh_tokens_lower]) (simp add: f64_of_u32_eq bucket_ok_def)
  then show ?thesis by (simp add: check_n_def Let_def)
qed

text \<open>Attempts at least one interval of the rate and one nanosecond apart.\<close>

definition spaced :: "u32 \<Rightarrow> arrival \<Rightarrow> arrival \<Rightarrow> bool" where
  "spaced r a b \<longleftrightarrow> ar_time a < ar_time b \<and> 1000000000 \<le> (ar_time b - ar_time a - 1) * unat r"

lemma rl_run_spaced:
  assumes "rl_enabled (rlm_config rl)" "rlm_limiters rl ip = Some l" "bucket_ok l" "1 \<le> sl_burst_size l"
    "\<forall>a \<in> set as. ar_ip a = ip" "sl_last_update l \<le> ar_time a0" "successively (spaced (sl_rate_per_sec l)) (a0 # as)"
  shows "list_all id (fst (rl_run as rl))"
  using assms
proof (induction as arbitrary: rl l a0)
  case (Cons a as)
  obtain ok l1 where c: "check_n (ar_time a) 1 l = (ok, l1)" by (cases "check_n (ar_time a) 1 l")
  then have r: "rl_check (ar_new a) (ar_time a) (ar_ip a) rl = (ok, rl\<lparr>rlm_limiters := (rlm_limiters rl)(ip \<mapsto> l1)\<rparr>)"
    using Cons.prems by (simp add: rl_check_def limiter_entry_def)
  have gap: "ar_time a0 < ar_time a" "1000000000 \<le> (ar_time a - ar_time a0 - 1) * unat (sl_rate_per_sec l)"
    using Cons.prems(7) by (simp_all add: spaced_def)
  have "ok" using check_n_after_gap[OF Cons.prems(3,4,6) gap] c by simp
  moreover have "bucket_ok l1" "sl_burst_size l1 = sl_burst_size l" "sl_rate_per_sec l1 = sl_rate_per_sec l"
    using bucket_ok_check_n[OF Cons.prems(3), of "ar_time a" 1] check_n_frame[of "ar_time a" 1 l] c by simp_all
  moreover have "sl_last_update l1 \<le> ar_time a"
    using refill_last(2)[of "ar_time a" l] c Cons.prems(6) gap(1) by (auto simp: check_n_def Let_def split: if_splits)
  ultimately show ?case using Cons.IH[of "rl\<lparr>rlm_limiters := (rlm_limiters rl)(ip \<mapsto> l1)\<rparr>" l1 a] Cons.prems r
    by (simp add: Let_def split_beta)
qed simp

text \<open>
  C22. A client whose attempts keep the distance of the rate, one nanosecond more included, is admitted
  every time.
\<close>

theorem spaced_client_admitted:
  assumes "rl_enabled c" "successively (spaced (max (rl_requests_per_second c) 1)) (own ip as)"
    "\<forall>a \<in> set (own ip as). ar_new a \<le> ar_time a"
  shows "\<forall>(a, ok) \<in> set (zip as (fst (rl_run as (new_rate_limiter c)))). ar_ip a = ip \<longrightarrow> ok"
proof -
  let ?rl = "new_rate_limiter c"
  have "list_all id (fst (rl_run (own ip as) ?rl))"
  proof (cases "own ip as")
    case (Cons a rest)
    let ?l = "new_limiter (rate_conf c) (burst_conf c) (ar_new a)"
    have a: "ar_ip a = ip" "\<forall>x \<in> set rest. ar_ip x = ip" "ar_new a \<le> ar_time a"
      using assms(3) Cons by (auto simp: filter_eq_Cons_iff)
    obtain ok l1 where c: "check_n (ar_time a) 1 ?l = (ok, l1)" by (cases "check_n (ar_time a) 1 ?l")
    have r: "rl_check (ar_new a) (ar_time a) (ar_ip a) ?rl = (ok, ?rl\<lparr>rlm_limiters := (rlm_limiters ?rl)(ip \<mapsto> l1)\<rparr>)"
      using assms(1) a(1) c by (simp add: rl_check_def limiter_entry_def new_rate_limiter_def)
    have b: "1 \<le> sl_burst_size ?l" by (simp add: new_limiter_def)
    have "f64_of_u32 1 \<le> sl_tokens ?l" using b f64_of_u32_mono[of 1 "sl_burst_size ?l"] by (simp add: new_limiter_def)
    then have "f64_of_u32 1 \<le> sl_tokens (refill (ar_time a) ?l)" by (intro refill_reaches[OF b, of 0]) simp_all
    then have "ok" using c by (simp add: check_n_def Let_def)
    moreover have "sl_last_update l1 \<le> ar_time a"
      using refill_last(2)[of "ar_time a" ?l] c a(3) by (auto simp: check_n_def Let_def new_limiter_def split: if_splits)
    moreover have "bucket_ok l1" "sl_burst_size l1 = sl_burst_size ?l" "sl_rate_per_sec l1 = sl_rate_per_sec ?l"
      using bucket_ok_check_n[OF bucket_ok_new, of "ar_time a" 1] check_n_frame[of "ar_time a" 1 ?l] c by (simp_all, metis snd_conv)
    ultimately show ?thesis
      using rl_run_spaced[of "?rl\<lparr>rlm_limiters := (rlm_limiters ?rl)(ip \<mapsto> l1)\<rparr>" ip l1 rest a] a r assms(1,2) Cons
      by (simp add: Let_def split_beta new_rate_limiter_def new_limiter_def)
  qed simp
  moreover have "ok" if "(a, ok) \<in> set (zip (own ip as) oks)" "list_all id oks" for a ok oks
    using that by (auto simp: list_all_iff dest: set_zip_rightD)
  ultimately have "\<forall>(a, ok) \<in> set (filter (\<lambda>(a, ok). ar_ip a = ip) (zip as (fst (rl_run as ?rl)))). ok"
    unfolding rl_run_isolated[OF refl refl] Let_def by blast
  then show ?thesis by auto
qed

theorem spaced_client_admitted_witness:
  "let c = \<lparr>rl_enabled = True, rl_requests_per_second = 3, rl_burst = 0\<rparr>; ip = V4 (Ipv4Addr 10 0 0 1);
       arr = (\<lambda>t. \<lparr>ar_new = t, ar_time = t, ar_ip = ip\<rparr>); as = [arr 0, arr 333333335, arr 666666670]
   in \<forall>(a, ok) \<in> set (zip as (fst (rl_run as (new_rate_limiter c)))). ar_ip a = ip \<longrightarrow> ok"
  unfolding Let_def by (rule spaced_client_admitted) (simp_all add: spaced_def)

section \<open>Tables of shared buckets\<close>

text \<open>
  What the connections rely on: a table that hands out references by key. A key that is not in use
  gets none; the first call for a key allocates, later ones find the same reference; calls for other
  keys leave it alone.
\<close>

fun get_run :: "('t \<Rightarrow> 'k \<Rightarrow> 's \<Rightarrow> nat option \<times> 's) \<Rightarrow> ('t \<times> 'k) list \<Rightarrow> 's \<Rightarrow> nat option list \<times> 's" where
  "get_run get [] s = ([], s)"
| "get_run get ((t, k) # calls) s = (let (r, s1) = get t k s; (rs, s2) = get_run get calls s1 in (r # rs, s2))"

lemma get_run_inv:
  assumes "\<And>t k s. P s \<Longrightarrow> P (snd (get t k s))" "P s"
  shows "P (snd (get_run get calls s))"
  using assms(2)
proof (induction calls arbitrary: s)
  case (Cons c calls)
  then show ?case using assms(1) by (cases c) (simp add: Let_def split_beta)
qed simp

locale handle_table =
  fixes get :: "'t \<Rightarrow> 'k \<Rightarrow> 's \<Rightarrow> nat option \<times> 's" and lookup :: "'k \<Rightarrow> 's \<Rightarrow> nat option"
    and size_of :: "'s \<Rightarrow> nat" and active :: "'k \<Rightarrow> 's \<Rightarrow> bool"
  assumes get_inactive: "\<not> active k s \<Longrightarrow> get t k s = (None, s)"
    and get_hit: "active k s \<Longrightarrow> lookup k s = Some r \<Longrightarrow> get t k s = (Some r, s)"
    and get_miss: "active k s \<Longrightarrow> lookup k s = None \<Longrightarrow>
      fst (get t k s) = Some (size_of s) \<and> lookup k (snd (get t k s)) = Some (size_of s) \<and>
      size_of (snd (get t k s)) = Suc (size_of s)"
    and get_other: "k' \<noteq> k \<Longrightarrow> lookup k' (snd (get t k s)) = lookup k' s"
    and get_active: "active k' (snd (get t k s)) = active k' s"
begin

definition table_ok :: "'s \<Rightarrow> bool" where
  "table_ok s \<longleftrightarrow> (\<forall>k r. lookup k s = Some r \<longrightarrow> r < size_of s) \<and>
     (\<forall>k k' r. lookup k s = Some r \<longrightarrow> lookup k' s = Some r \<longrightarrow> k = k')"

lemma get_cases:
  obtains (inactive) "\<not> active k s" "get t k s = (None, s)"
  | (hit) r where "active k s" "lookup k s = Some r" "get t k s = (Some r, s)"
  | (miss) s1 where "active k s" "lookup k s = None" "get t k s = (Some (size_of s), s1)"
      "lookup k s1 = Some (size_of s)" "size_of s1 = Suc (size_of s)"
  using get_inactive get_hit get_miss by (metis not_None_eq prod.collapse)

lemma get_table_ok:
  assumes "table_ok s"
  shows "table_ok (snd (get t k s))"
proof (cases rule: get_cases[of k s t])
  case (miss s1)
  have other: "lookup k' s1 = (if k' = k then Some (size_of s) else lookup k' s)" for k'
    using get_other[of k' k t s] miss by simp
  have "r < size_of s" if "lookup k' s = Some r" for k' r using assms that by (auto simp: table_ok_def)
  then show ?thesis using assms miss(3,5) by (auto simp: table_ok_def other less_Suc_eq split: if_splits)
qed (use assms in simp_all)

lemma get_stable: "lookup k' s = Some r \<Longrightarrow> lookup k' (snd (get t k s)) = Some r"
  using get_other[of k' k t s] by (cases rule: get_cases[of k s t]; cases "k' = k") simp_all

lemma get_run_stable: "lookup k s = Some r \<Longrightarrow> lookup k (snd (get_run get calls s)) = Some r"
  by (rule get_run_inv[where P = "\<lambda>s. lookup k s = Some r"]) (rule get_stable)

lemma get_run_table_ok: "table_ok s \<Longrightarrow> table_ok (snd (get_run get calls s))"
  by (rule get_run_inv[where P = table_ok]) (rule get_table_ok)

text \<open>Every answer is the entry the table ends up with.\<close>

lemma get_run_answers:
  assumes "i < length calls"
  shows "fst (get_run get calls s) ! i =
    (if active (snd (calls ! i)) s then lookup (snd (calls ! i)) (snd (get_run get calls s)) else None) \<and>
    (active (snd (calls ! i)) s \<longrightarrow> lookup (snd (calls ! i)) (snd (get_run get calls s)) \<noteq> None)"
  using assms
proof (induction calls arbitrary: s i)
  case (Cons c calls)
  obtain t k where c: "c = (t, k)" by (cases c)
  obtain r s1 where g: "get t k s = (r, s1)" by (cases "get t k s")
  have act: "active k' s1 = active k' s" for k' using get_active[of k' t k s] g by simp
  show ?case
  proof (cases i)
    case 0
    have "r = (if active k s then lookup k s1 else None) \<and> (active k s \<longrightarrow> r \<noteq> None)"
      by (cases rule: get_cases[of k s t]) (use g in auto)
    then show ?thesis using get_run_stable[of k s1 _ calls] c g 0 by (auto simp: Let_def split_beta)
  next
    case (Suc j)
    then show ?thesis using Cons.IH[of j s1] Cons.prems c g by (simp add: act Let_def split_beta)
  qed
qed simp

lemma get_run_handles:
  assumes "table_ok s" "i < length calls" "j < length calls" "active (snd (calls ! i)) s" "active (snd (calls ! j)) s"
  shows "fst (get_run get calls s) ! i = fst (get_run get calls s) ! j \<longleftrightarrow> snd (calls ! i) = snd (calls ! j)"
  using get_run_answers[OF assms(2), of s] get_run_answers[OF assms(3), of s] get_run_table_ok[OF assms(1), of calls] assms(4,5)
  unfolding table_ok_def by (metis not_None_eq)

end

text \<open>The four tables of the manager as one, by direction and key.\<close>

datatype bw_key = ClientUpload IpAddr | ClientDownload IpAddr | BackendUpload string | BackendDownload string

fun bw_get :: "instant \<Rightarrow> bw_key \<Rightarrow> BandwidthManager \<times> limiter_heap \<Rightarrow> limiter_ref option \<times> BandwidthManager \<times> limiter_heap" where
  "bw_get now (ClientUpload ip) s = get_client_upload_limiter now ip s"
| "bw_get now (ClientDownload ip) s = get_client_download_limiter now ip s"
| "bw_get now (BackendUpload key) s = get_backend_upload_limiter now key s"
| "bw_get now (BackendDownload key) s = get_backend_download_limiter now key s"

fun bw_lookup :: "bw_key \<Rightarrow> BandwidthManager \<times> limiter_heap \<Rightarrow> limiter_ref option" where
  "bw_lookup (ClientUpload ip) (bm, heap) = bm_client_upload bm ip"
| "bw_lookup (ClientDownload ip) (bm, heap) = bm_client_download bm ip"
| "bw_lookup (BackendUpload key) (bm, heap) = bm_backend_upload bm key"
| "bw_lookup (BackendDownload key) (bm, heap) = bm_backend_download bm key"

text \<open>The configured rate of a direction, if it is limited at all.\<close>

fun bw_rate :: "BandwidthLimitConfig \<Rightarrow> bw_key \<Rightarrow> u32 option" where
  "bw_rate c (ClientUpload _) = (if bw_enabled c then map_option cb_upload_per_sec (bw_client c) else None)"
| "bw_rate c (ClientDownload _) = (if bw_enabled c then map_option cb_download_per_sec (bw_client c) else None)"
| "bw_rate c (BackendUpload _) = (if bw_enabled c then map_option bb_upload_per_sec (bw_backend c) else None)"
| "bw_rate c (BackendDownload _) = (if bw_enabled c then map_option bb_download_per_sec (bw_backend c) else None)"

lemmas bw_get_defs = get_client_upload_limiter_def get_client_download_limiter_def
  get_backend_upload_limiter_def get_backend_download_limiter_def get_or_create_limiter_def

interpretation bwt: handle_table bw_get bw_lookup "\<lambda>(bm, heap). length heap" "\<lambda>k (bm, heap). bw_rate (bm_config bm) k \<noteq> None"
proof unfold_locales
  fix k k' :: bw_key and s :: "BandwidthManager \<times> limiter_heap" and t :: instant and r :: nat
  obtain bm heap where s: "s = (bm, heap)" by (cases s)
  show "\<not> (case s of (bm, heap) \<Rightarrow> bw_rate (bm_config bm) k \<noteq> None) \<Longrightarrow> bw_get t k s = (None, s)"
    unfolding s by (cases k) (auto simp: bw_get_defs split: if_splits)
  show "(case s of (bm, heap) \<Rightarrow> bw_rate (bm_config bm) k \<noteq> None) \<Longrightarrow> bw_lookup k s = Some r \<Longrightarrow> bw_get t k s = (Some r, s)"
    unfolding s by (cases k) (auto simp: bw_get_defs split: if_splits)
  show "(case s of (bm, heap) \<Rightarrow> bw_rate (bm_config bm) k \<noteq> None) \<Longrightarrow> bw_lookup k s = None \<Longrightarrow>
      fst (bw_get t k s) = Some (case s of (bm, heap) \<Rightarrow> length heap) \<and>
      bw_lookup k (snd (bw_get t k s)) = Some (case s of (bm, heap) \<Rightarrow> length heap) \<and>
      (case snd (bw_get t k s) of (bm, heap) \<Rightarrow> length heap) = Suc (case s of (bm, heap) \<Rightarrow> length heap)"
    unfolding s by (cases k) (auto simp: bw_get_defs split: if_splits)
  show "k' \<noteq> k \<Longrightarrow> bw_lookup k' (snd (bw_get t k s)) = bw_lookup k' s"
    unfolding s by (cases k; cases k') (auto simp: bw_get_defs split: if_splits option.splits)
  show "(case snd (bw_get t k s) of (bm, heap) \<Rightarrow> bw_rate (bm_config bm) k' \<noteq> None) =
      (case s of (bm, heap) \<Rightarrow> bw_rate (bm_config bm) k' \<noteq> None)"
    unfolding s by (cases k; cases k') (auto simp: bw_get_defs split: if_splits option.splits)
qed

text \<open>
  The connections of one client share one bucket per direction, and no two clients or directions
  share one: over any sequence of calls on a new manager, two calls for limited directions return
  the same bucket exactly when they are for the same direction and key, and a call for a direction
  that is not limited returns none.
\<close>

theorem bandwidth_handles:
  assumes "i < length calls" "j < length calls"
  shows "let rs = fst (get_run bw_get calls (new_bandwidth_manager c, heap)); ki = snd (calls ! i); kj = snd (calls ! j)
    in (rs ! i = None \<longleftrightarrow> bw_rate c ki = None) \<and>
       (bw_rate c ki \<noteq> None \<and> bw_rate c kj \<noteq> None \<longrightarrow> (rs ! i = rs ! j \<longleftrightarrow> ki = kj))"
proof -
  have conf: "bm_config (new_bandwidth_manager c) = c" by (simp add: new_bandwidth_manager_def)
  have "bw_lookup k (new_bandwidth_manager c, heap) = None" for k
    by (cases k) (simp_all add: new_bandwidth_manager_def)
  then have "bwt.table_ok (new_bandwidth_manager c, heap)" by (simp add: bwt.table_ok_def)
  from bwt.get_run_handles[OF this assms] bwt.get_run_answers[OF assms(1), of "(new_bandwidth_manager c, heap)"]
  show ?thesis unfolding Let_def by (auto simp: conf split: if_splits)
qed

theorem bandwidth_handles_witness:
  "let c = \<lparr>bw_enabled = True, bw_client = Some \<lparr>cb_upload_per_sec = 9, cb_download_per_sec = 9\<rparr>, bw_backend = None\<rparr>;
       a = V4 (Ipv4Addr 10 0 0 1); b = V4 (Ipv4Addr 10 0 0 2);
       calls = [(1, ClientUpload a), (2, ClientUpload b), (3, ClientUpload a), (3, BackendUpload ''x'')];
       rs = fst (get_run bw_get calls (new_bandwidth_manager c, []))
   in rs ! 0 = rs ! 2 \<and> rs ! 0 \<noteq> rs ! 1 \<and> rs ! 3 = None"
proof -
  let ?c = "\<lparr>bw_enabled = True, bw_client = Some \<lparr>cb_upload_per_sec = 9, cb_download_per_sec = 9\<rparr>, bw_backend = None\<rparr>"
  let ?calls = "[(1 :: nat, ClientUpload (V4 (Ipv4Addr 10 0 0 1))), (2, ClientUpload (V4 (Ipv4Addr 10 0 0 2))),
    (3, ClientUpload (V4 (Ipv4Addr 10 0 0 1))), (3, BackendUpload ''x'')]"
  show ?thesis unfolding Let_def
    using bandwidth_handles[of 0 ?calls 2 ?c "[]"] bandwidth_handles[of 0 ?calls 1 ?c "[]"] bandwidth_handles[of 3 ?calls 0 ?c "[]"]
    unfolding Let_def by simp
qed

text \<open>Every bucket a manager hands out has the configured rate, 1024 bytes per second at least, and the burst of 64 KiB.\<close>

definition buckets_ok :: "BandwidthManager \<times> limiter_heap \<Rightarrow> bool" where
  "buckets_ok s \<longleftrightarrow> (\<forall>k r. bw_lookup k s = Some r \<longrightarrow> r < length (snd s) \<and>
     (\<exists>rate. bw_rate (bm_config (fst s)) k = Some rate \<and> sl_rate_per_sec (snd s ! r) = max rate 1024 \<and>
        sl_burst_size (snd s ! r) = 65536))"

lemma bw_get_buckets_ok:
  assumes "buckets_ok s"
  shows "buckets_ok (snd (bw_get t k s))"
proof -
  obtain bm heap where s: "s = (bm, heap)" by (cases s)
  have old: "r < length heap \<and> (\<exists>rate. bw_rate (bm_config bm) k' = Some rate \<and>
      sl_rate_per_sec (heap ! r) = max rate 1024 \<and> sl_burst_size (heap ! r) = 65536)" if "bw_lookup k' s = Some r" for k' r
    using assms that by (auto simp: buckets_ok_def s)
  show ?thesis
  proof (cases rule: bwt.get_cases[of k s t])
    case (miss s1)
    have conf: "bm_config (fst s1) = bm_config bm" and
      heap: "\<exists>rate. bw_rate (bm_config bm) k = Some rate \<and> snd s1 = heap @ [new_limiter (max rate 1024) 65536 t]"
      using miss(1,2,3) unfolding s by (cases k; auto simp: bw_get_defs split: if_splits)+
    have other: "bw_lookup k' s1 = (if k' = k then Some (length heap) else bw_lookup k' s)" for k'
      using bwt.get_other[of k' k t s] miss(3,4) s by auto
    show ?thesis using heap miss(3)
      by (auto simp: buckets_ok_def other conf nth_append new_limiter_def less_Suc_eq split: if_splits dest!: old)
  qed (use assms in simp_all)
qed

lemma get_run_buckets_ok: "buckets_ok s \<Longrightarrow> buckets_ok (snd (get_run bw_get calls s))"
  by (rule get_run_inv[where P = buckets_ok]) (rule bw_get_buckets_ok)

lemma bw_get_config: "bm_config (fst (snd (bw_get t k s))) = bm_config (fst s)"
  by (cases s; cases k) (auto simp: bw_get_defs split: option.splits)

lemma get_run_config: "bm_config (fst (snd (get_run bw_get calls s))) = bm_config (fst s)"
  by (rule get_run_inv[where P = "\<lambda>s'. bm_config (fst s') = bm_config (fst s)"]) (simp_all add: bw_get_config)

text \<open>
  What becomes of the bucket of a key: one that exists stays as it is, and one that appears is new, with
  the clock reading of the call that made it.
\<close>

lemma bw_get_bucket:
  "bw_lookup k' s = Some r \<Longrightarrow> r < length (snd s) \<Longrightarrow> snd (snd (bw_get t k s)) ! r = snd s ! r"
  "bw_lookup k' s = None \<Longrightarrow> bw_lookup k' (snd (bw_get t k s)) = Some r \<Longrightarrow>
     k' = k \<and> (\<exists>rate. bw_rate (bm_config (fst s)) k = Some rate \<and>
       snd (snd (bw_get t k s)) ! r = new_limiter (max rate 1024) 65536 t)"
proof -
  obtain bm heap where s: "s = (bm, heap)" by (cases s)
  show "bw_lookup k' s = Some r \<Longrightarrow> r < length (snd s) \<Longrightarrow> snd (snd (bw_get t k s)) ! r = snd s ! r"
    unfolding s by (cases k) (auto simp: bw_get_defs nth_append split: option.split)
  assume none: "bw_lookup k' s = None" and some: "bw_lookup k' (snd (bw_get t k s)) = Some r"
  then have k: "k' = k" using bwt.get_other[of k' k t s] by auto
  show "k' = k \<and> (\<exists>rate. bw_rate (bm_config (fst s)) k = Some rate \<and>
       snd (snd (bw_get t k s)) ! r = new_limiter (max rate 1024) 65536 t)"
    using none some unfolding s k by (cases k) (auto simp: bw_get_defs split: option.splits if_splits)
qed

lemma get_run_bucket:
  "bw_lookup k s = Some r \<Longrightarrow> buckets_ok s \<Longrightarrow> snd (snd (get_run bw_get calls s)) ! r = snd s ! r"
  "bw_lookup k s = None \<Longrightarrow> bw_lookup k (snd (get_run bw_get calls s)) = Some r \<Longrightarrow> buckets_ok s \<Longrightarrow>
     \<exists>t rate. t \<in> fst ` set calls \<and> bw_rate (bm_config (fst s)) k = Some rate \<and>
       snd (snd (get_run bw_get calls s)) ! r = new_limiter (max rate 1024) 65536 t"
proof (induction calls arbitrary: s)
  case (Cons c calls)
  obtain t k' where c: "c = (t, k')" by (cases c)
  have run: "snd (get_run bw_get (c # calls) s) = snd (get_run bw_get calls (snd (bw_get t k' s)))" for s
    by (simp add: c Let_def split_beta)
  {
    case (1 s)
    then have "r < length (snd s)" by (auto simp: buckets_ok_def)
    then show ?case
      using Cons.IH(1)[OF bwt.get_stable[OF 1(1)] bw_get_buckets_ok[OF 1(2)]] bw_get_bucket(1)[OF 1(1)] unfolding run by simp
  next
    case (2 s)
    show ?case
    proof (cases "bw_lookup k (snd (bw_get t k' s))")
      case None
      then show ?thesis
        using Cons.IH(2)[OF None _ bw_get_buckets_ok[OF 2(3)]] 2(2) unfolding run by (auto simp: bw_get_config)
    next
      case (Some r')
      then have "r' = r" using bwt.get_run_stable[OF Some, of calls] 2(2) unfolding run by simp
      then show ?thesis
        using bw_get_bucket(2)[OF 2(1), of t k' r] Cons.IH(1)[of "snd (bw_get t k' s)"] bw_get_buckets_ok[OF 2(3), of t k'] Some
        unfolding run by (auto simp: c)
    qed
  }
qed simp_all

text \<open>
  Every bucket handed out for a direction has that direction's configured rate, raised to 1024 bytes
  per second, and a burst of 64 KiB, which covers four of the largest chunks a stream asks for.
\<close>

theorem bandwidth_bucket_parameters:
  assumes "i < length calls" "fst (get_run bw_get calls (new_bandwidth_manager c, heap)) ! i = Some r"
  shows "let l = snd (snd (get_run bw_get calls (new_bandwidth_manager c, heap))) ! r
    in sl_rate_per_sec l = max (the (bw_rate c (snd (calls ! i)))) 1024 \<and> sl_burst_size l = 65536"
proof -
  let ?s = "(new_bandwidth_manager c, heap)"
  have "bw_lookup k ?s = None" for k by (cases k) (simp_all add: new_bandwidth_manager_def)
  then have "buckets_ok (snd (get_run bw_get calls ?s))" by (intro get_run_buckets_ok) (simp add: buckets_ok_def)
  moreover have "bw_lookup (snd (calls ! i)) (snd (get_run bw_get calls ?s)) = Some r"
    using bwt.get_run_answers[OF assms(1), of ?s] assms(2) by (auto split: if_splits)
  moreover have "bm_config (fst (snd (get_run bw_get calls ?s))) = c"
    by (simp add: get_run_config new_bandwidth_manager_def)
  ultimately show ?thesis unfolding buckets_ok_def Let_def by fastforce
qed

theorem bandwidth_bucket_parameters_witness:
  "let c = \<lparr>bw_enabled = True, bw_client = Some \<lparr>cb_upload_per_sec = 9, cb_download_per_sec = 5000\<rparr>, bw_backend = None\<rparr>;
       ip = V4 (Ipv4Addr 10 0 0 1); calls = [(1, ClientUpload ip), (2, ClientDownload ip)];
       heap = snd (snd (get_run bw_get calls (new_bandwidth_manager c, [])))
   in sl_rate_per_sec (heap ! 0) = 1024 \<and> sl_rate_per_sec (heap ! 1) = 5000"
proof -
  let ?c = "\<lparr>bw_enabled = True, bw_client = Some \<lparr>cb_upload_per_sec = 9, cb_download_per_sec = 5000\<rparr>, bw_backend = None\<rparr>"
  let ?calls = "[(1 :: nat, ClientUpload (V4 (Ipv4Addr 10 0 0 1))), (2, ClientDownload (V4 (Ipv4Addr 10 0 0 1)))]"
  have "fst (get_run bw_get ?calls (new_bandwidth_manager ?c, [])) = [Some 0, Some 1]"
    by (simp add: bw_get_defs new_bandwidth_manager_def)
  then show ?thesis unfolding Let_def
    using bandwidth_bucket_parameters[of 0 ?calls ?c "[]" 0] bandwidth_bucket_parameters[of 1 ?calls ?c "[]" 1]
    unfolding Let_def by simp
qed

end
