(* ===== verification/Bandwidth.thy ===== *)
theory Bandwidth
  imports Limiters
begin

text \<open>
  The rate-limited stream (\<^verbatim>\<open>src/traffic/bandwidth.rs\<close>): \<open>poll_read\<close> and \<open>poll_write\<close> take tokens
  for a chunk before they let the inner stream transfer it. A poll is a step that takes the stream and
  the heap of buckets to their next states; the inner stream, the caller's buffer and the timer are
  tokio's and enter as arguments. Shown here: when a caller does not enlarge its buffer while a permit
  is pending, the bytes that pass a bucket, over all streams that share it, are paid for and so bounded
  by its rate; when it does, what exceeds the permit is not; and a pending permit waits no longer than
  the other streams of its bucket keep taking the tokens. A poll is one step: the rounds it runs without
  sleeping in between are not interleaved with the polls of other threads.
\<close>

section \<open>State\<close>

text \<open>
  A pending permit is a future that runs \<open>until_n_ready\<close> for the stored number of tokens. It is
  polled as soon as it is made, so one that is stored is in its sleep.
\<close>

record 'i RateLimitedStream =
  rs_inner :: 'i
  rs_read_limiter :: "limiter_ref option"
  rs_write_limiter :: "limiter_ref option"
  rs_read_permit_fut :: "u32 option"
  rs_write_permit_fut :: "u32 option"

definition new_stream :: "'i \<Rightarrow> limiter_ref option \<Rightarrow> limiter_ref option \<Rightarrow> 'i RateLimitedStream" where
  "new_stream inner read_limiter write_limiter =
     \<lparr>rs_inner = inner, rs_read_limiter = read_limiter, rs_write_limiter = write_limiter,
      rs_read_permit_fut = None, rs_write_permit_fut = None\<rparr>"

text \<open>What a poll returns; \<open>Panicked\<close> is a panic inside it.\<close>

datatype 'a io_poll = Ready 'a | Failed io_error | Pending | Panicked

text \<open>
  The inner stream's \<open>poll_read\<close> on a buffer with room for so many bytes, and its \<open>poll_write\<close>
  of so many bytes, each with the stream's next state.
\<close>

type_synonym 'i inner_read = "nat \<Rightarrow> 'i \<Rightarrow> u8 list io_poll \<times> 'i"
type_synonym 'i inner_write = "u8 list \<Rightarrow> 'i \<Rightarrow> nat io_poll \<times> 'i"

text \<open>
  The clock readings of a poll: in \<open>check_n\<close>, in the first round of a future made by this poll, and in
  the rounds that follow a sleep that is over. A poll runs no further round when its sleep is not over.
\<close>

record readings =
  ob_now :: instant
  ob_first :: instant
  ob_wakes :: "instant list"

section \<open>Permits\<close>

datatype gate = Open | Wait u32 | Broken

fun permit_rounds :: "u32 \<Rightarrow> instant list \<Rightarrow> SimpleLimiter \<Rightarrow> gate \<times> SimpleLimiter" where
  "permit_rounds n [] l = (Wait n, l)"
| "permit_rounds n (now # wakes) l =
     (case try_ready now n l of
        (Granted, l1) \<Rightarrow> (Open, l1)
      | (Sleep d, l1) \<Rightarrow> permit_rounds n wakes l1
      | (Panics, l1) \<Rightarrow> (Broken, l1))"

text \<open>
  The part of the loop before the transfer: poll the pending future; without one, try \<open>check_n\<close> and
  fall back to a new future, which the next turn of the loop polls.
\<close>

definition pass_gate :: "readings \<Rightarrow> u32 option \<Rightarrow> u32 \<Rightarrow> SimpleLimiter \<Rightarrow> gate \<times> SimpleLimiter" where
  "pass_gate ob fut n_req l =
     (case fut of
        Some n \<Rightarrow> permit_rounds n (ob_wakes ob) l
      | None \<Rightarrow> (case check_n (ob_now ob) n_req l of
            (True, l1) \<Rightarrow> (Open, l1)
          | (False, l1) \<Rightarrow> permit_rounds n_req (ob_first ob # ob_wakes ob) l1))"

definition chunk_size :: nat where
  "chunk_size = 16384"

section \<open>Polls\<close>

text \<open>
  \<open>remaining\<close> is the room in the caller's buffer, and \<open>advance n\<close> says whether its \<open>advance(n)\<close>
  returns: tokio's panics when the filled region would grow past the initialized one.
\<close>

definition transfer_read ::
  "'i inner_read \<Rightarrow> (nat \<Rightarrow> bool) \<Rightarrow> nat \<Rightarrow> 'i RateLimitedStream \<Rightarrow> u8 list io_poll \<times> 'i RateLimitedStream" where
  "transfer_read inner advance remaining st =
     (if remaining = 0 then (Ready [], st)
      else let to_read = min remaining chunk_size; (res, i1) = inner to_read (rs_inner st); st1 = st\<lparr>rs_inner := i1\<rparr>
           in case res of
              Ready data \<Rightarrow> (if advance (length data) then Ready data else Panicked, st1)
            | Failed e \<Rightarrow> (Failed e, st1)
            | Pending \<Rightarrow> (Pending, st1)
            | Panicked \<Rightarrow> (Panicked, st1))"

definition poll_read ::
  "readings \<Rightarrow> 'i inner_read \<Rightarrow> (nat \<Rightarrow> bool) \<Rightarrow> nat \<Rightarrow> 'i RateLimitedStream \<times> limiter_heap \<Rightarrow>
     u8 list io_poll \<times> 'i RateLimitedStream \<times> limiter_heap" where
  "poll_read ob inner advance remaining = (\<lambda>(st, heap).
     case rs_read_limiter st of
       None \<Rightarrow> (let (res, i1) = inner remaining (rs_inner st) in (res, st\<lparr>rs_inner := i1\<rparr>, heap))
     | Some r \<Rightarrow>
         if rs_read_permit_fut st = None \<and> remaining = 0 then (Ready [], st, heap)
         else let to_read = min remaining chunk_size;
                  (g, l1) = pass_gate ob (rs_read_permit_fut st) (of_nat to_read) (heap ! r);
                  heap1 = heap[r := l1]
              in case g of
                 Broken \<Rightarrow> (Panicked, st, heap1)
               | Wait n \<Rightarrow> (Pending, st\<lparr>rs_read_permit_fut := Some n\<rparr>, heap1)
               | Open \<Rightarrow> (let (res, st1) = transfer_read inner advance remaining (st\<lparr>rs_read_permit_fut := None\<rparr>)
                         in (res, st1, heap1)))"

definition transfer_write ::
  "'i inner_write \<Rightarrow> u8 list \<Rightarrow> 'i RateLimitedStream \<Rightarrow> nat io_poll \<times> 'i RateLimitedStream" where
  "transfer_write inner buf st =
     (if buf = [] then (Ready 0, st)
      else let to_write = min (length buf) chunk_size; (res, i1) = inner (take to_write buf) (rs_inner st)
           in (res, st\<lparr>rs_inner := i1\<rparr>))"

definition poll_write ::
  "readings \<Rightarrow> 'i inner_write \<Rightarrow> u8 list \<Rightarrow> 'i RateLimitedStream \<times> limiter_heap \<Rightarrow>
     nat io_poll \<times> 'i RateLimitedStream \<times> limiter_heap" where
  "poll_write ob inner buf = (\<lambda>(st, heap).
     case rs_write_limiter st of
       None \<Rightarrow> (let (res, i1) = inner buf (rs_inner st) in (res, st\<lparr>rs_inner := i1\<rparr>, heap))
     | Some r \<Rightarrow>
         if rs_write_permit_fut st = None \<and> buf = [] then (Ready 0, st, heap)
         else let to_write = min (length buf) chunk_size;
                  (g, l1) = pass_gate ob (rs_write_permit_fut st) (of_nat to_write) (heap ! r);
                  heap1 = heap[r := l1]
              in case g of
                 Broken \<Rightarrow> (Panicked, st, heap1)
               | Wait n \<Rightarrow> (Pending, st\<lparr>rs_write_permit_fut := Some n\<rparr>, heap1)
               | Open \<Rightarrow> (let (res, st1) = transfer_write inner buf (st\<lparr>rs_write_permit_fut := None\<rparr>)
                         in (res, st1, heap1)))"

text \<open>\<open>poll_flush\<close> and \<open>poll_shutdown\<close> hand the call on.\<close>

definition poll_flush :: "('i \<Rightarrow> unit io_poll \<times> 'i) \<Rightarrow> 'i RateLimitedStream \<Rightarrow> unit io_poll \<times> 'i RateLimitedStream" where
  "poll_flush inner st = (let (res, i1) = inner (rs_inner st) in (res, st\<lparr>rs_inner := i1\<rparr>))"

definition poll_shutdown :: "('i \<Rightarrow> unit io_poll \<times> 'i) \<Rightarrow> 'i RateLimitedStream \<Rightarrow> unit io_poll \<times> 'i RateLimitedStream" where
  "poll_shutdown inner st = (let (res, i1) = inner (rs_inner st) in (res, st\<lparr>rs_inner := i1\<rparr>))"

section \<open>What a gate costs\<close>

text \<open>
  A bucket moves from \<open>l\<close> to \<open>l'\<close> by operations at the given readings only, granting \<open>g\<close> tokens.
\<close>

definition charged :: "instant set \<Rightarrow> nat \<Rightarrow> nat \<Rightarrow> SimpleLimiter \<Rightarrow> SimpleLimiter \<Rightarrow> bool" where
  "charged ts k g l l' \<longleftrightarrow>
     (\<exists>ops. bucket_run ops l = (g, l') \<and> op_time ` set ops \<subseteq> ts \<and> length ops \<le> k)"

lemma bucket_run_append:
  "bucket_run (xs @ ys) l = (let (g, l1) = bucket_run xs l; (h, l2) = bucket_run ys l1 in (g + h, l2))"
  by (induction xs arbitrary: l) (simp_all add: split_beta Let_def add.assoc)

lemma charged_refl: "charged ts k 0 l l"
  unfolding charged_def by (intro exI[of _ "[]"]) simp

lemma charged_trans:
  assumes "charged ts k g l l1" "charged ts' k' g' l1 l2"
  shows "charged (ts \<union> ts') (k + k') (g + g') l l2"
proof -
  from assms obtain xs ys where "bucket_run xs l = (g, l1)" "op_time ` set xs \<subseteq> ts" "length xs \<le> k"
    "bucket_run ys l1 = (g', l2)" "op_time ` set ys \<subseteq> ts'" "length ys \<le> k'"
    unfolding charged_def by blast
  then show ?thesis unfolding charged_def by (intro exI[of _ "xs @ ys"]) (auto simp: bucket_run_append)
qed

lemma charged_mono: "charged ts k g l l' \<Longrightarrow> ts \<subseteq> ts' \<Longrightarrow> k \<le> k' \<Longrightarrow> charged ts' k' g l l'"
  unfolding charged_def by (meson order_trans)

lemma charged_round: "charged {now} 1 (if fst (try_ready now n l) = Granted then unat n else 0) l (snd (try_ready now n l))"
  unfolding charged_def by (intro exI[of _ "[Round now n]"]) (simp add: split_beta)

lemma charged_check: "charged {now} 1 (if fst (check_n now n l) then unat n else 0) l (snd (check_n now n l))"
  unfolding charged_def by (intro exI[of _ "[Check now n]"]) (simp add: split_beta)

text \<open>A gate that opens has been paid for, a gate that does not open has cost nothing.\<close>

definition toll :: "gate \<Rightarrow> u32 \<Rightarrow> nat" where
  "toll g n = (if g = Open then unat n else 0)"

lemma permit_rounds_charged:
  "permit_rounds n ts l = (g, l') \<Longrightarrow> charged (set ts) (length ts) (toll g n) l l' \<and> (\<forall>m. g = Wait m \<longrightarrow> m = n)"
proof (induction n ts l rule: permit_rounds.induct)
  case (2 n now wakes l)
  obtain a l1 where t: "try_ready now n l = (a, l1)" by (cases "try_ready now n l")
  have c: "charged {now} 1 (if a = Granted then unat n else 0) l l1" using charged_round[of now n l] t by simp
  show ?case
  proof (cases a)
    case (Sleep d)
    with 2(2) t have "permit_rounds n wakes l1 = (g, l')" by simp
    from 2(1)[OF t[symmetric] Sleep this] charged_trans[OF c, of "set wakes" "length wakes" "toll g n" l'] Sleep
    show ?thesis by simp
  qed (use 2(2) t c in \<open>auto simp: toll_def intro: charged_mono\<close>)
qed (auto simp: toll_def charged_refl)

lemma pass_gate_charged:
  assumes "pass_gate ob fut n_req l = (g, l')"
  defines "n \<equiv> case fut of Some n \<Rightarrow> n | None \<Rightarrow> n_req"
  shows "charged (insert (ob_now ob) (insert (ob_first ob) (set (ob_wakes ob)))) (length (ob_wakes ob) + 2) (toll g n) l l' \<and>
    (\<forall>m. g = Wait m \<longrightarrow> m = n)"
proof (cases fut)
  case (Some m)
  then show ?thesis using permit_rounds_charged[of m "ob_wakes ob" l g l'] assms
    by (auto simp: pass_gate_def intro: charged_mono)
next
  case None
  obtain ok l1 where c: "check_n (ob_now ob) n_req l = (ok, l1)" by (cases "check_n (ob_now ob) n_req l")
  have paid: "charged {ob_now ob} 1 (if ok then unat n_req else 0) l l1" using charged_check[of "ob_now ob" n_req l] c by simp
  show ?thesis
  proof (cases ok)
    case True
    then show ?thesis using assms None c paid by (auto simp: pass_gate_def toll_def intro: charged_mono)
  next
    case False
    then have "permit_rounds n_req (ob_first ob # ob_wakes ob) l1 = (g, l')" using assms None c by (simp add: pass_gate_def)
    from permit_rounds_charged[OF this] show ?thesis using charged_trans[OF paid] False None
      by (fastforce simp: n_def intro: charged_mono)
  qed
qed

section \<open>Polls of many streams on shared buckets\<close>

text \<open>The bytes a poll has transferred.\<close>

definition read_count :: "u8 list io_poll \<Rightarrow> nat" where
  "read_count res = (case res of Ready data \<Rightarrow> length data | _ \<Rightarrow> 0)"

definition write_count :: "nat io_poll \<Rightarrow> nat" where
  "write_count res = (case res of Ready n \<Rightarrow> n | _ \<Rightarrow> 0)"

lemma read_count_simps [simp]:
  "read_count (Ready data) = length data" "read_count Pending = 0" "read_count Panicked = 0" "read_count (Failed e) = 0"
  by (simp_all add: read_count_def)

lemma write_count_simps [simp]:
  "write_count (Ready n) = n" "write_count Pending = 0" "write_count Panicked = 0" "write_count (Failed e) = 0"
  by (simp_all add: write_count_def)

text \<open>
  The polls of all connections, one after the other: which stream, the readings, the inner call and
  the caller's buffer.
\<close>

datatype 'i io_event =
    ReadPoll nat readings "'i inner_read" "nat \<Rightarrow> bool" nat
  | WritePoll nat readings "'i inner_write" "u8 list"

type_synonym 'i io_state = "'i RateLimitedStream list \<times> limiter_heap"

fun io_step :: "'i io_event \<Rightarrow> 'i io_state \<Rightarrow> nat \<times> 'i io_state" where
  "io_step (ReadPoll i ob inner advance remaining) (sts, heap) =
     (let (res, st1, heap1) = poll_read ob inner advance remaining (sts ! i, heap)
      in (read_count res, sts[i := st1], heap1))"
| "io_step (WritePoll i ob inner buf) (sts, heap) =
     (let (res, st1, heap1) = poll_write ob inner buf (sts ! i, heap)
      in (write_count res, sts[i := st1], heap1))"

text \<open>The bucket an event goes through, the permit it finds pending, and how much it would transfer.\<close>

fun event_limiter :: "'i io_event \<Rightarrow> 'i io_state \<Rightarrow> limiter_ref option" where
  "event_limiter (ReadPoll i ob inner advance remaining) (sts, heap) = rs_read_limiter (sts ! i)"
| "event_limiter (WritePoll i ob inner buf) (sts, heap) = rs_write_limiter (sts ! i)"

fun event_permit :: "'i io_event \<Rightarrow> 'i io_state \<Rightarrow> u32 option" where
  "event_permit (ReadPoll i ob inner advance remaining) (sts, heap) = rs_read_permit_fut (sts ! i)"
| "event_permit (WritePoll i ob inner buf) (sts, heap) = rs_write_permit_fut (sts ! i)"

fun event_want :: "'i io_event \<Rightarrow> nat" where
  "event_want (ReadPoll i ob inner advance remaining) = min remaining chunk_size"
| "event_want (WritePoll i ob inner buf) = min (length buf) chunk_size"

fun event_stream :: "'i io_event \<Rightarrow> nat" where
  "event_stream (ReadPoll i ob inner advance remaining) = i"
| "event_stream (WritePoll i ob inner buf) = i"

fun event_readings :: "'i io_event \<Rightarrow> readings" where
  "event_readings (ReadPoll i ob inner advance remaining) = ob"
| "event_readings (WritePoll i ob inner buf) = ob"

abbreviation reading_set :: "readings \<Rightarrow> instant set" where
  "reading_set ob \<equiv> insert (ob_now ob) (insert (ob_first ob) (set (ob_wakes ob)))"

text \<open>The contract of the inner stream: it fills no more than the room it was given and writes no more than the bytes.\<close>

fun event_ok :: "'i io_event \<Rightarrow> bool" where
  "event_ok (ReadPoll i ob inner advance remaining) \<longleftrightarrow>
     (\<forall>k s data s'. inner k s = (Ready data, s') \<longrightarrow> length data \<le> k)"
| "event_ok (WritePoll i ob inner buf) \<longleftrightarrow>
     (\<forall>bs s n s'. inner bs s = (Ready n, s') \<longrightarrow> n \<le> length bs)"

text \<open>A caller that does not enlarge its buffer while a permit is pending.\<close>

definition steady :: "'i io_event \<Rightarrow> 'i io_state \<Rightarrow> bool" where
  "steady e s \<longleftrightarrow> (case event_permit e s of Some n \<Rightarrow> event_want e \<le> unat n | None \<Rightarrow> True)"

fun io_run :: "limiter_ref \<Rightarrow> 'i io_event list \<Rightarrow> 'i io_state \<Rightarrow> nat \<times> 'i io_state" where
  "io_run r [] s = (0, s)"
| "io_run r (e # es) s =
     (let (n, s1) = io_step e s; (m, s2) = io_run r es s1
      in ((if event_limiter e s = Some r then n else 0) + m, s2))"

text \<open>Every event of a run is on an existing stream, keeps the inner contract and finds a steady buffer.\<close>

fun run_ok :: "limiter_ref \<Rightarrow> 'i io_event list \<Rightarrow> 'i io_state \<Rightarrow> bool" where
  "run_ok r [] s \<longleftrightarrow> True"
| "run_ok r (e # es) s \<longleftrightarrow> event_stream e < length (fst s) \<and> event_ok e \<and>
     (event_limiter e s = Some r \<longrightarrow> steady e s) \<and> run_ok r es (snd (io_step e s))"

lemma transfer_read_bound:
  assumes "\<forall>k s data s'. inner k s = (Ready data, s') \<longrightarrow> length data \<le> k"
    "fst (transfer_read inner advance remaining st) = Ready data"
  shows "length data \<le> min remaining chunk_size"
proof (cases "remaining = 0")
  case False
  obtain res i1 where i: "inner (min remaining chunk_size) (rs_inner st) = (res, i1)" by fastforce
  then have "res = Ready data" using assms(2) False
    by (auto simp: transfer_read_def Let_def split: if_splits io_poll.splits)
  then show ?thesis using assms(1) i by blast
qed (use assms in \<open>simp add: transfer_read_def\<close>)

lemma transfer_write_bound:
  assumes "\<forall>bs s n s'. inner bs s = (Ready n, s') \<longrightarrow> n \<le> length bs" "fst (transfer_write inner buf st) = Ready n"
  shows "n \<le> min (length buf) chunk_size"
proof (cases "buf = []")
  case False
  obtain res i1 where "inner (take (min (length buf) chunk_size) buf) (rs_inner st) = (res, i1)" by fastforce
  then show ?thesis using assms False by (fastforce simp: transfer_write_def)
qed (use assms in \<open>simp add: transfer_write_def\<close>)

lemma unat_chunk: "unat (of_nat (min k chunk_size) :: u32) = min k chunk_size"
  by (rule unat_of_nat_small) (simp add: chunk_size_def)

text \<open>
  The part of a transfer that its gate has paid for: all of it when the gate took the tokens of the
  present chunk, the tokens of the permit when one was pending.
\<close>

definition covered :: "u32 option \<Rightarrow> nat \<Rightarrow> nat" where
  "covered fut bytes = (case fut of Some n \<Rightarrow> min bytes (unat n) | None \<Rightarrow> bytes)"

text \<open>A limited poll charges its bucket for at least that, and touches no other bucket.\<close>

lemma gate_pays:
  assumes "pass_gate ob fut (of_nat (min want chunk_size)) l = (g, l1)"
    "ok \<Longrightarrow> bytes \<le> (if g = Open then min want chunk_size else 0)"
  shows "\<exists>paid. charged (reading_set ob) (length (ob_wakes ob) + 2) paid l l1 \<and> (ok \<longrightarrow> covered fut bytes \<le> paid)"
proof (intro exI conjI impI)
  let ?n = "case fut of Some n \<Rightarrow> n | None \<Rightarrow> of_nat (min want chunk_size)"
  show "charged (reading_set ob) (length (ob_wakes ob) + 2) (toll g ?n) l l1"
    using pass_gate_charged[OF assms(1)] by simp
  assume ok: "ok"
  show "covered fut bytes \<le> toll g ?n"
    using assms(2)[OF ok] by (cases "g = Open"; cases fut) (simp_all add: covered_def toll_def unat_chunk del: of_nat_min)
qed

lemma poll_read_gate:
  assumes "rs_read_limiter st = Some r" "rs_read_permit_fut st \<noteq> None \<or> 0 < remaining"
    "pass_gate ob (rs_read_permit_fut st) (of_nat (min remaining chunk_size)) (heap ! r) = (g, l1)"
  shows "poll_read ob inner advance remaining (st, heap) =
    (case g of
       Broken \<Rightarrow> (Panicked, st, heap[r := l1])
     | Wait n \<Rightarrow> (Pending, st\<lparr>rs_read_permit_fut := Some n\<rparr>, heap[r := l1])
     | Open \<Rightarrow> (fst (transfer_read inner advance remaining (st\<lparr>rs_read_permit_fut := None\<rparr>)),
                snd (transfer_read inner advance remaining (st\<lparr>rs_read_permit_fut := None\<rparr>)), heap[r := l1]))"
  using assms by (auto simp: poll_read_def Let_def split_beta split: gate.split)

lemma poll_write_gate:
  assumes "rs_write_limiter st = Some r" "rs_write_permit_fut st \<noteq> None \<or> buf \<noteq> []"
    "pass_gate ob (rs_write_permit_fut st) (of_nat (min (length buf) chunk_size)) (heap ! r) = (g, l1)"
  shows "poll_write ob inner buf (st, heap) =
    (case g of
       Broken \<Rightarrow> (Panicked, st, heap[r := l1])
     | Wait n \<Rightarrow> (Pending, st\<lparr>rs_write_permit_fut := Some n\<rparr>, heap[r := l1])
     | Open \<Rightarrow> (fst (transfer_write inner buf (st\<lparr>rs_write_permit_fut := None\<rparr>)),
                snd (transfer_write inner buf (st\<lparr>rs_write_permit_fut := None\<rparr>)), heap[r := l1]))"
  using assms by (auto simp: poll_write_def Let_def split_beta split: gate.split)

text \<open>What a limited poll does to the heap: one bucket is charged, the others are left alone.\<close>

definition charges :: "readings \<Rightarrow> bool \<Rightarrow> nat \<Rightarrow> limiter_ref \<Rightarrow> limiter_heap \<Rightarrow> limiter_heap \<Rightarrow> bool" where
  "charges ob ok bytes r heap heap1 \<longleftrightarrow>
     (\<exists>l1 paid. heap1 = heap[r := l1] \<and> charged (reading_set ob) (length (ob_wakes ob) + 2) paid (heap ! r) l1 \<and>
        (ok \<longrightarrow> bytes \<le> paid))"

lemma charges_idle: "charges ob ok 0 r heap heap"
  unfolding charges_def by (intro exI[of _ "heap ! r"] exI[of _ 0]) (simp add: charged_refl)

lemma poll_read_charges:
  assumes "rs_read_limiter st = Some r"
    "ok \<Longrightarrow> \<forall>k s data s'. inner k s = (Ready data, s') \<longrightarrow> length data \<le> k"
  shows "case poll_read ob inner advance remaining (st, heap) of (res, st1, heap1) \<Rightarrow>
    charges ob ok (covered (rs_read_permit_fut st) (read_count res)) r heap heap1"
proof (cases "rs_read_permit_fut st \<noteq> None \<or> 0 < remaining")
  case False
  then show ?thesis using assms(1) by (simp add: poll_read_def covered_def charges_idle)
next
  case True
  let ?st = "st\<lparr>rs_read_permit_fut := None\<rparr>"
  obtain g l1 where g: "pass_gate ob (rs_read_permit_fut st) (of_nat (min remaining chunk_size)) (heap ! r) = (g, l1)" by fastforce
  note poll = poll_read_gate[OF assms(1) True g, of inner advance]
  have "read_count (fst (transfer_read inner advance remaining ?st)) \<le> min remaining chunk_size" if ok
    using transfer_read_bound[OF assms(2)[OF that], of advance remaining ?st]
    by (cases "fst (transfer_read inner advance remaining ?st)") auto
  then show ?thesis using gate_pays[OF g, of ok "read_count (fst (poll_read ob inner advance remaining (st, heap)))"]
    unfolding charges_def poll by (cases g) auto
qed

lemma poll_write_charges:
  assumes "rs_write_limiter st = Some r"
    "ok \<Longrightarrow> \<forall>bs s n s'. inner bs s = (Ready n, s') \<longrightarrow> n \<le> length bs"
  shows "case poll_write ob inner buf (st, heap) of (res, st1, heap1) \<Rightarrow>
    charges ob ok (covered (rs_write_permit_fut st) (write_count res)) r heap heap1"
proof (cases "rs_write_permit_fut st \<noteq> None \<or> buf \<noteq> []")
  case False
  then show ?thesis using assms(1) by (simp add: poll_write_def covered_def charges_idle)
next
  case True
  let ?st = "st\<lparr>rs_write_permit_fut := None\<rparr>"
  obtain g l1 where g: "pass_gate ob (rs_write_permit_fut st) (of_nat (min (length buf) chunk_size)) (heap ! r) = (g, l1)" by fastforce
  note poll = poll_write_gate[OF assms(1) True g, of inner]
  have "write_count (fst (transfer_write inner buf ?st)) \<le> min (length buf) chunk_size" if ok
    using transfer_write_bound[OF assms(2)[OF that], of buf ?st]
    by (cases "fst (transfer_write inner buf ?st)") auto
  then show ?thesis using gate_pays[OF g, of ok "write_count (fst (poll_write ob inner buf (st, heap)))"]
    unfolding charges_def poll by (cases g) auto
qed

lemma io_step_charges:
  assumes "event_limiter e (sts, heap) = Some r"
  shows "case io_step e (sts, heap) of (n, sts1, heap1) \<Rightarrow>
    charges (event_readings e) (event_ok e) (covered (event_permit e (sts, heap)) n) r heap heap1"
proof (cases e)
  case (ReadPoll i ob inner advance remaining)
  then show ?thesis
    using assms poll_read_charges[where st = "sts ! i" and ok = "event_ok e" and inner = inner and heap = heap] by (auto simp: split_beta Let_def)
next
  case (WritePoll i ob inner buf)
  then show ?thesis
    using assms poll_write_charges[where st = "sts ! i" and ok = "event_ok e" and inner = inner and heap = heap] by (auto simp: split_beta Let_def)
qed

text \<open>A limited poll transfers a chunk at most, so a caller whose buffer does not grow pays for all of it.\<close>

lemma poll_read_count:
  assumes "rs_read_limiter st = Some r" "\<forall>k s data s'. inner k s = (Ready data, s') \<longrightarrow> length data \<le> k"
  shows "read_count (fst (poll_read ob inner advance remaining (st, heap))) \<le> min remaining chunk_size"
proof (cases "rs_read_permit_fut st \<noteq> None \<or> 0 < remaining")
  case True
  let ?st = "st\<lparr>rs_read_permit_fut := None\<rparr>"
  obtain g l1 where g: "pass_gate ob (rs_read_permit_fut st) (of_nat (min remaining chunk_size)) (heap ! r) = (g, l1)" by fastforce
  have "read_count (fst (transfer_read inner advance remaining ?st)) \<le> min remaining chunk_size"
    using transfer_read_bound[OF assms(2), of advance remaining ?st]
    by (cases "fst (transfer_read inner advance remaining ?st)") auto
  then show ?thesis unfolding poll_read_gate[OF assms(1) True g, of inner advance] by (cases g) simp_all
qed (use assms(1) in \<open>simp add: poll_read_def\<close>)

lemma poll_write_count:
  assumes "rs_write_limiter st = Some r" "\<forall>bs s n s'. inner bs s = (Ready n, s') \<longrightarrow> n \<le> length bs"
  shows "write_count (fst (poll_write ob inner buf (st, heap))) \<le> min (length buf) chunk_size"
proof (cases "rs_write_permit_fut st \<noteq> None \<or> buf \<noteq> []")
  case True
  let ?st = "st\<lparr>rs_write_permit_fut := None\<rparr>"
  obtain g l1 where g: "pass_gate ob (rs_write_permit_fut st) (of_nat (min (length buf) chunk_size)) (heap ! r) = (g, l1)" by fastforce
  have "write_count (fst (transfer_write inner buf ?st)) \<le> min (length buf) chunk_size"
    using transfer_write_bound[OF assms(2), of buf ?st] by (cases "fst (transfer_write inner buf ?st)") auto
  then show ?thesis unfolding poll_write_gate[OF assms(1) True g, of inner] by (cases g) simp_all
qed (use assms(1) in \<open>simp add: poll_write_def\<close>)

lemma io_step_steady:
  assumes "event_limiter e s = Some r" "event_ok e" "steady e s"
  shows "covered (event_permit e s) (fst (io_step e s)) = fst (io_step e s)"
proof -
  obtain sts heap where s: "s = (sts, heap)" by (cases s)
  have "fst (io_step e s) \<le> event_want e"
    using assms(1,2) by (cases e) (auto simp: s split_beta Let_def intro!: poll_read_count poll_write_count simp del: min.bounded_iff)
  then show ?thesis using assms(3) by (auto simp: steady_def covered_def split: option.splits)
qed

lemma io_step_unlimited:
  assumes "event_limiter e (sts, heap) = None"
  shows "snd (snd (io_step e (sts, heap))) = heap"
  using assms by (cases e) (simp_all add: poll_read_def poll_write_def split_beta Let_def)

lemma io_step_bucket:
  assumes "r < length heap"
  shows "length (snd (snd (io_step e (sts, heap)))) = length heap \<and>
    (\<exists>paid. charged (reading_set (event_readings e)) (length (ob_wakes (event_readings e)) + 2) paid
        (heap ! r) (snd (snd (io_step e (sts, heap))) ! r) \<and>
      (event_ok e \<and> (event_limiter e (sts, heap) = Some r \<longrightarrow> steady e (sts, heap)) \<longrightarrow>
        (if event_limiter e (sts, heap) = Some r then fst (io_step e (sts, heap)) else 0) \<le> paid))"
proof (cases "event_limiter e (sts, heap)")
  case None
  then show ?thesis by (simp add: io_step_unlimited) (meson charged_refl le0)
next
  case (Some r')
  obtain n sts1 heap1 where st: "io_step e (sts, heap) = (n, sts1, heap1)" by (metis prod.exhaust)
  from io_step_charges[OF Some] st obtain l1 paid where h: "heap1 = heap[r' := l1]"
    "charged (reading_set (event_readings e)) (length (ob_wakes (event_readings e)) + 2) paid (heap ! r') l1"
    "event_ok e \<longrightarrow> covered (event_permit e (sts, heap)) n \<le> paid"
    by (auto simp: charges_def)
  show ?thesis
  proof (cases "r' = r")
    case True
    then show ?thesis using assms h st Some io_step_steady[OF Some] by auto
  next
    case False
    then show ?thesis using h st Some by (auto intro!: exI[of _ 0] charged_refl)
  qed
qed

text \<open>The readings of a run and the number of bucket operations its polls can make.\<close>

definition run_readings :: "'i io_event list \<Rightarrow> instant set" where
  "run_readings es = (\<Union>e \<in> set es. reading_set (event_readings e))"

definition run_ops :: "'i io_event list \<Rightarrow> nat" where
  "run_ops es = (\<Sum>e \<leftarrow> es. length (ob_wakes (event_readings e)) + 2)"

lemma io_run_charged:
  assumes "r < length (snd s)" "run_ok r es s"
  shows "\<exists>paid l'. charged (run_readings es) (run_ops es) paid (snd s ! r) l' \<and> fst (io_run r es s) \<le> paid"
  using assms
proof (induction es arbitrary: s)
  case Nil
  then show ?case using charged_refl by (fastforce simp: run_readings_def run_ops_def)
next
  case (Cons e es)
  obtain sts heap where s: "s = (sts, heap)" by (cases s)
  let ?s1 = "snd (io_step e s)"
  let ?n = "if event_limiter e s = Some r then fst (io_step e s) else 0"
  from io_step_bucket[of r heap e sts] Cons.prems obtain paid where
    len: "r < length (snd ?s1)" and
    paid: "charged (reading_set (event_readings e)) (length (ob_wakes (event_readings e)) + 2) paid (snd s ! r) (snd ?s1 ! r)"
      "?n \<le> paid"
    unfolding s by auto
  from Cons.IH[OF len] Cons.prems(2) obtain paid' l' where
    rest: "charged (run_readings es) (run_ops es) paid' (snd ?s1 ! r) l'" "fst (io_run r es ?s1) \<le> paid'" by auto
  have "charged (run_readings (e # es)) (run_ops (e # es)) (paid + paid') (snd s ! r) l'"
    using charged_trans[OF paid(1) rest(1)] by (simp add: run_readings_def run_ops_def)
  moreover have "fst (io_run r (e # es) s) \<le> paid + paid'"
    using paid(2) rest(2) by (simp add: split_beta Let_def)
  ultimately show ?case by blast
qed

lemma charged_bound:
  assumes "bucket_ok l" "charged ts k g l l'" "sl_last_update l \<le> t" "\<forall>x \<in> ts. x \<le> t"
  shows "of_nat g \<le> burst_of l + rate_of l * secs (t - sl_last_update l) * (1 + eps64) ^ 4 + of_nat k * (2 * (burst_of l * eps64))"
proof -
  obtain ops where ops: "bucket_run ops l = (g, l')" "op_time ` set ops \<subseteq> ts" "length ops \<le> k"
    using assms(2) unfolding charged_def by blast
  have "\<forall>x \<in> set ops. op_time x \<le> t" using ops(2) assms(4) by blast
  from bucket_rate_le[OF assms(1,3) this] ops(1)
  have "of_nat g \<le> burst_of l + rate_of l * secs (t - sl_last_update l) * (1 + eps64) ^ 4 + of_nat (length ops) * (2 * (burst_of l * eps64))"
    by simp
  moreover have "of_nat (length ops) * (2 * (burst_of l * eps64)) \<le> of_nat k * (2 * (burst_of l * eps64))"
    using ops(3) b64.eps_bounds(1) by (intro mult_right_mono) simp_all
  ultimately show ?thesis by linarith
qed

text \<open>
  C15. The bytes that pass a bucket until time \<open>t\<close>, read and written, over all the streams that share it
  and whatever streams on other buckets do, are at most its burst plus its rate times the period, up
  to the binary64 rounding errors. This needs callers that do not enlarge a buffer while a permit for
  it is pending, and inner streams that transfer no more than they are asked to.
\<close>

theorem bandwidth_bound:
  assumes "r < length heap" "bucket_ok (heap ! r)" "run_ok r es (sts, heap)"
    "sl_last_update (heap ! r) \<le> t" "\<forall>x \<in> run_readings es. x \<le> t"
  shows "of_nat (fst (io_run r es (sts, heap))) \<le>
    burst_of (heap ! r) + rate_of (heap ! r) * secs (t - sl_last_update (heap ! r)) * (1 + eps64) ^ 4 +
    of_nat (run_ops es) * (2 * (burst_of (heap ! r) * eps64))"
proof -
  obtain paid l' where c: "charged (run_readings es) (run_ops es) paid (heap ! r) l'" and
    b: "fst (io_run r es (sts, heap)) \<le> paid"
    using io_run_charged[of r "(sts, heap)" es] assms(1,3) by auto
  have "(of_nat (fst (io_run r es (sts, heap))) :: rat) \<le> of_nat paid" using b by simp
  with charged_bound[OF assms(2) c assms(4,5)] show ?thesis by linarith
qed

text \<open>
  Two streams on one bucket of 100 bytes: the second read has to wait, and still waits when it is
  polled again, while the first stream takes what is left.
\<close>

definition sample_inner :: "unit inner_read" where
  "sample_inner k s = (Ready (replicate k 0), s)"

definition sample_now :: readings where
  "sample_now = \<lparr>ob_now = 0, ob_first = 0, ob_wakes = []\<rparr>"

definition sample_events :: "unit io_event list" where
  "sample_events = map (\<lambda>(i, k). ReadPoll i sample_now sample_inner (\<lambda>_. True) k) [(0, 60), (1, 60), (1, 60), (0, 40)]"

definition sample_streams :: "unit RateLimitedStream list" where
  "sample_streams = [new_stream () (Some 0) None, new_stream () (Some 0) None]"

definition sample_heap :: limiter_heap where
  "sample_heap = [new_limiter 1000 100 0]"

lemma permit_rounds_short:
  assumes "sl_last_update l = now" "bucket_ok l" "sl_rate_per_sec l \<noteq> 0" "sl_tokens l < f64_of_u32 n"
  shows "permit_rounds n [now] l = (Wait n, l)"
  using assms(2,3)
proof (cases rule: try_ready_cases[where n = n and now = now])
  case (sleep d)
  then show ?thesis using assms(1) by auto
qed (use assms in auto)

lemmas sample_defs = sample_events_def sample_streams_def sample_heap_def sample_now_def new_stream_def new_limiter_def

lemmas poll_defs = poll_read_def poll_write_def transfer_read_def transfer_write_def pass_gate_def check_n_def refill_def chunk_size_def

theorem bandwidth_bound_witness:
  "fst (io_run 0 sample_events (sample_streams, sample_heap)) = 100 \<and>
   of_nat (fst (io_run 0 sample_events (sample_streams, sample_heap))) \<le>
     burst_of (sample_heap ! 0) + rate_of (sample_heap ! 0) * secs (0 - sl_last_update (sample_heap ! 0)) * (1 + eps64) ^ 4 +
     of_nat (run_ops sample_events) * (2 * (burst_of (sample_heap ! 0) * eps64))"
proof (rule conjI)
  show "fst (io_run 0 sample_events (sample_streams, sample_heap)) = 100"
    by (simp add: sample_defs sample_inner_def poll_defs Let_def f64_of_u32_def permit_rounds_short bucket_ok_def del: permit_rounds.simps(2))
  show "of_nat (fst (io_run 0 sample_events (sample_streams, sample_heap))) \<le>
     burst_of (sample_heap ! 0) + rate_of (sample_heap ! 0) * secs (0 - sl_last_update (sample_heap ! 0)) * (1 + eps64) ^ 4 +
     of_nat (run_ops sample_events) * (2 * (burst_of (sample_heap ! 0) * eps64))"
  proof (rule bandwidth_bound)
    show "bucket_ok (sample_heap ! 0)" by (simp add: sample_heap_def bucket_ok_new)
    have "\<forall>k s data s'. sample_inner k s = (Ready data, s') \<longrightarrow> length data \<le> k" by (auto simp: sample_inner_def)
    then show "run_ok 0 sample_events (sample_streams, sample_heap)"
      by (simp add: sample_defs sample_inner_def poll_defs Let_def f64_of_u32_def permit_rounds_short bucket_ok_def steady_def del: permit_rounds.simps(2))
  qed (simp_all add: sample_defs run_readings_def)
qed

section \<open>Buffers that grow while a permit is pending\<close>

text \<open>
  The chunk is computed anew when a pending permit is granted, so a caller that offers a larger buffer
  than the one the permit was made for is charged for the old one: on a bucket of 1024 bytes per second
  a write waits for the permit of one byte, and one second later 16384 bytes pass and 1023 tokens are left.
\<close>

theorem grown_buffer_underpays:
  "let inner = (\<lambda>bs s. (Ready (length bs), s)) :: unit inner_write;
       obs = (\<lambda>now wakes. \<lparr>ob_now = now, ob_first = now, ob_wakes = wakes\<rparr>);
       st = new_stream () None (Some 0); heap = [(new_limiter 1024 65536 0)\<lparr>sl_tokens := 0\<rparr>];
       (res1, st1, heap1) = poll_write (obs 0 []) inner [0] (st, heap);
       (res2, st2, heap2) = poll_write (obs 1000000000 [1000000000]) inner (replicate 16384 0) (st1, heap1)
   in res1 = Pending \<and> res2 = Ready 16384 \<and> sl_tokens (heap2 ! 0) = 1023"
proof -
  let ?l = "(new_limiter 1024 65536 0)\<lparr>sl_tokens := 0\<rparr>" and ?inner = "(\<lambda>bs s. (Ready (length bs), s)) :: unit inner_write"
  have short: "permit_rounds 1 [0] ?l = (Wait 1, ?l)"
    by (rule permit_rounds_short) (simp_all add: new_limiter_def bucket_ok_def f64_of_u32_def)
  have first: "poll_write \<lparr>ob_now = 0, ob_first = 0, ob_wakes = []\<rparr> ?inner [0] (new_stream () None (Some 0), [?l]) =
      (Pending, (new_stream () None (Some 0))\<lparr>rs_write_permit_fut := Some 1\<rparr>, [?l])"
    using short by (simp add: poll_defs Let_def new_stream_def new_limiter_def f64_of_u32_def del: permit_rounds.simps)
  have gate: "pass_gate \<lparr>ob_now = 1000000000, ob_first = 1000000000, ob_wakes = [1000000000]\<rparr> (Some 1) n ?l =
      (Open, ?l\<lparr>sl_tokens := 1023, sl_last_update := 1000000000\<rparr>)" for n
    by (simp add: pass_gate_def try_ready_def refill_def Let_def new_limiter_def f64_of_u32_def as_secs_f64_def)
  have "poll_write \<lparr>ob_now = 1000000000, ob_first = 1000000000, ob_wakes = [1000000000]\<rparr> ?inner (replicate 16384 0)
      ((new_stream () None (Some 0))\<lparr>rs_write_permit_fut := Some 1\<rparr>, [?l]) =
      (Ready 16384, new_stream () None (Some 0), [?l\<lparr>sl_tokens := 1023, sl_last_update := 1000000000\<rparr>])"
    by (subst poll_write_gate[where r = 0 and g = Open and ?l1.0 = "?l\<lparr>sl_tokens := 1023, sl_last_update := 1000000000\<rparr>"])
      (simp_all add: gate new_stream_def transfer_write_def chunk_size_def)
  with first show ?thesis by (simp add: Let_def)
qed

section \<open>Permits fit the burst\<close>

text \<open>Every pending permit is for at least one token and at most a chunk.\<close>

definition permit_ok :: "u32 option \<Rightarrow> bool" where
  "permit_ok p \<longleftrightarrow> (case p of Some n \<Rightarrow> 1 \<le> unat n \<and> unat n \<le> chunk_size | None \<Rightarrow> True)"

definition stream_ok :: "'i RateLimitedStream \<Rightarrow> bool" where
  "stream_ok st \<longleftrightarrow> permit_ok (rs_read_permit_fut st) \<and> permit_ok (rs_write_permit_fut st)"

lemma permit_ok_None [simp]: "permit_ok None"
  by (simp add: permit_ok_def)

lemma pass_gate_permit_ok:
  assumes "pass_gate ob fut (of_nat (min want chunk_size)) l = (Wait n, l1)" "permit_ok fut" "fut \<noteq> None \<or> 0 < want"
  shows "permit_ok (Some n)"
proof (cases fut)
  case None
  then have "n = of_nat (min want chunk_size)" "0 < want" using pass_gate_charged[OF assms(1)] assms(3) by simp_all
  moreover have "0 < chunk_size" by (simp add: chunk_size_def)
  ultimately show ?thesis by (simp only: permit_ok_def option.case unat_chunk) simp
qed (use pass_gate_charged[OF assms(1)] assms(2) in simp)

lemma transfer_frame:
  "rs_read_permit_fut (snd (transfer_read ir advance k st)) = rs_read_permit_fut st"
  "rs_write_permit_fut (snd (transfer_read ir advance k st)) = rs_write_permit_fut st"
  "rs_read_permit_fut (snd (transfer_write iw buf st)) = rs_read_permit_fut st"
  "rs_write_permit_fut (snd (transfer_write iw buf st)) = rs_write_permit_fut st"
  by (auto simp: transfer_read_def transfer_write_def split_beta Let_def split: io_poll.split)

lemma poll_read_stream_ok:
  assumes "stream_ok st"
  shows "stream_ok (fst (snd (poll_read ob inner advance remaining (st, heap))))"
proof (cases "rs_read_limiter st")
  case None
  then show ?thesis using assms by (simp add: poll_read_def stream_ok_def split_beta Let_def)
next
  case (Some r)
  show ?thesis
  proof (cases "rs_read_permit_fut st \<noteq> None \<or> 0 < remaining")
    case True
    obtain g l1 where g: "pass_gate ob (rs_read_permit_fut st) (of_nat (min remaining chunk_size)) (heap ! r) = (g, l1)" by fastforce
    show ?thesis using assms pass_gate_permit_ok[OF _ _ True, of ob "heap ! r"] g
      unfolding poll_read_gate[OF Some True g] by (cases g) (auto simp: stream_ok_def transfer_frame)
  qed (use assms Some in \<open>simp add: poll_read_def\<close>)
qed

lemma poll_write_stream_ok:
  assumes "stream_ok st"
  shows "stream_ok (fst (snd (poll_write ob inner buf (st, heap))))"
proof (cases "rs_write_limiter st")
  case None
  then show ?thesis using assms by (simp add: poll_write_def stream_ok_def split_beta Let_def)
next
  case (Some r)
  show ?thesis
  proof (cases "rs_write_permit_fut st \<noteq> None \<or> 0 < length buf")
    case True
    then have True': "rs_write_permit_fut st \<noteq> None \<or> buf \<noteq> []" by simp
    obtain g l1 where g: "pass_gate ob (rs_write_permit_fut st) (of_nat (min (length buf) chunk_size)) (heap ! r) = (g, l1)" by fastforce
    show ?thesis using assms pass_gate_permit_ok[OF _ _ True, of ob "heap ! r"] g
      unfolding poll_write_gate[OF Some True' g] by (cases g) (auto simp: stream_ok_def transfer_frame)
  qed (use assms Some in \<open>simp add: poll_write_def\<close>)
qed

lemma io_step_stream_ok:
  assumes "list_all stream_ok sts" "event_stream e < length sts"
  shows "list_all stream_ok (fst (snd (io_step e (sts, heap))))"
proof (cases e)
  case (ReadPoll i ob inner advance remaining)
  have "stream_ok (sts ! i)" using assms ReadPoll by (simp add: list_all_length)
  from poll_read_stream_ok[OF this, of ob inner advance remaining heap] show ?thesis
    using assms(1) ReadPoll by (auto simp: split_beta Let_def list_all_iff dest!: set_update_subset_insert[THEN subsetD])
next
  case (WritePoll i ob inner buf)
  have "stream_ok (sts ! i)" using assms WritePoll by (simp add: list_all_length)
  from poll_write_stream_ok[OF this, of ob inner buf heap] show ?thesis
    using assms(1) WritePoll by (auto simp: split_beta Let_def list_all_iff dest!: set_update_subset_insert[THEN subsetD])
qed

lemma io_step_length: "length (fst (snd (io_step e (sts, heap)))) = length sts"
  by (cases e) (simp_all add: split_beta Let_def)

lemma io_run_stream_ok:
  assumes "list_all stream_ok (fst s)" "list_all (\<lambda>e. event_stream e < length (fst s)) es"
  shows "list_all stream_ok (fst (snd (io_run r es s)))"
  using assms
proof (induction es arbitrary: s)
  case (Cons e es)
  obtain sts heap where s: "s = (sts, heap)" by (cases s)
  show ?case using Cons.IH[of "snd (io_step e s)"] Cons.prems io_step_stream_ok[of sts e heap] io_step_length[of e sts heap]
    by (simp add: s split_beta Let_def)
qed simp

section \<open>Pending permits on shared buckets\<close>

text \<open>The rounds of a poll are rounds of \<open>until_n_ready\<close> that no other task comes between.\<close>

lemma permit_rounds_until:
  "permit_rounds n wakes l = (Open, l') \<longleftrightarrow> until_n_ready (map (Pair []) wakes) n l = Some (Granted, l')"
  by (induction wakes arbitrary: l) (auto split: prod.split attempt.split)

lemma io_run_append: "io_run r (xs @ ys) s = (let (n, s1) = io_run r xs s; (m, s2) = io_run r ys s1 in (n + m, s2))"
  by (induction xs arbitrary: s) (simp_all add: split_beta Let_def add.assoc)

lemma io_step_heap_length: "length (snd (snd (io_step e (sts, heap)))) = length heap"
  using io_step_unlimited[of e sts heap] io_step_charges[of e sts heap]
  by (cases "event_limiter e (sts, heap)") (auto simp: charges_def split_beta)

lemma io_run_lengths:
  "length (fst (snd (io_run r es s))) = length (fst s)" "length (snd (snd (io_run r es s))) = length (snd s)"
proof (induction es arbitrary: s)
  case (Cons e es)
  {
    case 1
    show ?case using Cons.IH(1) io_step_length[of e "fst s" "snd s"] by (simp add: split_beta Let_def)
  next
    case 2
    show ?case using Cons.IH(2) io_step_heap_length[of e "fst s" "snd s"] by (simp add: split_beta Let_def)
  }
qed simp_all

lemma event_permit_ok:
  assumes "list_all stream_ok sts" "event_stream e < length sts" "event_permit e (sts, heap) = Some n"
  shows "permit_ok (Some n)"
  using assms by (cases e) (auto simp: list_all_length stream_ok_def)

text \<open>A poll takes tokens from the bucket \<open>r\<close> when its gate is on it and opens.\<close>

definition takes :: "limiter_ref \<Rightarrow> 'i io_event \<Rightarrow> 'i io_state \<Rightarrow> bool" where
  "takes r e s \<longleftrightarrow> event_limiter e s = Some r \<and> (event_permit e s \<noteq> None \<or> event_want e \<noteq> 0) \<and>
     fst (pass_gate (event_readings e) (event_permit e s) (of_nat (event_want e)) (snd s ! r)) = Open"

fun untouched :: "limiter_ref \<Rightarrow> 'i io_event list \<Rightarrow> 'i io_state \<Rightarrow> bool" where
  "untouched r [] s \<longleftrightarrow> True"
| "untouched r (e # es) s \<longleftrightarrow> \<not> takes r e s \<and> untouched r es (snd (io_step e s))"

lemma io_step_gate:
  assumes "event_limiter e (sts, heap) = Some r"
    "pass_gate (event_readings e) (event_permit e (sts, heap)) (of_nat (event_want e)) (heap ! r) = (g, l1)"
  shows "snd (snd (io_step e (sts, heap))) =
      (if event_permit e (sts, heap) \<noteq> None \<or> event_want e \<noteq> 0 then heap[r := l1] else heap) \<and>
    (event_permit e (sts, heap) \<noteq> None \<and> event_stream e < length sts \<and> g = Open \<longrightarrow> event_permit e (snd (io_step e (sts, heap))) = None)"
proof (cases e)
  case (ReadPoll i ob inner advance remaining)
  show ?thesis
  proof (cases "rs_read_permit_fut (sts ! i) \<noteq> None \<or> 0 < remaining")
    case True
    then show ?thesis
      using assms poll_read_gate[of "sts ! i" r remaining ob heap g l1 inner advance]
      by (cases g) (auto simp: ReadPoll transfer_frame chunk_size_def split_beta Let_def)
  qed (use assms in \<open>auto simp: ReadPoll poll_read_def\<close>)
next
  case (WritePoll i ob inner buf)
  show ?thesis
  proof (cases "rs_write_permit_fut (sts ! i) \<noteq> None \<or> buf \<noteq> []")
    case True
    then show ?thesis
      using assms poll_write_gate[of "sts ! i" r buf ob heap g l1 inner]
      by (cases g) (auto simp: WritePoll transfer_frame chunk_size_def split_beta Let_def)
  qed (use assms in \<open>auto simp: WritePoll poll_write_def\<close>)
qed

text \<open>A poll that takes nothing from a bucket costs it nothing.\<close>

lemma io_step_untouched:
  assumes "r < length heap" "\<not> takes r e (sts, heap)"
  shows "charged (reading_set (event_readings e)) (length (ob_wakes (event_readings e)) + 2) 0 (heap ! r)
    (snd (snd (io_step e (sts, heap))) ! r)"
proof (cases "event_limiter e (sts, heap) = Some r")
  case True
  obtain g l1 where g: "pass_gate (event_readings e) (event_permit e (sts, heap)) (of_nat (event_want e)) (heap ! r) = (g, l1)"
    by fastforce
  show ?thesis
    using io_step_gate[OF True g] pass_gate_charged[OF g] assms True g by (auto simp: takes_def toll_def charged_refl)
next
  case False
  then show ?thesis
    using io_step_unlimited[of e sts heap] io_step_charges[of e sts heap]
    by (cases "event_limiter e (sts, heap)") (auto simp: charges_def split_beta charged_refl)
qed

lemma undrained_charged:
  assumes "undrained k n l0 l" "n \<le> sl_burst_size l0" "charged ts m 0 l l'"
  shows "undrained (k + m) n l0 l'"
proof -
  obtain ops where "bucket_run ops l = (0, l')" "length ops \<le> m" using assms(3) unfolding charged_def by blast
  then have "undrained (k + length ops) n l0 l'" using undrained_run[OF assms(1,2), of ops] by simp
  then show ?thesis by (rule undrained_mono) (simp add: \<open>length ops \<le> m\<close>)
qed

lemma io_run_undrained:
  assumes "undrained k n l0 (snd s ! r)" "n \<le> sl_burst_size l0" "r < length (snd s)" "untouched r es s"
  shows "undrained (k + run_ops es) n l0 (snd (snd (io_run r es s)) ! r)"
  using assms
proof (induction es arbitrary: k s)
  case (Cons e es)
  obtain sts heap where s: "s = (sts, heap)" by (cases s)
  let ?s1 = "snd (io_step e s)"
  have "undrained (k + (length (ob_wakes (event_readings e)) + 2)) n l0 (snd ?s1 ! r)"
    using Cons.prems io_step_untouched[of r heap e sts] by (intro undrained_charged[OF Cons.prems(1,2)]) (simp_all add: s)
  moreover have "length (snd ?s1) = length (snd s)" by (simp add: s io_step_heap_length)
  ultimately have "undrained (k + (length (ob_wakes (event_readings e)) + 2) + run_ops es) n l0 (snd (snd (io_run r es ?s1)) ! r)"
    using Cons.prems by (intro Cons.IH) simp_all
  then show ?case by (simp add: run_ops_def split_beta Let_def add.assoc)
qed (simp add: run_ops_def)

lemma undrained_permit_rounds:
  assumes "undrained k n l0 l" "n \<le> sl_burst_size l0" "sl_rate_per_sec l0 \<noteq> 0" "t \<in> set wakes"
    "f64_of_u32 n + of_nat (k + length wakes) * drift l0 \<le>
       sl_tokens l0 + rate_of l0 * secs (t - sl_last_update l0) * (1 - eps64) ^ 3"
  shows "fst (permit_rounds n wakes l) = Open"
  using assms
proof (induction wakes arbitrary: k l)
  case (Cons now wakes)
  have "of_nat (Suc k) * drift l0 \<le> of_nat (k + length (now # wakes)) * drift l0"
    using drift_nonneg by (intro mult_right_mono) simp_all
  then show ?case
    using undrained_round[OF Cons.prems(1-3), of now] Cons.IH[of "Suc k"] Cons.prems by auto
qed simp

lemma accrued_enough:
  assumes "1024 \<le> sl_rate_per_sec l" "sl_burst_size l = 65536" "0 \<le> sl_tokens l" "k \<le> 1000000000"
    "(unat n + 2) * 1000000000 \<le> unat (sl_rate_per_sec l) * e" "unat n \<le> 16384"
  shows "f64_of_u32 n + of_nat k * drift l \<le> sl_tokens l + rate_of l * secs e * (1 - eps64) ^ 3"
proof -
  define c where "c = (1 - eps64) ^ 3"
  have c: "0 \<le> c" "1 - 1 / 100000 \<le> c" by (simp_all add: c_def eps64_def power_divide)
  have "(of_nat ((unat n + 2) * 1000000000) :: rat) \<le> of_nat (unat (sl_rate_per_sec l) * e)"
    using assms(5) unfolding of_nat_le_iff .
  then have "f64_of_u32 n + 2 \<le> rate_of l * secs e" by (simp add: f64_of_u32_def secs_def distrib_right)
  then have "(f64_of_u32 n + 2) * (1 - 1 / 100000) \<le> rate_of l * secs e * c"
    using c by (intro mult_mono) simp_all
  then have "f64_of_u32 n + 1 \<le> rate_of l * secs e * c"
    using f64_of_u32_mono[of n 16384] assms(6) by (simp add: word_le_nat_alt f64_of_u32_def[of 16384] distrib_right)
  moreover have "of_nat k * drift l \<le> of_nat 1000000000 * drift l"
    using assms(4) drift_nonneg by (intro mult_right_mono) (simp_all only: of_nat_le_iff)
  moreover have "of_nat 1000000000 * drift l \<le> 1" by (simp add: drift_def assms(2) f64_of_u32_def eps64_def)
  ultimately have "f64_of_u32 n + of_nat k * drift l \<le> rate_of l * secs e * c" by (meson add_left_mono order_trans)
  then show ?thesis using assms(3) by (simp add: c_def)
qed

text \<open>
  C16. A permit waits only while others take the tokens. After any polls on streams that started new, a
  pending permit is for 1 to 16384 tokens. Let then any further polls happen, of any streams on any buckets,
  in which no poll takes tokens from the bucket of that permit (they may try). The next poll of its stream
  that has a round later than the bucket's last refill before those polls by the time in which \<open>n + 2\<close>
  tokens accrue opens the gate, and the permit is gone. The bucket has the manager's burst of 65536 and a
  rate of at least 1024, and the polls make at most a billion operations, which keeps the rounding errors
  below one token.
\<close>

theorem pending_permit_served:
  assumes "list_all stream_ok sts" "list_all (\<lambda>e. event_stream e < length sts) (es0 @ es @ [e])" "r < length heap"
    and "s0 = snd (io_run r es0 (sts, heap))" "l = snd s0 ! r"
    and "bucket_ok l" "1024 \<le> sl_rate_per_sec l" "sl_burst_size l = 65536"
    and "untouched r es s0" "s1 = snd (io_run r es s0)"
    and "event_limiter e s1 = Some r" "event_permit e s1 = Some n"
    and "t \<in> set (ob_wakes (event_readings e))"
    and "(unat n + 2) * 1000000000 \<le> unat (sl_rate_per_sec l) * (t - sl_last_update l)"
    and "run_ops (es @ [e]) \<le> 1000000000"
  shows "1 \<le> unat n \<and> unat n \<le> 16384 \<and> takes r e s1 \<and> event_permit e (snd (io_step e s1)) = None"
proof -
  obtain sts1 heap1 where s1: "s1 = (sts1, heap1)" by (cases s1)
  have "snd (io_run r (es0 @ es) (sts, heap)) = (sts1, heap1)"
    unfolding s1[symmetric] assms(4,10) by (simp add: io_run_append split_beta Let_def)
  then have ok: "list_all stream_ok sts1" "event_stream e < length sts1"
    using io_run_stream_ok[of "(sts, heap)" "es0 @ es" r] assms(1,2) io_run_lengths(1)[of r "es0 @ es" "(sts, heap)"] by simp_all
  have n: "1 \<le> unat n" "unat n \<le> 16384"
    using event_permit_ok[OF ok assms(12)[unfolded s1]] by (simp_all add: permit_ok_def chunk_size_def)
  have fit: "n \<le> sl_burst_size l" "sl_rate_per_sec l \<noteq> 0"
    using n(2) assms(7,8) by (auto simp: word_le_nat_alt)
  have "r < length (snd s0)" using assms(3,4) by (simp add: io_run_lengths)
  with io_run_undrained[OF undrained_refl[of l, unfolded assms(5)] _ this assms(9), of n]
  have "undrained (run_ops es) n l (snd s1 ! r)" using assms(5,6,10) fit(1) by simp
  then have u: "undrained (run_ops es) n l (heap1 ! r)" by (simp add: s1)
  have "run_ops es + length (ob_wakes (event_readings e)) \<le> 1000000000" using assms(15) by (simp add: run_ops_def)
  with accrued_enough[OF assms(7,8) _ _ assms(14) n(2)] assms(6)
  have "f64_of_u32 n + of_nat (run_ops es + length (ob_wakes (event_readings e))) * drift l \<le>
      sl_tokens l + rate_of l * secs (t - sl_last_update l) * (1 - eps64) ^ 3"
    unfolding bucket_ok_def by blast
  from undrained_permit_rounds[OF u fit assms(13) this]
  obtain l1 where g: "pass_gate (event_readings e) (event_permit e s1) (of_nat (event_want e)) (heap1 ! r) = (Open, l1)"
    using assms(12) by (cases "permit_rounds n (ob_wakes (event_readings e)) (heap1 ! r)") (simp add: pass_gate_def)
  then show ?thesis
    using n io_step_gate[of e sts1 heap1 r Open l1] assms(11,12) ok(2) by (auto simp: takes_def s1)
qed

text \<open>
  Two streams on an empty bucket of 1024 bytes per second: the first waits for 60 bytes, the second tries
  for 16384 a second later, in vain, and the first is served at its poll another second later.
\<close>

definition sample_wait :: "instant \<Rightarrow> instant list \<Rightarrow> nat \<Rightarrow> nat \<Rightarrow> unit io_event" where
  "sample_wait now wakes i k = ReadPoll i \<lparr>ob_now = now, ob_first = now, ob_wakes = wakes\<rparr> sample_inner (\<lambda>_. True) k"

abbreviation sample_empty :: SimpleLimiter where
  "sample_empty \<equiv> (new_limiter 1024 65536 0)\<lparr>sl_tokens := 0\<rparr>"

lemma sample_wait_runs:
  "snd (io_run 0 [sample_wait 0 [] 0 60] (sample_streams, [sample_empty])) =
     ([(new_stream () (Some 0) None)\<lparr>rs_read_permit_fut := Some 60\<rparr>, new_stream () (Some 0) None], [sample_empty])"
  "io_step (sample_wait 1000000000 [] 1 16384) ([st, new_stream () (Some 0) None], [sample_empty]) =
     (0, [st, (new_stream () (Some 0) None)\<lparr>rs_read_permit_fut := Some 16384\<rparr>],
      [sample_empty\<lparr>sl_tokens := 1024, sl_last_update := 1000000000\<rparr>])"
  "untouched 0 [sample_wait 1000000000 [] 1 16384] ([st, new_stream () (Some 0) None], [sample_empty])"
proof -
  let ?l = "sample_empty\<lparr>sl_tokens := 1024, sl_last_update := 1000000000\<rparr>"
  have "permit_rounds 60 [0] sample_empty = (Wait 60, sample_empty)"
    by (rule permit_rounds_short) (simp_all add: new_limiter_def bucket_ok_def f64_of_u32_def)
  then show "snd (io_run 0 [sample_wait 0 [] 0 60] (sample_streams, [sample_empty])) =
     ([(new_stream () (Some 0) None)\<lparr>rs_read_permit_fut := Some 60\<rparr>, new_stream () (Some 0) None], [sample_empty])"
    by (simp add: sample_wait_def sample_defs poll_defs Let_def f64_of_u32_def del: permit_rounds.simps)
  have "permit_rounds 16384 [1000000000] ?l = (Wait 16384, ?l)"
    by (rule permit_rounds_short) (simp_all add: new_limiter_def bucket_ok_def f64_of_u32_def)
  moreover have "check_n 1000000000 16384 sample_empty = (False, ?l)"
    by (simp add: check_n_def refill_def Let_def new_limiter_def f64_of_u32_def as_secs_f64_def)
  ultimately have gate: "pass_gate \<lparr>ob_now = 1000000000, ob_first = 1000000000, ob_wakes = []\<rparr> None 16384 sample_empty = (Wait 16384, ?l)"
    by (simp add: pass_gate_def del: permit_rounds.simps)
  then show "io_step (sample_wait 1000000000 [] 1 16384) ([st, new_stream () (Some 0) None], [sample_empty]) =
     (0, [st, (new_stream () (Some 0) None)\<lparr>rs_read_permit_fut := Some 16384\<rparr>], [?l])"
    by (simp add: sample_wait_def new_stream_def poll_read_def Let_def chunk_size_def)
  show "untouched 0 [sample_wait 1000000000 [] 1 16384] ([st, new_stream () (Some 0) None], [sample_empty])"
    using gate by (simp add: takes_def sample_wait_def new_stream_def chunk_size_def)
qed

theorem pending_permit_served_witness:
  "let s0 = snd (io_run 0 [sample_wait 0 [] 0 60] (sample_streams, [sample_empty]));
       s1 = snd (io_run 0 [sample_wait 1000000000 [] 1 16384] s0); e = sample_wait 2000000000 [2000000000] 0 60
   in event_permit e s1 = Some 60 \<and> takes 0 e s1 \<and> event_permit e (snd (io_step e s1)) = None"
proof -
  let ?s0 = "snd (io_run 0 [sample_wait 0 [] 0 60] (sample_streams, [sample_empty]))"
  let ?s1 = "snd (io_run 0 [sample_wait 1000000000 [] 1 16384] ?s0)" and ?e = "sample_wait 2000000000 [2000000000] 0 60"
  have perm: "event_permit ?e ?s1 = Some 60" "event_limiter ?e ?s1 = Some 0"
    unfolding sample_wait_runs(1) by (simp_all add: sample_wait_runs(2) Let_def del: One_nat_def) (simp_all add: sample_wait_def new_stream_def)
  have "1 \<le> unat (60 :: u32) \<and> unat (60 :: u32) \<le> 16384 \<and> takes 0 ?e ?s1 \<and> event_permit ?e (snd (io_step ?e ?s1)) = None"
    by (rule pending_permit_served[where sts = sample_streams and heap = "[sample_empty]" and ?es0.0 = "[sample_wait 0 [] 0 60]"
          and es = "[sample_wait 1000000000 [] 1 16384]" and t = 2000000000, OF _ _ _ refl refl _ _ _ _ refl perm(2,1)])
      (simp_all only: sample_wait_runs snd_conv,
       simp_all add: sample_defs sample_wait_def stream_ok_def bucket_ok_def run_ops_def)
  with perm(1) show ?thesis by (simp add: Let_def)
qed

end
