(* ===== verification/Proxy_Protocol.thy ===== *)
theory Proxy_Protocol
  imports Net_Addr
begin

text \<open>
  The PROXY protocol header (\<^verbatim>\<open>src/networking/proxy_protocol.rs\<close>) and a receiver for it, written
  from the protocol's definition. Shown here: the receiver recovers both addresses and exactly the
  bytes that follow the header when source and destination are of the same family, and finds a
  stray byte in front of them when they are not.
\<close>

section \<open>The sender\<close>

definition V2_SIG :: "u8 list" where
  "V2_SIG = [0x0D, 0x0A, 0x0D, 0x0A, 0x00, 0x0D, 0x0A, 0x51, 0x55, 0x49, 0x54, 0x0A]"

fun create_v2_header :: "SocketAddr \<Rightarrow> SocketAddr \<Rightarrow> u8 list" where
  "create_v2_header (SocketV4 src sport) (SocketV4 dst dport) =
     V2_SIG @ [0x21] @ [0x11] @ be16 12 @ octets4 src @ octets4 dst @ be16 sport @ be16 dport"
| "create_v2_header (SocketV6 src sport) (SocketV6 dst dport) =
     V2_SIG @ [0x21] @ [0x21] @ be16 36 @ octets6 src @ octets6 dst @ be16 sport @ be16 dport"
| "create_v2_header _ _ = V2_SIG @ [0x21] @ [0x20] @ [0x00] @ be16 0"

section \<open>A receiver\<close>

text \<open>
  The fixed part: signature, version and command, family and protocol, and the length of what
  follows. A receiver takes that many bytes and hands the rest to the application.
\<close>

record v2_header =
  v2_command :: nat
  v2_family :: u8
  v2_payload :: "u8 list"

definition read_v2_header :: "u8 list \<Rightarrow> (v2_header \<times> u8 list) option" where
  "read_v2_header bs =
     (if take 12 bs = V2_SIG then
        (case drop 12 bs of
           vc # fam # h # l # rest \<Rightarrow>
             (let len = unat (of_be16 h l)
              in if drop_bit 4 vc = 2 \<and> len \<le> length rest
                 then Some (\<lparr>v2_command = unat vc mod 16, v2_family = fam, v2_payload = take len rest\<rparr>, drop len rest)
                 else None)
         | _ \<Rightarrow> None)
      else None)"

text \<open>The addresses of a TCP connection, when the header has them.\<close>

definition read_ports :: "u8 list \<Rightarrow> (u16 \<times> u16) option" where
  "read_ports bs = (case u16s_of bs of [s, d] \<Rightarrow> Some (s, d) | _ \<Rightarrow> None)"

definition v2_addresses :: "v2_header \<Rightarrow> (SocketAddr \<times> SocketAddr) option" where
  "v2_addresses hdr =
     (let p = v2_payload hdr in
      if v2_command hdr \<noteq> 1 then None
      else if v2_family hdr = 0x11 then
        (case (of_octets4 (take 4 p), of_octets4 (take 4 (drop 4 p)), read_ports (drop 8 p)) of
           (Some s, Some d, Some (sp, dp)) \<Rightarrow> Some (SocketV4 s sp, SocketV4 d dp)
         | _ \<Rightarrow> None)
      else if v2_family hdr = 0x21 then
        (case (of_octets6 (take 16 p), of_octets6 (take 16 (drop 16 p)), read_ports (drop 32 p)) of
           (Some s, Some d, Some (sp, dp)) \<Rightarrow> Some (SocketV6 s sp, SocketV6 d dp)
         | _ \<Rightarrow> None)
      else None)"

definition read_v2 :: "u8 list \<Rightarrow> ((SocketAddr \<times> SocketAddr) option \<times> u8 list) option" where
  "read_v2 bs = map_option (\<lambda>(hdr, rest). (v2_addresses hdr, rest)) (read_v2_header bs)"

section \<open>Round trip\<close>

fun same_family :: "SocketAddr \<Rightarrow> SocketAddr \<Rightarrow> bool" where
  "same_family (SocketV4 _ _) (SocketV4 _ _) = True"
| "same_family (SocketV6 _ _) (SocketV6 _ _) = True"
| "same_family _ _ = False"

lemma length_V2_SIG [simp]: "length V2_SIG = 12"
  by (simp add: V2_SIG_def)

lemma length_be16 [simp]: "length (be16 w) = 2"
  by (simp add: be16_def)

lemma read_v2_header_append:
  assumes "unat w = length payload" "drop_bit 4 vc = (2 :: u8)"
  shows "read_v2_header (V2_SIG @ [vc] @ [fam] @ be16 w @ payload @ rest) =
    Some (\<lparr>v2_command = unat vc mod 16, v2_family = fam, v2_payload = payload\<rparr>, rest)"
  using assms by (simp add: read_v2_header_def be16_def of_be16_be16 Let_def)

lemma read_ports_be16: "read_ports (be16 s @ be16 d) = Some (s, d)"
  using u16s_of_be16[of "[s, d]"] by (simp add: read_ports_def)

text \<open>
  C26. For a source and a destination of the same family the header round-trips: a receiver of the header
  and the application's bytes recovers both addresses with their ports and exactly those bytes.
\<close>

theorem v2_header_roundtrip:
  assumes "same_family src dst"
  shows "read_v2 (create_v2_header src dst @ bytes) = Some (Some (src, dst), bytes)"
proof -
  consider (v4) s sp d dp where "src = SocketV4 s sp" "dst = SocketV4 d dp"
    | (v6) s sp d dp where "src = SocketV6 s sp" "dst = SocketV6 d dp"
    using assms by (cases "(src, dst)" rule: same_family.cases) auto
  then show ?thesis
  proof cases
    case v4
    let ?p = "octets4 s @ octets4 d @ be16 sp @ be16 dp"
    have "read_v2_header (create_v2_header src dst @ bytes) =
        Some (\<lparr>v2_command = 1, v2_family = 0x11, v2_payload = ?p\<rparr>, bytes)"
      using read_v2_header_append[where w = 12 and payload = ?p and vc = "0x21" and fam = "0x11" and rest = bytes] v4 by simp
    then show ?thesis using v4 by (simp add: read_v2_def v2_addresses_def read_ports_be16)
  next
    case v6
    let ?p = "octets6 s @ octets6 d @ be16 sp @ be16 dp"
    have "read_v2_header (create_v2_header src dst @ bytes) =
        Some (\<lparr>v2_command = 1, v2_family = 0x21, v2_payload = ?p\<rparr>, bytes)"
      using read_v2_header_append[where w = 36 and payload = ?p and vc = "0x21" and fam = "0x21" and rest = bytes] v6 by simp
    then show ?thesis using v6 by (simp add: read_v2_def v2_addresses_def read_ports_be16)
  qed
qed

theorem v2_header_roundtrip_witness:
  "let src = SocketV4 (Ipv4Addr 192 168 1 1) 12345; dst = SocketV4 (Ipv4Addr 10 0 0 1) 80
   in length (create_v2_header src dst) = 28 \<and> read_v2 (create_v2_header src dst @ [1, 2]) = Some (Some (src, dst), [1, 2])"
  using v2_header_roundtrip[of "SocketV4 (Ipv4Addr 192 168 1 1) 12345" "SocketV4 (Ipv4Addr 10 0 0 1) 80" "[1, 2]"]
  by simp

text \<open>
  For addresses of different families the header is one byte too long: the PROXY command is already
  written when the branch writes the LOCAL one, which a receiver reads as the family, and the last
  byte of the length reaches the application as the first byte of the connection.
\<close>

theorem v2_header_mismatch_stray_byte:
  assumes "\<not> same_family src dst"
  shows "read_v2_header (create_v2_header src dst @ bytes) =
    Some (\<lparr>v2_command = 1, v2_family = 0x20, v2_payload = []\<rparr>, 0 # bytes)"
proof -
  have "create_v2_header src dst = V2_SIG @ [0x21] @ [0x20] @ be16 0 @ [] @ [0]"
    using assms by (cases "(src, dst)" rule: same_family.cases) (simp_all add: be16_def)
  then show ?thesis using read_v2_header_append[where w = 0 and payload = "[]" and vc = "0x21" and fam = "0x20" and rest = "0 # bytes"] by simp
qed

theorem v2_header_mismatch_stray_byte_witness:
  "read_v2_header (create_v2_header (SocketV4 (Ipv4Addr 10 0 0 1) 1) (SocketV6 (Ipv6Addr 0 0 0 0 0 0 0 1) 80) @ [7]) =
    Some (\<lparr>v2_command = 1, v2_family = 0x20, v2_payload = []\<rparr>, [0, 7])"
  by (rule v2_header_mismatch_stray_byte) simp

end
