(* ===== verification/Proxy.thy ===== *)
theory Proxy
  imports Bandwidth Proxy_Protocol Metrics "HOL-Library.Multiset"
begin

text \<open>
  Proxying one connection (\<^verbatim>\<open>src/networking/proxy.rs\<close>). The sockets, the TLS library and
  \<open>copy_bidirectional\<close> are arguments; what the function itself does is the order of these calls, the
  exits on their errors and the metrics. Shown here: when a connection succeeds and what it was
  assembled from, that the connection gauge is the number of connections in progress however they
  interleave and however they end, and that traffic is counted exactly on success.
\<close>

section \<open>Data\<close>

record ProxyConfig =
  px_client_read_limiter :: "limiter_ref option"
  px_client_write_limiter :: "limiter_ref option"
  px_backend_read_limiter :: "limiter_ref option"
  px_backend_write_limiter :: "limiter_ref option"
  px_backend_tls :: "BackendTlsConfig option"
  px_proxy_protocol :: bool
  px_client_addr :: SocketAddr
  px_local_addr :: SocketAddr

text \<open>The outcome of an \<open>await\<close>; \<open>Dropped\<close> is a task that is dropped there.\<close>

datatype 'a await = Done 'a | Dropped

section \<open>Certificates\<close>

text \<open>\<open>NoVerify\<close> accepts every certificate and every signature.\<close>

datatype verifier = WebPkiRoots | NoVerify

datatype SignatureScheme =
    RSA_PKCS1_SHA1 | ECDSA_SHA1_Legacy | RSA_PKCS1_SHA256 | ECDSA_NISTP256_SHA256 | RSA_PKCS1_SHA384
  | ECDSA_NISTP384_SHA384 | RSA_PKCS1_SHA512 | ECDSA_NISTP521_SHA512 | RSA_PSS_SHA256 | RSA_PSS_SHA384
  | RSA_PSS_SHA512 | ED25519 | ED448

definition verify_server_cert :: "u8 list \<Rightarrow> u8 list list \<Rightarrow> string \<Rightarrow> u8 list \<Rightarrow> u64 \<Rightarrow> string + unit" where
  "verify_server_cert end_entity intermediates server_name ocsp_response now = Inr ()"

definition verify_tls12_signature :: "u8 list \<Rightarrow> u8 list \<Rightarrow> u8 list \<Rightarrow> string + unit" where
  "verify_tls12_signature message cert dss = Inr ()"

definition verify_tls13_signature :: "u8 list \<Rightarrow> u8 list \<Rightarrow> u8 list \<Rightarrow> string + unit" where
  "verify_tls13_signature message cert dss = Inr ()"

definition supported_verify_schemes :: "SignatureScheme list" where
  "supported_verify_schemes =
     [RSA_PKCS1_SHA1, ECDSA_SHA1_Legacy, RSA_PKCS1_SHA256, ECDSA_NISTP256_SHA256, RSA_PKCS1_SHA384,
      ECDSA_NISTP384_SHA384, RSA_PKCS1_SHA512, ECDSA_NISTP521_SHA512, RSA_PSS_SHA256, RSA_PSS_SHA384,
      RSA_PSS_SHA512, ED25519, ED448]"

section \<open>The connection\<close>

text \<open>
  What the surroundings do: connecting, writing the header, the TLS handshake with a verifier and a
  server name, copying in both directions, and the time the connection has taken at its end.
\<close>

record ('c, 's) proxy_net =
  pn_connect :: "string \<Rightarrow> (io_error + 's) await"
  pn_write_all :: "'s \<Rightarrow> u8 list \<Rightarrow> (io_error + 's) await"
  pn_tls_connect :: "verifier \<Rightarrow> string \<Rightarrow> 's \<Rightarrow> (io_error + 's) await"
  pn_copy_bidirectional :: "'c RateLimitedStream \<Rightarrow> 's RateLimitedStream \<Rightarrow> (io_error + u64 \<times> u64) await"
  pn_elapsed :: duration

text \<open>\<open>e.await?\<close>: go on with the value, or leave with the error.\<close>

definition try_await :: "(io_error + 'a) await \<Rightarrow> ('a \<Rightarrow> (io_error + 'b) await) \<Rightarrow> (io_error + 'b) await" where
  "try_await a k = (case a of Dropped \<Rightarrow> Dropped | Done (Inl e) \<Rightarrow> Done (Inl e) | Done (Inr x) \<Rightarrow> k x)"

definition send_header :: "('c, 's) proxy_net \<Rightarrow> ProxyConfig \<Rightarrow> 's \<Rightarrow> (io_error + 's) await" where
  "send_header net config s =
     (if px_proxy_protocol config
      then pn_write_all net s (create_v2_header (px_client_addr config) (px_local_addr config))
      else Done (Inr s))"

definition wrap_tls :: "('c, 's) proxy_net \<Rightarrow> ProxyConfig \<Rightarrow> 's \<Rightarrow> (io_error + 's) await" where
  "wrap_tls net config s =
     (case px_backend_tls config of
        Some tls_cfg \<Rightarrow>
          if bt_enabled tls_cfg
          then pn_tls_connect net (if bt_ignore_verify tls_cfg then NoVerify else WebPkiRoots) ''localhost'' s
          else Done (Inr s)
      | None \<Rightarrow> Done (Inr s))"

text \<open>Both branches, with and without TLS, end in the same copying between two limited streams.\<close>

definition transfer_all :: "('c, 's) proxy_net \<Rightarrow> ProxyConfig \<Rightarrow> 'c \<Rightarrow> 's \<Rightarrow> (io_error + u64 \<times> u64) await" where
  "transfer_all net config client_stream s =
     (let backend_stream_limited = new_stream s (px_backend_read_limiter config) (px_backend_write_limiter config);
          client_stream_limited = new_stream client_stream (px_client_read_limiter config) (px_client_write_limiter config)
      in pn_copy_bidirectional net client_stream_limited backend_stream_limited)"

definition record_traffic :: "string \<Rightarrow> u64 \<Rightarrow> u64 \<Rightarrow> duration \<Rightarrow> metric_op list" where
  "record_traffic rule_name c2b b2c elapsed =
     [CounterInc TRAFFIC_BYTES [rule_name, ''client_in''] c2b,
      CounterInc TRAFFIC_BYTES [rule_name, ''backend_out''] c2b,
      CounterInc TRAFFIC_BYTES [rule_name, ''backend_in''] b2c,
      CounterInc TRAFFIC_BYTES [rule_name, ''client_out''] b2c,
      Observe CONNECTION_DURATION [rule_name] (as_secs_f64 elapsed)]"

text \<open>
  The result and the metric calls in their order. The guard made after the first two calls is
  dropped last, on every exit.
\<close>

definition proxy_connection ::
  "('c, 's) proxy_net \<Rightarrow> 'c \<Rightarrow> string \<Rightarrow> ProxyConfig \<Rightarrow> string \<Rightarrow> (io_error + unit) await \<times> metric_op list" where
  "proxy_connection net client_stream backend_addr config rule_name =
     (let opened = [GaugeInc ACTIVE_CONNECTIONS [rule_name], CounterInc TOTAL_CONNECTIONS [rule_name] 1];
          closed = [GaugeDec ACTIVE_CONNECTIONS [rule_name]];
          copied = try_await (pn_connect net backend_addr) (\<lambda>s0.
                   try_await (send_header net config s0) (\<lambda>s1.
                   try_await (wrap_tls net config s1) (\<lambda>s2.
                   transfer_all net config client_stream s2)))
      in case copied of
           Done (Inr (c2b, b2c)) \<Rightarrow> (Done (Inr ()), opened @ record_traffic rule_name c2b b2c (pn_elapsed net) @ closed)
         | Done (Inl e) \<Rightarrow> (Done (Inl e), opened @ closed)
         | Dropped \<Rightarrow> (Dropped, opened @ closed))"

section \<open>When a connection succeeds\<close>

lemma try_await_Done: "try_await a k = Done (Inr y) \<longleftrightarrow> (\<exists>x. a = Done (Inr x) \<and> k x = Done (Inr y))"
  by (auto simp: try_await_def split: await.splits sum.splits)

text \<open>
  C29. A connection succeeds exactly when the backend is reached, the PROXY header is written first if the
  rule asks for it, the TLS handshake follows if the rule asks for it, and the copying between the two
  limited streams, each with its own limiters, ends without an error. Its metric calls are then the
  connection gauge up, the connection count, the bytes from the client as received and as sent to the
  backend, the bytes from the backend as received and as sent to the client, the duration, and the gauge
  down; on an error and when the task is dropped, the bytes and the duration are not recorded, and the
  gauge goes down all the same.
\<close>

theorem proxy_connection_success:
  "(proxy_connection net client addr config rule = (Done (Inr ()), ops) \<longleftrightarrow>
     (\<exists>s0 s1 s2 c2b b2c.
        pn_connect net addr = Done (Inr s0) \<and>
        (if px_proxy_protocol config
         then pn_write_all net s0 (create_v2_header (px_client_addr config) (px_local_addr config)) = Done (Inr s1)
         else s1 = s0) \<and>
        (case px_backend_tls config of
           Some t \<Rightarrow> if bt_enabled t
             then pn_tls_connect net (if bt_ignore_verify t then NoVerify else WebPkiRoots) ''localhost'' s1 = Done (Inr s2)
             else s2 = s1
         | None \<Rightarrow> s2 = s1) \<and>
        pn_copy_bidirectional net (new_stream client (px_client_read_limiter config) (px_client_write_limiter config))
          (new_stream s2 (px_backend_read_limiter config) (px_backend_write_limiter config)) = Done (Inr (c2b, b2c)) \<and>
        ops = [GaugeInc ACTIVE_CONNECTIONS [rule], CounterInc TOTAL_CONNECTIONS [rule] 1,
          CounterInc TRAFFIC_BYTES [rule, ''client_in''] c2b, CounterInc TRAFFIC_BYTES [rule, ''backend_out''] c2b,
          CounterInc TRAFFIC_BYTES [rule, ''backend_in''] b2c, CounterInc TRAFFIC_BYTES [rule, ''client_out''] b2c,
          Observe CONNECTION_DURATION [rule] (as_secs_f64 (pn_elapsed net)), GaugeDec ACTIVE_CONNECTIONS [rule]])) \<and>
   (case fst (proxy_connection net client addr config rule) of
      Done (Inr _) \<Rightarrow> True
    | _ \<Rightarrow> snd (proxy_connection net client addr config rule) =
        [GaugeInc ACTIVE_CONNECTIONS [rule], CounterInc TOTAL_CONNECTIONS [rule] 1, GaugeDec ACTIVE_CONNECTIONS [rule]])"
proof -
  let ?copied = "try_await (pn_connect net addr) (\<lambda>s0. try_await (send_header net config s0) (\<lambda>s1.
      try_await (wrap_tls net config s1) (\<lambda>s2. transfer_all net config client s2)))"
  have hdr: "send_header net config s0 = Done (Inr s1) \<longleftrightarrow>
      (if px_proxy_protocol config
       then pn_write_all net s0 (create_v2_header (px_client_addr config) (px_local_addr config)) = Done (Inr s1)
       else s1 = s0)" for s0 s1
    by (auto simp: send_header_def)
  have tls: "wrap_tls net config s1 = Done (Inr s2) \<longleftrightarrow>
      (case px_backend_tls config of
         Some t \<Rightarrow> if bt_enabled t
           then pn_tls_connect net (if bt_ignore_verify t then NoVerify else WebPkiRoots) ''localhost'' s1 = Done (Inr s2)
           else s2 = s1
       | None \<Rightarrow> s2 = s1)" for s1 s2
    by (auto simp: wrap_tls_def split: option.split)
  have ops: "[GaugeInc ACTIVE_CONNECTIONS [rule], CounterInc TOTAL_CONNECTIONS [rule] 1,
      CounterInc TRAFFIC_BYTES [rule, ''client_in''] c2b, CounterInc TRAFFIC_BYTES [rule, ''backend_out''] c2b,
      CounterInc TRAFFIC_BYTES [rule, ''backend_in''] b2c, CounterInc TRAFFIC_BYTES [rule, ''client_out''] b2c,
      Observe CONNECTION_DURATION [rule] (as_secs_f64 (pn_elapsed net)), GaugeDec ACTIVE_CONNECTIONS [rule]] =
      [GaugeInc ACTIVE_CONNECTIONS [rule], CounterInc TOTAL_CONNECTIONS [rule] 1] @
        record_traffic rule c2b b2c (pn_elapsed net) @ [GaugeDec ACTIVE_CONNECTIONS [rule]]" for c2b b2c
    by (simp add: record_traffic_def)
  define copied where "copied = ?copied"
  have eq: "proxy_connection net client addr config rule =
      (case copied of
         Done (Inr (c2b, b2c)) \<Rightarrow> (Done (Inr ()), [GaugeInc ACTIVE_CONNECTIONS [rule], CounterInc TOTAL_CONNECTIONS [rule] 1] @
           record_traffic rule c2b b2c (pn_elapsed net) @ [GaugeDec ACTIVE_CONNECTIONS [rule]])
       | Done (Inl e) \<Rightarrow> (Done (Inl e), [GaugeInc ACTIVE_CONNECTIONS [rule], CounterInc TOTAL_CONNECTIONS [rule] 1] @ [GaugeDec ACTIVE_CONNECTIONS [rule]])
       | Dropped \<Rightarrow> (Dropped, [GaugeInc ACTIVE_CONNECTIONS [rule], CounterInc TOTAL_CONNECTIONS [rule] 1] @ [GaugeDec ACTIVE_CONNECTIONS [rule]]))"
    unfolding copied_def proxy_connection_def Let_def ..
  have "case fst (proxy_connection net client addr config rule) of Done (Inr _) \<Rightarrow> True
      | _ \<Rightarrow> snd (proxy_connection net client addr config rule) =
          [GaugeInc ACTIVE_CONNECTIONS [rule], CounterInc TOTAL_CONNECTIONS [rule] 1, GaugeDec ACTIVE_CONNECTIONS [rule]]"
    unfolding eq by (auto split: await.split sum.split)
  moreover have "proxy_connection net client addr config rule = (Done (Inr ()), ops) \<longleftrightarrow>
      (\<exists>c2b b2c. copied = Done (Inr (c2b, b2c)) \<and>
        ops = [GaugeInc ACTIVE_CONNECTIONS [rule], CounterInc TOTAL_CONNECTIONS [rule] 1] @
          record_traffic rule c2b b2c (pn_elapsed net) @ [GaugeDec ACTIVE_CONNECTIONS [rule]])"
    unfolding eq by (auto split: await.splits sum.splits prod.splits)
  then have "proxy_connection net client addr config rule = (Done (Inr ()), ops) \<longleftrightarrow>
     (\<exists>s0 s1 s2 c2b b2c.
        pn_connect net addr = Done (Inr s0) \<and> send_header net config s0 = Done (Inr s1) \<and> wrap_tls net config s1 = Done (Inr s2) \<and>
        transfer_all net config client s2 = Done (Inr (c2b, b2c)) \<and>
        ops = [GaugeInc ACTIVE_CONNECTIONS [rule], CounterInc TOTAL_CONNECTIONS [rule] 1] @
          record_traffic rule c2b b2c (pn_elapsed net) @ [GaugeDec ACTIVE_CONNECTIONS [rule]])"
    unfolding copied_def try_await_Done by blast
  ultimately show ?thesis unfolding ops hdr tls transfer_all_def Let_def by (intro conjI)
qed

section \<open>The connection gauge\<close>

text \<open>The shape of every log: one increment first, one decrement last, nothing on a gauge between them.\<close>

definition conn_log :: "string \<Rightarrow> metric_op list \<Rightarrow> bool" where
  "conn_log rule L \<longleftrightarrow>
     (\<exists>mid. L = GaugeInc ACTIVE_CONNECTIONS [rule] # mid @ [GaugeDec ACTIVE_CONNECTIONS [rule]] \<and>
        (\<forall>x \<in> set mid. op_ok x \<and> ((\<exists>m l n. x = CounterInc m l n) \<or> (\<exists>m l v. x = Observe m l v))))"

lemma conn_log_proxy: "conn_log rule (snd (proxy_connection net client addr config rule))"
proof -
  have "conn_log rule ([GaugeInc ACTIVE_CONNECTIONS [rule], CounterInc TOTAL_CONNECTIONS [rule] 1] @ xs @ [GaugeDec ACTIVE_CONNECTIONS [rule]])"
    if "\<forall>x \<in> set xs. op_ok x \<and> ((\<exists>m l n. x = CounterInc m l n) \<or> (\<exists>m l v. x = Observe m l v))" for xs
    unfolding conn_log_def using that by (intro exI[of _ "CounterInc TOTAL_CONNECTIONS [rule] 1 # xs"]) auto
  from this[of "record_traffic rule _ _ _"] this[of "[]"] show ?thesis
    unfolding proxy_connection_def Let_def by (auto simp: record_traffic_def split: await.split sum.split)
qed

lemma conn_log_op_ok: "conn_log rule L \<Longrightarrow> list_all op_ok L"
  by (auto simp: conn_log_def list_all_iff)

lemma conn_log_counts:
  assumes "conn_log rule L" "p \<le> length L"
  shows "count_list (take p L) (GaugeInc ACTIVE_CONNECTIONS [rule]) = (if 0 < p then 1 else 0)"
    "count_list (take p L) (GaugeDec ACTIVE_CONNECTIONS [rule]) = (if p = length L then 1 else 0)"
    "\<forall>x \<in> set (take p L). \<not> sets_gauge m ls x"
proof -
  obtain mid where L: "L = GaugeInc ACTIVE_CONNECTIONS [rule] # mid @ [GaugeDec ACTIVE_CONNECTIONS [rule]]"
    and mid: "\<forall>x \<in> set mid. (\<exists>m l n. x = CounterInc m l n) \<or> (\<exists>m l v. x = Observe m l v)"
    using assms(1) unfolding conn_log_def by blast
  have none: "count_list (take k mid) y = 0" if "\<And>m l n. y \<noteq> CounterInc m l n" "\<And>m l v. y \<noteq> Observe m l v" for k y
    unfolding count_list_0_iff using that mid in_set_takeD[of y k mid] by blast
  show "count_list (take p L) (GaugeInc ACTIVE_CONNECTIONS [rule]) = (if 0 < p then 1 else 0)"
    using assms(2) by (cases p) (auto simp: L none take_Cons')
  show "count_list (take p L) (GaugeDec ACTIVE_CONNECTIONS [rule]) = (if p = length L then 1 else 0)"
    using assms(2) by (cases p) (auto simp: L none take_Cons')
  show "\<forall>x \<in> set (take p L). \<not> sets_gauge m ls x"
  proof
    fix x assume "x \<in> set (take p L)"
    then have "x \<in> set L" by (rule in_set_takeD)
    then show "\<not> sets_gauge m ls x" using mid by (cases x) (auto simp: L)
  qed
qed

lemma count_list_interleaved:
  assumes "mset calls = (\<Sum>i < n. mset (f i))"
  shows "count_list calls x = (\<Sum>i < n. count_list (f i) x)"
  using arg_cong[OF assms, of "\<lambda>M. count M x"] by (simp add: count_mset count_sum)

text \<open>
  C30. The gauge of active connections shows the connections in progress: take any connections of a rule,
  each as far as it has come, with their metric calls interleaved in any order; the gauge reads the
  number of those that have begun and not ended, whether they end in success, in an error at any
  point, or by being dropped.
\<close>

theorem active_gauge_counts_open:
  fixes n :: nat
  assumes "\<And>i. i < n \<Longrightarrow> p i \<le> length (snd (proxy_connection (net i) (client i) (addr i) (config i) rule))"
    and "mset calls = (\<Sum>i < n. mset (take (p i) (snd (proxy_connection (net i) (client i) (addr i) (config i) rule))))"
  shows "gauge_reading ACTIVE_CONNECTIONS [rule] calls =
    of_nat (card {i. i < n \<and> 0 < p i \<and> p i < length (snd (proxy_connection (net i) (client i) (addr i) (config i) rule))})"
proof -
  let ?L = "\<lambda>i. snd (proxy_connection (net i) (client i) (addr i) (config i) rule)"
  note cl = conn_log_counts[OF conn_log_proxy assms(1)]
  have len: "0 < length (?L i)" for i using conn_log_proxy[of rule "net i" "client i" "addr i" "config i"] by (auto simp: conn_log_def)
  have "\<exists>i < n. x \<in> set (take (p i) (?L i))" if "x \<in> set calls" for x
  proof (rule ccontr)
    assume "\<not> ?thesis"
    then have "(\<Sum>i < n. count_list (take (p i) (?L i)) x) = 0" by (intro sum.neutral) (simp add: count_list_0_iff)
    then show False using that count_list_interleaved[OF assms(2), of x] by (simp add: count_list_0_iff)
  qed
  then have "\<forall>x \<in> set calls. \<not> sets_gauge ACTIVE_CONNECTIONS [rule] x" using cl(3) by blast
  moreover have "(\<Sum>i < n. count_list (take (p i) (?L i)) (GaugeInc ACTIVE_CONNECTIONS [rule])) = (\<Sum>i < n. if 0 < p i then 1 else 0)"
    "(\<Sum>i < n. count_list (take (p i) (?L i)) (GaugeDec ACTIVE_CONNECTIONS [rule])) = (\<Sum>i < n. if p i = length (?L i) then 1 else 0)"
    using cl(1,2) by (intro sum.cong refl; simp)+
  ultimately have "gauge_reading ACTIVE_CONNECTIONS [rule] calls =
      of_nat (\<Sum>i < n. if 0 < p i then 1 else 0) - of_nat (\<Sum>i < n. if p i = length (?L i) then 1 else 0)"
    by (simp only: gauge_reading_counts count_list_interleaved[OF assms(2)])
  also have "\<dots> = of_nat (\<Sum>i < n. if 0 < p i \<and> p i < length (?L i) then 1 else 0)"
  proof -
    have "(\<Sum>i < n. if 0 < p i then 1 else 0 :: nat) =
        (\<Sum>i < n. if 0 < p i \<and> p i < length (?L i) then 1 else 0) + (\<Sum>i < n. if p i = length (?L i) then 1 else 0)"
      unfolding sum.distrib[symmetric]
    proof (intro sum.cong refl)
      fix i assume "i \<in> {..<n}"
      then show "(if 0 < p i then 1 else 0 :: nat) = (if 0 < p i \<and> p i < length (?L i) then 1 else 0) + (if p i = length (?L i) then 1 else 0)"
        using assms(1)[of i] len[of i] by auto
    qed
    then show ?thesis by simp
  qed
  also have "(\<Sum>i < n. if 0 < p i \<and> p i < length (?L i) then 1 else 0 :: nat) = card {i. i < n \<and> 0 < p i \<and> p i < length (?L i)}"
    by (rule sum_indicator_card)
  finally show ?thesis .
qed

text \<open>A finished connection, one in progress and one that has not begun, with their calls interleaved.\<close>

definition sample_net :: "(unit, unit) proxy_net" where
  "sample_net = \<lparr>pn_connect = (\<lambda>_. Done (Inr ())), pn_write_all = (\<lambda>_ _. Done (Inr ())),
     pn_tls_connect = (\<lambda>_ _ _. Done (Inr ())), pn_copy_bidirectional = (\<lambda>_ _. Done (Inl (IoError ''reset''))), pn_elapsed = 0\<rparr>"

definition sample_proxy :: ProxyConfig where
  "sample_proxy = \<lparr>px_client_read_limiter = None, px_client_write_limiter = None, px_backend_read_limiter = None,
     px_backend_write_limiter = None, px_backend_tls = None, px_proxy_protocol = False,
     px_client_addr = SocketV4 (Ipv4Addr 10 0 0 1) 1, px_local_addr = SocketV4 (Ipv4Addr 10 0 0 2) 2\<rparr>"

theorem active_gauge_counts_open_witness:
  "let inc = GaugeInc ACTIVE_CONNECTIONS [''app'']; tot = CounterInc TOTAL_CONNECTIONS [''app''] 1; dec = GaugeDec ACTIVE_CONNECTIONS [''app'']
   in gauge_reading ACTIVE_CONNECTIONS [''app''] [inc, inc, tot, dec] = 1"
proof -
  have L: "snd (proxy_connection sample_net () ''a'' sample_proxy ''app'') =
      [GaugeInc ACTIVE_CONNECTIONS [''app''], CounterInc TOTAL_CONNECTIONS [''app''] 1, GaugeDec ACTIVE_CONNECTIONS [''app'']]"
    by (simp add: proxy_connection_def try_await_def sample_net_def send_header_def wrap_tls_def transfer_all_def sample_proxy_def)
  let ?p = "\<lambda>i :: nat. if i = 0 then 3 else if i = 1 then 1 else 0 :: nat"
  have "{i. i < 3 \<and> 0 < ?p i \<and> ?p i < 3} = {1 :: nat}" by auto
  then show ?thesis unfolding Let_def
    using active_gauge_counts_open[of 3 ?p "\<lambda>_. sample_net" "\<lambda>_. ()" "\<lambda>_. ''a''" "\<lambda>_. sample_proxy" "''app''"
        "[GaugeInc ACTIVE_CONNECTIONS [''app''], GaugeInc ACTIVE_CONNECTIONS [''app''], CounterInc TOTAL_CONNECTIONS [''app''] 1,
          GaugeDec ACTIVE_CONNECTIONS [''app'']]"]
    by (simp add: L eval_nat_numeral)
qed

text \<open>
  Every metric call of a connection fits its family, so none of them panics; each connection counts
  once in the total, and the bytes from the client count as received from it and as sent to the backend.
\<close>

theorem proxy_metrics:
  "list_all op_ok (snd (proxy_connection net client addr config rule)) \<and>
   counter_reading TOTAL_CONNECTIONS [rule] (snd (proxy_connection net client addr config rule)) = 1 \<and>
   counter_reading TRAFFIC_BYTES [rule, ''client_in''] (snd (proxy_connection net client addr config rule)) =
     counter_reading TRAFFIC_BYTES [rule, ''backend_out''] (snd (proxy_connection net client addr config rule)) \<and>
   counter_reading TRAFFIC_BYTES [rule, ''backend_in''] (snd (proxy_connection net client addr config rule)) =
     counter_reading TRAFFIC_BYTES [rule, ''client_out''] (snd (proxy_connection net client addr config rule))"
proof (intro conjI)
  show "list_all op_ok (snd (proxy_connection net client addr config rule))" by (rule conn_log_op_ok[OF conn_log_proxy])
qed (auto simp: proxy_connection_def Let_def record_traffic_def counter_reading_def split: await.split sum.split)

end
