(* ===== verification/Acl.thy ===== *)
theory Acl
  imports Net_Addr
begin

text \<open>
  Access control (\<^verbatim>\<open>src/networking/acl.rs\<close>). Networks are the \<^verbatim>\<open>ipnet\<close> crate's \<open>IpNet\<close>: its
  parser, its conversion from a single address and its membership test are arguments of the
  definitions. Shown here: which addresses a pair of lists admits, that an IPv4 address written out
  in a list stands for itself alone, and that a list whose entries all fail to parse admits everyone.
\<close>

section \<open>Lists of networks\<close>

record 'net AccessControl =
  acl_allow_list :: "'net list"
  acl_deny_list :: "'net list"

text \<open>An entry is a network or, failing that, an address; anything else is logged and skipped.\<close>

definition parse_entry :: "(string \<Rightarrow> 'net option) \<Rightarrow> (IpAddr \<Rightarrow> 'net) \<Rightarrow> string \<Rightarrow> 'net option" where
  "parse_entry from_str from_ip s =
     (case from_str s of
        Some net \<Rightarrow> Some net
      | None \<Rightarrow> (case parse_ip s of Some ip \<Rightarrow> Some (from_ip ip) | None \<Rightarrow> None))"

definition parse_cidrs :: "(string \<Rightarrow> 'net option) \<Rightarrow> (IpAddr \<Rightarrow> 'net) \<Rightarrow> string list option \<Rightarrow> 'net list" where
  "parse_cidrs from_str from_ip input =
     (case input of Some strs \<Rightarrow> List.map_filter (parse_entry from_str from_ip) strs | None \<Rightarrow> [])"

definition new_acl ::
  "(string \<Rightarrow> 'net option) \<Rightarrow> (IpAddr \<Rightarrow> 'net) \<Rightarrow> string list option \<Rightarrow> string list option \<Rightarrow> 'net AccessControl" where
  "new_acl from_str from_ip allow_strs deny_strs =
     \<lparr>acl_allow_list = parse_cidrs from_str from_ip allow_strs, acl_deny_list = parse_cidrs from_str from_ip deny_strs\<rparr>"

section \<open>The decision\<close>

text \<open>The two loops return at the first network that contains the address.\<close>

fun contained :: "('net \<Rightarrow> IpAddr \<Rightarrow> bool) \<Rightarrow> 'net list \<Rightarrow> IpAddr \<Rightarrow> bool" where
  "contained contains [] ip = False"
| "contained contains (net # nets) ip = (if contains net ip then True else contained contains nets ip)"

definition is_allowed :: "('net \<Rightarrow> IpAddr \<Rightarrow> bool) \<Rightarrow> 'net AccessControl \<Rightarrow> IpAddr \<Rightarrow> bool" where
  "is_allowed contains acl ip =
     (if contained contains (acl_deny_list acl) ip then False
      else if acl_allow_list acl = [] then True
      else contained contains (acl_allow_list acl) ip)"

section \<open>What the lists mean\<close>

lemma contained_iff: "contained contains nets ip \<longleftrightarrow> (\<exists>net \<in> set nets. contains net ip)"
  by (induction nets) auto

text \<open>The entry \<open>s\<close> of a list covers \<open>ip\<close>.\<close>

definition covers ::
  "(string \<Rightarrow> 'net option) \<Rightarrow> (IpAddr \<Rightarrow> 'net) \<Rightarrow> ('net \<Rightarrow> IpAddr \<Rightarrow> bool) \<Rightarrow> string \<Rightarrow> IpAddr \<Rightarrow> bool" where
  "covers from_str from_ip contains s ip \<longleftrightarrow>
     (case parse_entry from_str from_ip s of Some net \<Rightarrow> contains net ip | None \<Rightarrow> False)"

definition entries :: "string list option \<Rightarrow> string set" where
  "entries input = (case input of Some strs \<Rightarrow> set strs | None \<Rightarrow> {})"

lemma set_parse_cidrs:
  "set (parse_cidrs from_str from_ip input) = {net. \<exists>s \<in> entries input. parse_entry from_str from_ip s = Some net}"
  by (cases input) (force simp: parse_cidrs_def entries_def map_filter_def image_iff)+

lemma contained_parse_cidrs:
  "contained contains (parse_cidrs from_str from_ip input) ip \<longleftrightarrow> (\<exists>s \<in> entries input. covers from_str from_ip contains s ip)"
  unfolding contained_iff set_parse_cidrs covers_def by (auto split: option.splits)

lemma parse_cidrs_Nil:
  "parse_cidrs from_str from_ip input = [] \<longleftrightarrow> (\<forall>s \<in> entries input. parse_entry from_str from_ip s = None)"
  by (cases input) (auto simp: parse_cidrs_def entries_def map_filter_def filter_empty_conv)

text \<open>
  C24. An address is admitted exactly when no entry of the deny list covers it and either an entry of the
  allow list covers it or the allow list has no entry that parses.
\<close>

theorem acl_decision:
  "is_allowed contains (new_acl from_str from_ip allow deny) ip \<longleftrightarrow>
     \<not> (\<exists>s \<in> entries deny. covers from_str from_ip contains s ip) \<and>
     ((\<exists>s \<in> entries allow. covers from_str from_ip contains s ip) \<or>
      (\<forall>s \<in> entries allow. parse_entry from_str from_ip s = None))"
proof -
  have "(\<forall>s \<in> entries allow. parse_entry from_str from_ip s = None) \<Longrightarrow>
      \<not> (\<exists>s \<in> entries allow. covers from_str from_ip contains s ip)"
    by (auto simp: covers_def)
  then show ?thesis by (auto simp: is_allowed_def new_acl_def contained_parse_cidrs parse_cidrs_Nil)
qed

section \<open>A network library\<close>

text \<open>
  A concrete instance of the arguments, on which the properties are exercised: an address and a
  prefix length, written with a slash; a network contains the addresses of its family that agree with
  it on the prefix.
\<close>

datatype cidr = Cidr IpAddr nat

definition bits_of :: "u8 \<Rightarrow> bool list" where
  "bits_of w = map (bit w) [7, 6, 5, 4, 3, 2, 1, 0]"

fun ip_bits :: "IpAddr \<Rightarrow> bool list" where
  "ip_bits (V4 a) = concat (map bits_of (octets4 a))"
| "ip_bits (V6 a) = concat (map bits_of (octets6 a))"

definition cidr_from_ip :: "IpAddr \<Rightarrow> cidr" where
  "cidr_from_ip ip = Cidr ip (length (ip_bits ip))"

definition cidr_from_str :: "string \<Rightarrow> cidr option" where
  "cidr_from_str s =
     (case read_ip s of
        None \<Rightarrow> None
      | Some (ip, s1) \<Rightarrow> (case read_given_char (CHR ''/'') s1 of
            None \<Rightarrow> None
          | Some (_, s2) \<Rightarrow> (case read_number 10 256 (Some 3) False s2 of
                Some (n, []) \<Rightarrow> if n \<le> length (ip_bits ip) then Some (Cidr ip n) else None
              | _ \<Rightarrow> None)))"

fun cidr_contains :: "cidr \<Rightarrow> IpAddr \<Rightarrow> bool" where
  "cidr_contains (Cidr net n) ip \<longleftrightarrow>
     length (ip_bits net) = length (ip_bits ip) \<and> take n (ip_bits net) = take n (ip_bits ip)"

theorem acl_decision_witness:
  "is_allowed cidr_contains (new_acl cidr_from_str cidr_from_ip (Some [''10.0.0.0/24'']) (Some [''10.0.0.1''])) (V4 (Ipv4Addr 10 0 0 2))"
proof -
  have "covers cidr_from_str cidr_from_ip cidr_contains ''10.0.0.0/24'' (V4 (Ipv4Addr 10 0 0 2))"
    "\<not> covers cidr_from_str cidr_from_ip cidr_contains ''10.0.0.1'' (V4 (Ipv4Addr 10 0 0 2))" by code_simp+
  then show ?thesis unfolding acl_decision by (simp add: entries_def)
qed

text \<open>The repository's tests of the decision.\<close>

lemma test_allow_deny_logic:
  "let acl = new_acl cidr_from_str cidr_from_ip (Some [''10.0.0.0/24'']) (Some [''10.0.0.1''])
   in \<not> is_allowed cidr_contains acl (V4 (Ipv4Addr 10 0 0 1)) \<and>
      is_allowed cidr_contains acl (V4 (Ipv4Addr 10 0 0 2)) \<and>
      \<not> is_allowed cidr_contains acl (V4 (Ipv4Addr 192 168 1 1))"
  by code_simp

lemma bits_of_inject: "bits_of a = bits_of b \<longleftrightarrow> a = b"
proof
  assume "bits_of a = bits_of b"
  then have "bit a n = bit b n" if "n < 8" for n using that by (auto simp: bits_of_def less_Suc_eq numeral_eq_Suc)
  then show "a = b" by (intro bit_word_eqI) simp
qed simp

lemma length_bits_of [simp]: "length (bits_of a) = 8"
  by (simp add: bits_of_def)

lemma concat_bits_inject: "length xs = length ys \<Longrightarrow> concat (map bits_of xs) = concat (map bits_of ys) \<longleftrightarrow> xs = ys"
  by (induction xs ys rule: list_induct2) (simp_all add: bits_of_inject)

lemma octets_inject [simp]: "octets4 a = octets4 b \<longleftrightarrow> a = b" "octets6 c = octets6 d \<longleftrightarrow> c = d"
  by (metis of_octets4 option.inject) (metis of_octets6 option.inject)

lemma length_ip_bits: "length (ip_bits (V4 a)) = 32" "length (ip_bits (V6 b)) = 128"
  by (simp_all add: length_concat comp_def sum_list_triv)

lemma ip_bits_inject: "length (ip_bits a) = length (ip_bits b) \<Longrightarrow> ip_bits a = ip_bits b \<longleftrightarrow> a = b"
  by (cases a; cases b) (simp_all add: concat_bits_inject length_ip_bits[simplified])

lemma cidr_contains_host: "cidr_contains (cidr_from_ip a) b \<longleftrightarrow> b = a"
  using ip_bits_inject[of a b] by (auto simp: cidr_from_ip_def)

lemma cidr_from_str_plain: "cidr_from_str (display4 a) = None"
  using read_ipv4_text[of "[]" a] by (simp add: cidr_from_str_def read_ip_def read_given_char_def)

text \<open>
  An IPv4 address written out in a list stands for itself alone: with lists of such addresses an
  address is admitted exactly when it is not in the deny list and is in the allow list, if there is
  one. The crate is relied on to find no network in a string without a slash and to make a network of
  a single address from an address.
\<close>

theorem plain_lists:
  assumes "\<And>a. from_str (display4 a) = None" "\<And>a b. contains (from_ip a) b \<longleftrightarrow> b = a"
  shows "is_allowed contains (new_acl from_str from_ip (map_option (map display4) allow) (Some (map display4 deny))) ip \<longleftrightarrow>
    ip \<notin> V4 ` set deny \<and> (case allow of Some as \<Rightarrow> as = [] \<or> ip \<in> V4 ` set as | None \<Rightarrow> True)"
proof -
  have parse: "parse_entry from_str from_ip (display4 a) = Some (from_ip (V4 a))" for a
    using assms(1) by (simp add: parse_entry_def parse_ip_display4)
  have list: "parse_cidrs from_str from_ip (Some (map display4 as)) = map (from_ip \<circ> V4) as" for as
    by (induction as) (simp_all add: parse_cidrs_def map_filter_simps parse)
  have "contained contains (map (from_ip \<circ> V4) as) ip \<longleftrightarrow> ip \<in> V4 ` set as" for as
    using assms(2) by (auto simp: contained_iff)
  then show ?thesis unfolding is_allowed_def new_acl_def
    by (cases allow) (auto simp: list, simp add: parse_cidrs_def)
qed

theorem plain_lists_witness:
  "\<not> is_allowed cidr_contains (new_acl cidr_from_str cidr_from_ip None (Some [''10.0.0.1''])) (V4 (Ipv4Addr 10 0 0 1)) \<and>
   is_allowed cidr_contains (new_acl cidr_from_str cidr_from_ip None (Some [''10.0.0.1''])) (V4 (Ipv4Addr 10 0 0 2))"
proof -
  have "display4 (Ipv4Addr 10 0 0 1) = ''10.0.0.1''" by code_simp
  then show ?thesis
    using plain_lists[of cidr_from_str cidr_contains cidr_from_ip None "[Ipv4Addr 10 0 0 1]" "V4 (Ipv4Addr 10 0 0 1)",
        OF cidr_from_str_plain cidr_contains_host]
      plain_lists[of cidr_from_str cidr_contains cidr_from_ip None "[Ipv4Addr 10 0 0 1]" "V4 (Ipv4Addr 10 0 0 2)",
        OF cidr_from_str_plain cidr_contains_host]
    by simp
qed

text \<open>
  An allow list fails open: when none of its entries parses, the list is as good as absent and every
  address that is not denied is admitted.
\<close>

theorem unparsable_allow_list_admits_all:
  assumes "\<And>s. s \<in> set strs \<Longrightarrow> from_str s = None \<and> parse_ip s = None"
  shows "is_allowed contains (new_acl from_str from_ip (Some strs) None) ip"
proof -
  have "parse_entry from_str from_ip s = None" if "s \<in> set strs" for s using assms[OF that] by (simp add: parse_entry_def)
  then have "parse_cidrs from_str from_ip (Some strs) = []" by (simp add: parse_cidrs_Nil entries_def)
  then show ?thesis by (simp add: is_allowed_def new_acl_def parse_cidrs_def[of _ _ None])
qed

theorem unparsable_allow_list_admits_all_witness:
  "is_allowed cidr_contains (new_acl cidr_from_str cidr_from_ip (Some [''10.0.0.0/33'']) None) (V4 (Ipv4Addr 8 8 8 8))"
proof (rule unparsable_allow_list_admits_all)
  have "cidr_from_str ''10.0.0.0/33'' = None \<and> parse_ip ''10.0.0.0/33'' = None" by code_simp
  then show "cidr_from_str s = None \<and> parse_ip s = None" if "s \<in> set [''10.0.0.0/33'']" for s using that by simp
qed

end
