(* ===== verification/Acceptor.thy ===== *)
theory Acceptor
  imports Connections Proxy Acl
begin

text \<open>
  A rule in service: the accept loop and the task of a connection (\<^verbatim>\<open>src/main.rs\<close>). This is where
  the components meet: access control, the connection rate, the balancer, the bandwidth buckets and the
  proxy. Shown here: the balancer under a service goes through exactly the runs of \<^verbatim>\<open>Connections\<close>, so
  its counters and limits carry over; which clients get through; how many connections a client gets;
  and which connections share a bandwidth bucket.
\<close>

section \<open>The service of a rule\<close>

text \<open>What the task of a connection holds once it has a backend.\<close>

record connection =
  cn_backend_addr :: string
  cn_guard :: ConnectionGuard
  cn_config :: ProxyConfig

text \<open>
  What the acceptors of a rule share, the clients whose task has been spawned and has not run yet, and
  the connections with a backend. The metric calls of the balancer are in its store; those of the
  proxied connections, which are on other families, are in \<open>sv_calls\<close>, entered when a connection ends.
  The buckets are listed as they were created: taking tokens from them is the matter of the streams.
\<close>

record ('net, 'tls) service =
  sv_rule_name :: string
  sv_lb :: LoadBalancer
  sv_store :: store
  sv_rate_limiter :: RateLimiter
  sv_bandwidth :: "BandwidthManager \<times> limiter_heap"
  sv_tls :: "'tls option"
  sv_backend_tls :: "BackendTlsConfig option"
  sv_proxy_protocol :: bool
  sv_acl :: "'net AccessControl"
  sv_pending :: "SocketAddr list"
  sv_open :: "connection list"
  sv_calls :: "metric_op list"

definition rate_limit_or_default :: "RateLimitConfig option \<Rightarrow> RateLimitConfig" where
  "rate_limit_or_default c =
     (case c of Some r \<Rightarrow> r | None \<Rightarrow> \<lparr>rl_enabled = False, rl_requests_per_second = 0, rl_burst = 0\<rparr>)"

definition bandwidth_limit_or_default :: "BandwidthLimitConfig option \<Rightarrow> BandwidthLimitConfig" where
  "bandwidth_limit_or_default c =
     (case c of Some b \<Rightarrow> b | None \<Rightarrow> \<lparr>bw_enabled = False, bw_client = None, bw_backend = None\<rparr>)"

text \<open>Every acceptor builds its own access control from the same lists.\<close>

definition new_service ::
  "(string \<Rightarrow> 'net option) \<Rightarrow> (IpAddr \<Rightarrow> 'net) \<Rightarrow> LBRule \<Rightarrow> 'tls option \<Rightarrow> ('net, 'tls) service" where
  "new_service from_str from_ip rule tls =
     (let (lb, s) = new_lb (r_name rule) (r_backends rule) (r_backend_connection_limit rule) \<lparr>st_heap = [], st_metrics = []\<rparr>
      in \<lparr>sv_rule_name = r_name rule, sv_lb = lb, sv_store = s,
          sv_rate_limiter = new_rate_limiter (rate_limit_or_default (r_rate_limit rule)),
          sv_bandwidth = (new_bandwidth_manager (bandwidth_limit_or_default (r_bandwidth_limit rule)), []),
          sv_tls = tls, sv_backend_tls = r_backend_tls rule, sv_proxy_protocol = r_proxy_protocol rule,
          sv_acl = new_acl from_str from_ip (r_allow_list rule) (r_deny_list rule),
          sv_pending = [], sv_open = [], sv_calls = []\<rparr>)"

section \<open>The accept loop\<close>

datatype verdict = Denied | Limited | Spawned

text \<open>One accepted stream: access control first, then the rate, then a task of its own.\<close>

definition accept_stream ::
  "('net \<Rightarrow> IpAddr \<Rightarrow> bool) \<Rightarrow> instant \<Rightarrow> instant \<Rightarrow> SocketAddr \<Rightarrow> ('net, 'tls) service \<Rightarrow> verdict \<times> ('net, 'tls) service" where
  "accept_stream contains now0 now1 client_addr sv =
     (if \<not> is_allowed contains (sv_acl sv) (ip_of client_addr) then (Denied, sv)
      else
        let (ok, rl) = rl_check now0 now1 (ip_of client_addr) (sv_rate_limiter sv);
            sv1 = sv\<lparr>sv_rate_limiter := rl\<rparr>
        in if \<not> ok then (Limited, sv1)
           else (Spawned, sv1\<lparr>sv_pending := sv_pending sv1 @ [client_addr]\<rparr>))"

section \<open>The task of a connection\<close>

text \<open>The four buckets, with the clock read at each; all four are looked up by the address of the client.\<close>

record readings =
  at_client_upload :: instant
  at_client_download :: instant
  at_backend_download :: instant
  at_backend_upload :: instant

definition proxy_config ::
  "readings \<Rightarrow> SocketAddr \<Rightarrow> io_error + SocketAddr \<Rightarrow> ('net, 'tls) service \<Rightarrow> ProxyConfig \<times> ('net, 'tls) service" where
  "proxy_config now client_addr local sv =
     (let local_addr = (case local of Inr a \<Rightarrow> a | Inl e \<Rightarrow> SocketV4 (Ipv4Addr 0 0 0 0) 0);
          ip = ip_of client_addr;
          (client_read, bw1) = get_client_upload_limiter (at_client_upload now) ip (sv_bandwidth sv);
          (client_write, bw2) = get_client_download_limiter (at_client_download now) ip bw1;
          (backend_read, bw3) = get_backend_download_limiter (at_backend_download now) (display_ip ip) bw2;
          (backend_write, bw4) = get_backend_upload_limiter (at_backend_upload now) (display_ip ip) bw3
      in (\<lparr>px_client_read_limiter = client_read, px_client_write_limiter = client_write,
           px_backend_read_limiter = backend_read, px_backend_write_limiter = backend_write,
           px_backend_tls = sv_backend_tls sv, px_proxy_protocol = sv_proxy_protocol sv,
           px_client_addr = client_addr, px_local_addr = local_addr\<rparr>, sv\<lparr>sv_bandwidth := bw4\<rparr>))"

text \<open>The first part of the task: a backend, or the end of the task.\<close>

definition start_task ::
  "readings \<Rightarrow> SocketAddr \<Rightarrow> io_error + SocketAddr \<Rightarrow> ('net, 'tls) service \<Rightarrow> ('net, 'tls) service" where
  "start_task now client_addr local sv =
     (case next_backend (sv_lb sv) (sv_store sv) of
        (None, lb, s) \<Rightarrow> sv\<lparr>sv_lb := lb, sv_store := s\<rparr>
      | (Some (backend_addr, guard), lb, s) \<Rightarrow>
          let (config, sv1) = proxy_config now client_addr local (sv\<lparr>sv_lb := lb, sv_store := s\<rparr>)
          in sv1\<lparr>sv_open := sv_open sv1 @ [\<lparr>cn_backend_addr = backend_addr, cn_guard = guard, cn_config = config\<rparr>]\<rparr>)"

text \<open>
  The second part: the TLS handshake with the client if the rule terminates TLS, then the proxy; its
  metric calls are the result. The errors are logged. At the end the guard is dropped.
\<close>

definition serve ::
  "('tls \<Rightarrow> 'c \<Rightarrow> (io_error + 'c) await) \<Rightarrow> ('c, 's) proxy_net \<Rightarrow> 'c \<Rightarrow> connection \<Rightarrow> ('net, 'tls) service \<Rightarrow> metric_op list" where
  "serve tls_accept net stream c sv =
     (case sv_tls sv of
        Some acceptor \<Rightarrow> (case tls_accept acceptor stream of
            Done (Inr tls_stream) \<Rightarrow> snd (proxy_connection net tls_stream (cn_backend_addr c) (cn_config c) (sv_rule_name sv))
          | Done (Inl e) \<Rightarrow> []
          | Dropped \<Rightarrow> [])
      | None \<Rightarrow> snd (proxy_connection net stream (cn_backend_addr c) (cn_config c) (sv_rule_name sv)))"

definition end_task ::
  "('tls \<Rightarrow> 'c \<Rightarrow> (io_error + 'c) await) \<Rightarrow> ('c, 's) proxy_net \<Rightarrow> 'c \<Rightarrow> nat \<Rightarrow> ('net, 'tls) service \<Rightarrow> ('net, 'tls) service" where
  "end_task tls_accept net stream i sv =
     (let c = sv_open sv ! i
      in sv\<lparr>sv_calls := sv_calls sv @ serve tls_accept net stream c sv,
            sv_store := drop_guard (cn_guard c) (sv_store sv),
            sv_open := remove_nth i (sv_open sv)\<rparr>)"

section \<open>A service at work\<close>

text \<open>
  What happens to a service: a stream is accepted, a spawned task runs up to its backend, a connection
  ends in whatever way its surroundings make it end, a reload brings a new list of backends, a checker
  reports.
\<close>

datatype ('tls, 'c, 's) service_event =
    Accept instant instant SocketAddr
  | Start nat readings "io_error + SocketAddr"
  | Finish nat "'tls \<Rightarrow> 'c \<Rightarrow> (io_error + 'c) await" "('c, 's) proxy_net" 'c
  | Reload "BackendConfig list"
  | Report string bool

fun service_step ::
  "('net \<Rightarrow> IpAddr \<Rightarrow> bool) \<Rightarrow> ('tls, 'c, 's) service_event \<Rightarrow> ('net, 'tls) service \<Rightarrow> ('net, 'tls) service" where
  "service_step contains (Accept now0 now1 client) sv = snd (accept_stream contains now0 now1 client sv)"
| "service_step contains (Start k now local) sv =
     (if k < length (sv_pending sv)
      then start_task now (sv_pending sv ! k) local (sv\<lparr>sv_pending := remove_nth k (sv_pending sv)\<rparr>)
      else sv)"
| "service_step contains (Finish i tls_accept net stream) sv =
     (if i < length (sv_open sv) then end_task tls_accept net stream i sv else sv)"
| "service_step contains (Reload configs) sv =
     (case update_backends (sv_lb sv) configs (sv_store sv) of (lb, s) \<Rightarrow> sv\<lparr>sv_lb := lb, sv_store := s\<rparr>)"
| "service_step contains (Report a h) sv = sv\<lparr>sv_store := set_backend_health (sv_lb sv) a h (sv_store sv)\<rparr>"

abbreviation service_run ::
  "('net \<Rightarrow> IpAddr \<Rightarrow> bool) \<Rightarrow> ('tls, 'c, 's) service_event list \<Rightarrow> ('net, 'tls) service \<Rightarrow> ('net, 'tls) service" where
  "service_run contains es sv \<equiv> fold (service_step contains) es sv"

section \<open>The balancer under a service\<close>

text \<open>The balancer's world, with the guards of the open connections, and the balancer's share of an event.\<close>

definition world_of :: "('net, 'tls) service \<Rightarrow> world" where
  "world_of sv = \<lparr>w_lb = sv_lb sv, w_store = sv_store sv, w_guards = map cn_guard (sv_open sv)\<rparr>"

fun lb_events :: "('tls, 'c, 's) service_event \<Rightarrow> ('net, 'tls) service \<Rightarrow> lb_event list" where
  "lb_events (Accept _ _ _) sv = []"
| "lb_events (Start k _ _) sv = (if k < length (sv_pending sv) then [Next_backend] else [])"
| "lb_events (Finish i _ _ _) sv = [Drop_guard i]"
| "lb_events (Reload configs) sv = [Update_backends configs]"
| "lb_events (Report a h) sv = [Set_backend_health a h]"

abbreviation lb_history ::
  "('net \<Rightarrow> IpAddr \<Rightarrow> bool) \<Rightarrow> ('tls, 'c, 's) service_event list \<Rightarrow> ('net, 'tls) service \<Rightarrow> lb_event list" where
  "lb_history contains \<equiv> history (service_step contains) lb_events"

lemma map_remove_nth: "map f (remove_nth i xs) = remove_nth i (map f xs)"
  by (simp add: remove_nth_def take_map drop_map)

lemma accept_stream_frame [simp]:
  "sv_lb (snd (accept_stream contains t0 t1 a sv)) = sv_lb sv"
  "sv_store (snd (accept_stream contains t0 t1 a sv)) = sv_store sv"
  "sv_open (snd (accept_stream contains t0 t1 a sv)) = sv_open sv"
  "sv_acl (snd (accept_stream contains t0 t1 a sv)) = sv_acl sv"
  "sv_bandwidth (snd (accept_stream contains t0 t1 a sv)) = sv_bandwidth sv"
  by (simp_all add: accept_stream_def Let_def split_beta)

lemma proxy_config_frame [simp]:
  "sv_lb (snd (proxy_config now a l sv)) = sv_lb sv"
  "sv_store (snd (proxy_config now a l sv)) = sv_store sv"
  "sv_open (snd (proxy_config now a l sv)) = sv_open sv"
  "sv_acl (snd (proxy_config now a l sv)) = sv_acl sv"
  "sv_pending (snd (proxy_config now a l sv)) = sv_pending sv"
  "sv_rate_limiter (snd (proxy_config now a l sv)) = sv_rate_limiter sv"
  "px_client_addr (fst (proxy_config now a l sv)) = a"
  by (simp_all add: proxy_config_def Let_def split_beta)

lemma start_task_frame [simp]:
  "sv_acl (start_task now a l sv) = sv_acl sv"
  "sv_pending (start_task now a l sv) = sv_pending sv"
  "sv_rate_limiter (start_task now a l sv) = sv_rate_limiter sv"
  by (simp_all add: start_task_def Let_def split_beta split: option.split)

lemma start_task_world: "world_of (start_task now a l sv) = lb_step Next_backend (world_of sv)"
  by (simp add: world_of_def start_task_def Let_def split_beta split: option.split)

lemma service_step_world: "world_of (service_step contains e sv) = fold lb_step (lb_events e sv) (world_of sv)"
proof (cases e)
  case (Accept t0 t1 a)
  then show ?thesis by (simp add: world_of_def)
next
  case (Start k now l)
  then show ?thesis
    by (simp add: start_task_world del: lb_step.simps) (simp add: world_of_def)
qed (simp_all add: world_of_def end_task_def Let_def map_remove_nth split_beta nth_map)

interpretation svc: simulation "service_step contains" lb_events lb_step world_of "\<lambda>_. True" for contains
  by unfold_locales (simp_all add: service_step_world)

lemmas service_run_world = svc.abs_run[OF TrueI]

lemma world_of_new_service:
  "world_of (new_service from_str from_ip rule tls) = init_world (r_name rule) (r_backends rule) (r_backend_connection_limit rule)"
  by (simp add: world_of_def new_service_def init_world_def split_beta Let_def)

text \<open>
  C7. The balancer of a service runs as specified: whatever happens to a service, its balancer, heap and
  guards are those of the sequence of balancer operations that its events stand for. A stream that is
  turned away or still waits for its task does nothing; every task selects once; every end of a
  connection, with or without an error, drops its guard once.
\<close>

theorem service_refines_balancer:
  "world_of (service_run contains es (new_service from_str from_ip rule tls)) =
     fold lb_step (lb_history contains es (new_service from_str from_ip rule tls))
       (init_world (r_name rule) (r_backends rule) (r_backend_connection_limit rule))"
  unfolding service_run_world world_of_new_service ..

section \<open>Connections and their backends\<close>

lemma list_all_remove_nth: "list_all P xs \<Longrightarrow> list_all P (remove_nth i xs)"
  using set_remove_nth_subset[of i xs] by (auto simp: list_all_iff)

definition backend_of_guard :: "connection \<Rightarrow> bool" where
  "backend_of_guard c \<longleftrightarrow> cn_backend_addr c = g_backend_addr (cn_guard c)"

lemma next_backend_guard: "fst (next_backend lb s) = Some (a, g) \<Longrightarrow> g_backend_addr g = a"
  by (cases rule: next_backend_cases[of lb s]) (auto simp: acquire_eq)

lemma service_step_guards:
  assumes "list_all backend_of_guard (sv_open sv)"
  shows "list_all backend_of_guard (sv_open (service_step contains e sv))"
proof (cases e)
  case (Start k now l)
  then show ?thesis
    using assms
    by (auto simp: start_task_def Let_def split_beta backend_of_guard_def split: option.split
          dest: next_backend_guard)
qed (use assms in \<open>simp_all add: end_task_def Let_def split_beta list_all_remove_nth\<close>)

lemma service_run_guards:
  "list_all backend_of_guard (sv_open sv) \<Longrightarrow> list_all backend_of_guard (sv_open (service_run contains es sv))"
  by (induction es arbitrary: sv) (simp_all add: service_step_guards del: service_step.simps)

lemma new_service_sets [simp]:
  "sv_open (new_service from_str from_ip rule tls) = []"
  "sv_pending (new_service from_str from_ip rule tls) = []"
  "sv_acl (new_service from_str from_ip rule tls) = new_acl from_str from_ip (r_allow_list rule) (r_deny_list rule)"
  "sv_rate_limiter (new_service from_str from_ip rule tls) = new_rate_limiter (rate_limit_or_default (r_rate_limit rule))"
  "sv_bandwidth (new_service from_str from_ip rule tls) =
     (new_bandwidth_manager (bandwidth_limit_or_default (r_bandwidth_limit rule)), [])"
  by (simp_all add: new_service_def split_beta Let_def)

text \<open>The connections of a service that are counted on a backend.\<close>

definition served_on :: "('net, 'tls) service \<Rightarrow> backend_ref \<Rightarrow> nat" where
  "served_on sv r = count_by (\<lambda>c. g_counter (cn_guard c)) r (sv_open sv)"

lemma served_on_world: "served_on sv r = open_on (world_of sv) r"
  by (simp add: served_on_def world_of_def count_by_def filter_map comp_def)

lemma service_run_wf: "wf_world (world_of (service_run contains es (new_service from_str from_ip rule tls)))"
  unfolding service_run_world world_of_new_service by (rule wf_run)

lemma service_counters:
  assumes "sv = service_run contains es (new_service from_str from_ip rule tls)" "r < length (st_heap (sv_store sv))"
  shows "b_active_connections (st_heap (sv_store sv) ! r) = of_nat (served_on sv r)"
  using wf_worldD(4)[OF service_run_wf, of r contains es from_str from_ip rule tls] assms
  unfolding served_on_world by (simp add: world_of_def)

lemma service_limit:
  assumes "r_backend_connection_limit rule = Some l"
  shows "served_on (service_run contains es (new_service from_str from_ip rule tls)) r \<le> unat l"
  unfolding served_on_world service_run_world world_of_new_service assms by (rule limit_run)

lemma service_backend_addr:
  assumes "sv = service_run contains es (new_service from_str from_ip rule tls)" "c \<in> set (sv_open sv)"
  shows "cn_backend_addr c = b_addr (st_heap (sv_store sv) ! g_counter (cn_guard c))"
proof -
  have "backend_of_guard c"
    using service_run_guards[of "new_service from_str from_ip rule tls" contains es] assms by (simp add: list_all_iff)
  moreover have "guard_ok (heap (world_of sv)) (cn_guard c)"
    unfolding assms(1) by (rule wf_worldD(2)[OF service_run_wf]) (use assms in \<open>simp add: world_of_def\<close>)
  ultimately show ?thesis by (simp add: guard_ok_def backend_of_guard_def world_of_def)
qed

text \<open>
  End to end accounting: in every state a service reaches, each open connection goes to the address of
  the backend it is counted on, the counter of each backend is the number of open connections that go
  to it, and no backend has more of them than the rule's limit, when selections happen one at a time.
\<close>

theorem service_accounting:
  assumes "sv = service_run contains es (new_service from_str from_ip rule tls)"
    and "r < length (st_heap (sv_store sv))" "served_on sv r < 2 ^ 64"
  shows "unat (b_active_connections (st_heap (sv_store sv) ! r)) = served_on sv r \<and>
    (\<forall>l. r_backend_connection_limit rule = Some l \<longrightarrow> served_on sv r \<le> unat l) \<and>
    (\<forall>c \<in> set (sv_open sv). cn_backend_addr c = b_addr (st_heap (sv_store sv) ! g_counter (cn_guard c)))"
  using service_counters[OF assms(1,2)] service_limit[of rule _ contains es from_str from_ip tls r]
    service_backend_addr[OF assms(1)] assms(1,3) by (simp add: unat_of_nat_small)

section \<open>Metric calls\<close>

lemma service_step_calls:
  "list_all op_ok (sv_calls sv) \<Longrightarrow> list_all op_ok (sv_calls (service_step contains e sv))"
proof (cases e)
  case (Finish i acc net stream)
  then show "list_all op_ok (sv_calls sv) \<Longrightarrow> ?thesis"
    by (auto simp: end_task_def serve_def Let_def conn_log_op_ok[OF conn_log_proxy] split: option.split await.split sum.split)
qed (simp_all add: accept_stream_def start_task_def proxy_config_def Let_def split_beta split: option.split)

lemma service_run_calls:
  "list_all op_ok (sv_calls sv) \<Longrightarrow> list_all op_ok (sv_calls (service_run contains es sv))"
  by (induction es arbitrary: sv) (simp_all add: service_step_calls del: service_step.simps)

lemma service_op_ok:
  "list_all op_ok (st_metrics (sv_store (service_run contains es (new_service from_str from_ip rule tls))) @
     sv_calls (service_run contains es (new_service from_str from_ip rule tls)))"
proof -
  let ?sv = "service_run contains es (new_service from_str from_ip rule tls)"
  have "st_metrics (sv_store ?sv) = st_metrics (w_store (world_of ?sv))" by (simp add: world_of_def)
  then have "list_all op_ok (st_metrics (sv_store ?sv))"
    unfolding service_run_world world_of_new_service by (simp only: op_ok_run)
  moreover have "list_all op_ok (sv_calls ?sv)"
    by (rule service_run_calls) (simp add: new_service_def split_beta Let_def)
  ultimately show ?thesis by simp
qed

text \<open>
  No metric call of a service can panic: whatever it goes through, every call of its balancer and of its
  connections is on a family of the right kind and with as many labels as the family is registered with.
\<close>

theorem metric_calls_fit:
  "list_all op_ok (st_metrics (sv_store (service_run contains es (new_service from_str from_ip rule tls))) @
     sv_calls (service_run contains es (new_service from_str from_ip rule tls)))"
  by (rule service_op_ok)

section \<open>Who gets through\<close>

definition no_trace :: "IpAddr \<Rightarrow> ('net, 'tls) service \<Rightarrow> bool" where
  "no_trace ip sv \<longleftrightarrow>
     (\<forall>a \<in> set (sv_pending sv). ip_of a \<noteq> ip) \<and>
     (\<forall>c \<in> set (sv_open sv). ip_of (px_client_addr (cn_config c)) \<noteq> ip) \<and>
     rlm_limiters (sv_rate_limiter sv) ip = None"

lemma service_step_acl [simp]: "sv_acl (service_step contains e sv) = sv_acl sv"
  by (cases e) (simp_all add: end_task_def Let_def split_beta)

lemma start_task_open_eq:
  "sv_open (start_task now a l sv) = sv_open sv @
     (case next_backend (sv_lb sv) (sv_store sv) of
        (None, _) \<Rightarrow> []
      | (Some (b, g), lb, s) \<Rightarrow>
          [\<lparr>cn_backend_addr = b, cn_guard = g, cn_config = fst (proxy_config now a l (sv\<lparr>sv_lb := lb, sv_store := s\<rparr>))\<rparr>])"
  by (auto simp: start_task_def Let_def split_beta split: option.split)

lemma start_task_open:
  "sv_open (start_task now a l sv) = sv_open sv \<or>
   (\<exists>c. sv_open (start_task now a l sv) = sv_open sv @ [c] \<and> px_client_addr (cn_config c) = a)"
  by (auto simp: start_task_open_eq split_beta split: option.split)

lemma service_step_no_trace:
  assumes "no_trace ip sv" "\<not> is_allowed contains (sv_acl sv) ip"
  shows "no_trace ip (service_step contains e sv)"
proof (cases e)
  case (Accept t0 t1 a)
  then show ?thesis
    using assms rl_check_frame(2)[of ip "ip_of a" t0 t1 "sv_rate_limiter sv"]
    by (cases "ip_of a = ip") (auto simp: no_trace_def accept_stream_def Let_def split_beta)
next
  case (Start k now l)
  show ?thesis
  proof (cases "k < length (sv_pending sv)")
    case True
    let ?sv = "sv\<lparr>sv_pending := remove_nth k (sv_pending sv)\<rparr>"
    have "ip_of (sv_pending sv ! k) \<noteq> ip" "\<forall>c \<in> set (sv_open ?sv). ip_of (px_client_addr (cn_config c)) \<noteq> ip"
      using assms(1) nth_mem[OF True] by (auto simp: no_trace_def)
    then have "\<forall>c \<in> set (sv_open (start_task now (sv_pending sv ! k) l ?sv)). ip_of (px_client_addr (cn_config c)) \<noteq> ip"
      using start_task_open[of now "sv_pending sv ! k" l ?sv] by (elim disjE exE conjE) simp_all
    moreover have "\<forall>a \<in> set (remove_nth k (sv_pending sv)). ip_of a \<noteq> ip"
      using assms(1) set_remove_nth_subset[of k "sv_pending sv"] by (auto simp: no_trace_def)
    ultimately show ?thesis using assms(1) True by (simp add: Start no_trace_def)
  qed (use assms(1) in \<open>simp add: Start\<close>)
next
  case (Finish i acc net stream)
  then show ?thesis
    using assms(1) set_remove_nth_subset[of i "sv_open sv"] by (auto simp: no_trace_def end_task_def Let_def)
qed (use assms in \<open>simp_all add: no_trace_def split_beta\<close>)

lemma service_run_no_trace:
  "no_trace ip sv \<Longrightarrow> \<not> is_allowed contains (sv_acl sv) ip \<Longrightarrow> no_trace ip (service_run contains es sv)"
  by (induction es arbitrary: sv) (simp_all add: service_step_no_trace del: service_step.simps)

lemma new_service_no_trace: "no_trace ip (new_service from_str from_ip rule tls)"
  by (simp add: no_trace_def new_rate_limiter_def)

lemma service_open_allowed:
  assumes "c \<in> set (sv_open (service_run contains es (new_service from_str from_ip rule tls)))"
  shows "is_allowed contains (new_acl from_str from_ip (r_allow_list rule) (r_deny_list rule)) (ip_of (px_client_addr (cn_config c)))"
proof (rule ccontr)
  assume "\<not> ?thesis"
  then have "no_trace (ip_of (px_client_addr (cn_config c))) (service_run contains es (new_service from_str from_ip rule tls))"
    by (intro service_run_no_trace new_service_no_trace) simp
  then show False using assms by (auto simp: no_trace_def)
qed

text \<open>
  C23. A client that access control does not admit leaves no trace: whatever the service goes through, no
  task of that address is ever spawned, no connection of it is ever opened, and the rate limiter holds
  no bucket for it.
\<close>

theorem denied_client_leaves_no_trace:
  assumes "\<not> is_allowed contains (new_acl from_str from_ip (r_allow_list rule) (r_deny_list rule)) ip"
  shows "no_trace ip (service_run contains es (new_service from_str from_ip rule tls))"
  using service_run_no_trace[OF new_service_no_trace] assms by simp

section \<open>How many connections a client gets\<close>

fun count_run ::
  "(('tls, 'c, 's) service_event \<Rightarrow> ('net, 'tls) service \<Rightarrow> bool) \<Rightarrow> ('net \<Rightarrow> IpAddr \<Rightarrow> bool) \<Rightarrow>
   ('tls, 'c, 's) service_event list \<Rightarrow> ('net, 'tls) service \<Rightarrow> nat" where
  "count_run P contains [] sv = 0"
| "count_run P contains (e # es) sv = (if P e sv then 1 else 0) + count_run P contains es (service_step contains e sv)"

text \<open>The events in which a client passes the accept loop, and those in which one of its tasks gets a backend.\<close>

fun spawns :: "('net \<Rightarrow> IpAddr \<Rightarrow> bool) \<Rightarrow> IpAddr \<Rightarrow> ('tls, 'c, 's) service_event \<Rightarrow> ('net, 'tls) service \<Rightarrow> bool" where
  "spawns contains ip (Accept t0 t1 a) sv \<longleftrightarrow> ip_of a = ip \<and> fst (accept_stream contains t0 t1 a sv) = Spawned"
| "spawns contains ip _ sv \<longleftrightarrow> False"

fun connects :: "IpAddr \<Rightarrow> ('tls, 'c, 's) service_event \<Rightarrow> ('net, 'tls) service \<Rightarrow> bool" where
  "connects ip (Start k now l) sv \<longleftrightarrow>
     k < length (sv_pending sv) \<and> ip_of (sv_pending sv ! k) = ip \<and> fst (next_backend (sv_lb sv) (sv_store sv)) \<noteq> None"
| "connects ip _ sv \<longleftrightarrow> False"

text \<open>The attempts that reach the rate limiter.\<close>

fun attempt :: "('net \<Rightarrow> IpAddr \<Rightarrow> bool) \<Rightarrow> 'net AccessControl \<Rightarrow> ('tls, 'c, 's) service_event \<Rightarrow> arrival option" where
  "attempt contains acl (Accept t0 t1 a) =
     (if is_allowed contains acl (ip_of a) then Some \<lparr>ar_new = t0, ar_time = t1, ar_ip = ip_of a\<rparr> else None)"
| "attempt contains acl _ = None"

definition attempts ::
  "('net \<Rightarrow> IpAddr \<Rightarrow> bool) \<Rightarrow> 'net AccessControl \<Rightarrow> ('tls, 'c, 's) service_event list \<Rightarrow> arrival list" where
  "attempts contains acl es = List.map_filter (attempt contains acl) es"

lemma connects_le_spawns:
  "count_run (connects ip) contains es sv \<le> count_by ip_of ip (sv_pending sv) + count_run (spawns contains ip) contains es sv"
proof (induction es arbitrary: sv)
  case (Cons e es)
  have "(if connects ip e sv then 1 else 0) + count_by ip_of ip (sv_pending (service_step contains e sv)) \<le>
      count_by ip_of ip (sv_pending sv) + (if spawns contains ip e sv then 1 else 0)"
  proof (cases e)
    case (Accept t0 t1 a)
    then show ?thesis by (simp add: accept_stream_def Let_def split_beta)
  next
    case (Start k now l)
    then show ?thesis using count_by_remove_nth[of k "sv_pending sv" ip_of ip] by auto
  qed (simp_all add: end_task_def Let_def split_beta)
  then show ?case using Cons.IH[of "service_step contains e sv"] by (simp del: service_step.simps)
qed simp

lemma service_step_rate_limiter:
  "sv_rate_limiter (service_step contains e sv) =
     (case attempt contains (sv_acl sv) e of
        None \<Rightarrow> sv_rate_limiter sv
      | Some a \<Rightarrow> snd (rl_check (ar_new a) (ar_time a) (ar_ip a) (sv_rate_limiter sv)))"
  by (cases e) (simp_all add: accept_stream_def end_task_def Let_def split_beta)

lemma spawns_iff:
  "spawns contains ip e sv \<longleftrightarrow>
     (case attempt contains (sv_acl sv) e of
        None \<Rightarrow> False
      | Some a \<Rightarrow> ar_ip a = ip \<and> fst (rl_check (ar_new a) (ar_time a) (ar_ip a) (sv_rate_limiter sv)))"
  by (cases e) (auto simp: accept_stream_def Let_def split_beta)

lemma spawns_admitted:
  "count_run (spawns contains ip) contains es sv = admitted ip (attempts contains (sv_acl sv) es) (sv_rate_limiter sv)"
proof (induction es arbitrary: sv)
  case (Cons e es)
  then show ?case
    by (cases "attempt contains (sv_acl sv) e")
       (auto simp: attempts_def admitted_def spawns_iff service_step_rate_limiter Let_def split_beta
         simp del: service_step.simps)
qed (simp add: attempts_def admitted_def)

text \<open>
  C19. The connections that a client ever gets to backends, over all acceptors and backends of a rule, are at
  most the burst plus what the rate adds over the period of its attempts, up to rounding; attempts that
  access control refuses do not count.
\<close>

theorem service_rate_bound:
  assumes "r_rate_limit rule = Some c" "rl_enabled c"
    and "own_attempts = own ip (attempts contains (new_acl from_str from_ip (r_allow_list rule) (r_deny_list rule)) es)"
    and "\<forall>a \<in> set own_attempts. t0 \<le> ar_new a \<and> ar_new a \<le> t \<and> ar_time a \<le> t"
  shows "of_nat (count_run (connects ip) contains es (new_service from_str from_ip rule tls)) \<le>
    f64_of_u32 (burst_conf c) + f64_of_u32 (rate_conf c) * secs (t - t0) * (1 + eps64) ^ 4 +
    of_nat (length own_attempts) * (2 * (f64_of_u32 (burst_conf c) * eps64))"
proof -
  let ?sv = "new_service from_str from_ip rule tls"
  let ?as = "attempts contains (new_acl from_str from_ip (r_allow_list rule) (r_deny_list rule)) es"
  have "count_run (connects ip) contains es ?sv \<le> admitted ip ?as (new_rate_limiter c)"
    using connects_le_spawns[of ip contains es ?sv] assms(1) by (simp add: spawns_admitted rate_limit_or_default_def)
  then have "(of_nat (count_run (connects ip) contains es ?sv) :: rat) \<le> of_nat (admitted ip ?as (new_rate_limiter c))"
    by simp
  also have "\<dots> \<le> f64_of_u32 (burst_conf c) + f64_of_u32 (rate_conf c) * secs (t - t0) * (1 + eps64) ^ 4 +
    of_nat (length own_attempts) * (2 * (f64_of_u32 (burst_conf c) * eps64))"
    using client_rate_le[OF assms(2), of ip ?as t0 t] assms(3,4) by simp
  finally show ?thesis .
qed

section \<open>Which connections share a bucket\<close>

definition limiters_of :: "ProxyConfig \<Rightarrow> limiter_ref option list" where
  "limiters_of config = [px_client_read_limiter config, px_client_write_limiter config,
     px_backend_read_limiter config, px_backend_write_limiter config]"

definition keys_of :: "IpAddr \<Rightarrow> bw_key list" where
  "keys_of ip = [ClientUpload ip, ClientDownload ip, BackendDownload (display_ip ip), BackendUpload (display_ip ip)]"

definition bucket_calls :: "readings \<Rightarrow> IpAddr \<Rightarrow> (instant \<times> bw_key) list" where
  "bucket_calls now ip =
     zip [at_client_upload now, at_client_download now, at_backend_download now, at_backend_upload now] (keys_of ip)"

lemma proxy_config_calls:
  "limiters_of (fst (proxy_config now a l sv)) = fst (get_run bw_get (bucket_calls now (ip_of a)) (sv_bandwidth sv))"
  "sv_bandwidth (snd (proxy_config now a l sv)) = snd (get_run bw_get (bucket_calls now (ip_of a)) (sv_bandwidth sv))"
  by (simp_all add: proxy_config_def bucket_calls_def keys_of_def limiters_of_def Let_def split_beta)

text \<open>A connection holds, in each direction that is limited, the bucket its client has in the table.\<close>

definition holds_own :: "BandwidthManager \<times> limiter_heap \<Rightarrow> connection \<Rightarrow> bool" where
  "holds_own bw c \<longleftrightarrow> (\<forall>j < 4.
     let k = keys_of (ip_of (px_client_addr (cn_config c))) ! j; r = limiters_of (cn_config c) ! j
     in if bw_rate (bm_config (fst bw)) k \<noteq> None then r \<noteq> None \<and> bw_lookup k bw = r else r = None)"

lemma holds_own_later:
  assumes "holds_own bw c"
  shows "holds_own (snd (get_run bw_get calls bw)) c"
  using assms bwt.get_run_stable[of _ bw _ calls] get_run_config[of calls bw] unfolding holds_own_def Let_def by (metis not_None_eq)

lemma holds_own_new:
  "holds_own (sv_bandwidth (snd (proxy_config now a l sv))) \<lparr>cn_backend_addr = b, cn_guard = g, cn_config = fst (proxy_config now a l sv)\<rparr>"
proof -
  let ?calls = "bucket_calls now (ip_of a)" and ?bw = "sv_bandwidth sv"
  have keys: "length (keys_of (ip_of a)) = 4" by (simp add: keys_of_def)
  have len: "length ?calls = 4" by (simp add: bucket_calls_def keys)
  have key: "snd (?calls ! j) = keys_of (ip_of a) ! j" if "j < 4" for j
    using that by (simp add: bucket_calls_def keys)
  have "bw_rate (bm_config (fst (snd (get_run bw_get ?calls ?bw)))) k = bw_rate (bm_config (fst ?bw)) k" for k
    by (simp only: get_run_config)
  then show ?thesis
    using bwt.get_run_answers[of _ ?calls ?bw] len key
    unfolding holds_own_def Let_def proxy_config_calls by (auto simp: proxy_config_calls split_beta)
qed

definition buckets_shared :: "('net, 'tls) service \<Rightarrow> bool" where
  "buckets_shared sv \<longleftrightarrow> bwt.table_ok (sv_bandwidth sv) \<and> list_all (holds_own (sv_bandwidth sv)) (sv_open sv)"

lemma service_step_buckets:
  assumes "buckets_shared sv"
  shows "buckets_shared (service_step contains e sv)"
proof (cases e)
  case (Start k now l)
  show ?thesis
  proof (cases "k < length (sv_pending sv) \<and> fst (next_backend (sv_lb sv) (sv_store sv)) \<noteq> None")
    case True
    then obtain b g where n: "fst (next_backend (sv_lb sv) (sv_store sv)) = Some (b, g)" by auto
    let ?a = "sv_pending sv ! k"
    let ?sv = "sv\<lparr>sv_pending := remove_nth k (sv_pending sv), sv_lb := fst (snd (next_backend (sv_lb sv) (sv_store sv))),
      sv_store := snd (snd (next_backend (sv_lb sv) (sv_store sv)))\<rparr>"
    have step: "sv_bandwidth (service_step contains e sv) = sv_bandwidth (snd (proxy_config now ?a l ?sv))"
      "sv_open (service_step contains e sv) =
         sv_open sv @ [\<lparr>cn_backend_addr = b, cn_guard = g, cn_config = fst (proxy_config now ?a l ?sv)\<rparr>]"
      using True n by (simp_all add: Start start_task_def Let_def split_beta)
    have bw: "sv_bandwidth ?sv = sv_bandwidth sv" by simp
    have "list_all (holds_own (sv_bandwidth (snd (proxy_config now ?a l ?sv)))) (sv_open sv)"
      using assms unfolding proxy_config_calls bw buckets_shared_def list_all_iff by (blast intro: holds_own_later)
    moreover have "bwt.table_ok (sv_bandwidth (snd (proxy_config now ?a l ?sv)))"
      using assms bwt.get_run_table_ok unfolding proxy_config_calls bw buckets_shared_def by blast
    ultimately show ?thesis unfolding buckets_shared_def step using holds_own_new[of now ?a l ?sv b g] by simp
  next
    case False
    then show ?thesis
      using assms by (cases "fst (next_backend (sv_lb sv) (sv_store sv))") (auto simp: Start buckets_shared_def start_task_def split_beta)
  qed
next
  case (Finish i acc net stream)
  then show ?thesis using assms by (simp add: buckets_shared_def end_task_def Let_def list_all_remove_nth)
qed (use assms in \<open>simp_all add: buckets_shared_def split_beta\<close>)

lemma service_run_buckets: "buckets_shared sv \<Longrightarrow> buckets_shared (service_run contains es sv)"
  by (induction es arbitrary: sv) (simp_all add: service_step_buckets del: service_step.simps)

lemma new_service_buckets: "buckets_shared (new_service from_str from_ip rule tls)"
proof -
  have "bw_lookup k (new_bandwidth_manager c, []) = None" for k c by (cases k) (simp_all add: new_bandwidth_manager_def)
  then show ?thesis by (simp add: buckets_shared_def bwt.table_ok_def)
qed

lemma service_step_bw_config: "bm_config (fst (sv_bandwidth (service_step contains e sv))) = bm_config (fst (sv_bandwidth sv))"
  by (cases e)
     (simp_all add: end_task_def start_task_def proxy_config_calls get_run_config Let_def split_beta split: option.split)

lemma service_run_bw_config: "bm_config (fst (sv_bandwidth (service_run contains es sv))) = bm_config (fst (sv_bandwidth sv))"
  by (induction es arbitrary: sv) (simp_all add: service_step_bw_config del: service_step.simps)

lemma buckets_shared_eq:
  assumes "buckets_shared sv" "c \<in> set (sv_open sv)" "c' \<in> set (sv_open sv)" "j < 4"
    and "k = keys_of (ip_of (px_client_addr (cn_config c))) ! j" "k' = keys_of (ip_of (px_client_addr (cn_config c'))) ! j"
    and "bw_rate (bm_config (fst (sv_bandwidth sv))) k \<noteq> None" "bw_rate (bm_config (fst (sv_bandwidth sv))) k' \<noteq> None"
  shows "limiters_of (cn_config c) ! j \<noteq> None \<and>
    (limiters_of (cn_config c) ! j = limiters_of (cn_config c') ! j \<longleftrightarrow> k = k')"
proof -
  have "holds_own (sv_bandwidth sv) c" "holds_own (sv_bandwidth sv) c'"
    using assms(1-3) by (simp_all add: buckets_shared_def list_all_iff)
  then have l: "limiters_of (cn_config c) ! j \<noteq> None" "limiters_of (cn_config c) ! j = bw_lookup k (sv_bandwidth sv)"
    "limiters_of (cn_config c') ! j = bw_lookup k' (sv_bandwidth sv)"
    using assms(4-8) by (simp_all add: holds_own_def Let_def)
  moreover have "bw_lookup k (sv_bandwidth sv) = bw_lookup k' (sv_bandwidth sv) \<longleftrightarrow> k = k'"
    using assms(1) l(1) unfolding l(2) buckets_shared_def bwt.table_ok_def by (metis not_None_eq)
  ultimately show ?thesis by simp
qed

text \<open>
  C25. Bandwidth is limited per client, in all four directions: of the open connections of a service with both
  limits enabled, two hold the same bucket exactly when they come from the same IPv4 address, whichever
  backends they go to. So the buckets named after the backend are not those of a backend either.
\<close>

theorem bandwidth_per_client:
  assumes "r_bandwidth_limit rule = Some b" "bw_enabled b" "bw_client b \<noteq> None" "bw_backend b \<noteq> None"
    and "sv = service_run contains es (new_service from_str from_ip rule tls)"
    and "c \<in> set (sv_open sv)" "c' \<in> set (sv_open sv)"
    and "ip_of (px_client_addr (cn_config c)) = V4 x" "ip_of (px_client_addr (cn_config c')) = V4 y"
    and "p \<in> {px_client_read_limiter, px_client_write_limiter, px_backend_read_limiter, px_backend_write_limiter}"
  shows "p (cn_config c) \<noteq> None \<and> (p (cn_config c) = p (cn_config c') \<longleftrightarrow> x = y)"
proof -
  have shared: "buckets_shared sv" unfolding assms(5) by (intro service_run_buckets new_service_buckets)
  have conf: "bm_config (fst (sv_bandwidth sv)) = b"
    unfolding assms(5) service_run_bw_config using assms(1) by (simp add: new_bandwidth_manager_def bandwidth_limit_or_default_def)
  obtain j where j: "j < 4" "p (cn_config c) = limiters_of (cn_config c) ! j" "p (cn_config c') = limiters_of (cn_config c') ! j"
  proof -
    from assms(10) consider "p = px_client_read_limiter" | "p = px_client_write_limiter" | "p = px_backend_read_limiter"
      | "p = px_backend_write_limiter" by auto
    then show ?thesis
      by cases (use that[of 0] that[of 1] that[of 2] that[of 3] in \<open>simp_all add: limiters_of_def\<close>)
  qed
  have keys: "bw_rate b (keys_of ip ! j) \<noteq> None" for ip
    using j(1) assms(2-4) by (auto simp: keys_of_def less_Suc_eq numeral_eq_Suc)
  have "keys_of (V4 x) ! j = keys_of (V4 y) ! j \<longleftrightarrow> x = y"
    using j(1) display4_inject[of x y] by (auto simp: keys_of_def less_Suc_eq numeral_eq_Suc)
  then show ?thesis
    unfolding j(2,3) using buckets_shared_eq[OF shared assms(6,7) j(1) refl refl, unfolded conf, OF keys keys] assms(8,9) by simp
qed

section \<open>A service in operation\<close>

text \<open>
  A rule with two backends that limits bandwidth and turns one address away. One client connects twice, the
  other address in between, and both tasks of the client get a backend.
\<close>

definition sample_rule :: LBRule where
  "sample_rule = \<lparr>r_name = ''app'', r_listen = ''0.0.0.0:80'', r_backends = [Simple ''a'', Simple ''b''], r_protocol = None,
     r_proxy_protocol = False, r_tls = None, r_backend_tls = None, r_rate_limit = None,
     r_bandwidth_limit = Some \<lparr>bw_enabled = True, bw_client = Some \<lparr>cb_upload_per_sec = 9, cb_download_per_sec = 9\<rparr>,
       bw_backend = Some \<lparr>bb_upload_per_sec = 9, bb_download_per_sec = 9\<rparr>\<rparr>,
     r_backend_connection_limit = Some 5, r_health_check = None, r_allow_list = None, r_deny_list = Some [''10.0.0.9'']\<rparr>"

definition sample_client :: SocketAddr where
  "sample_client = SocketV4 (Ipv4Addr 10 0 0 1) 4000"

definition sample_readings :: readings where
  "sample_readings = \<lparr>at_client_upload = 3, at_client_download = 3, at_backend_download = 3, at_backend_upload = 3\<rparr>"

definition sample_events :: "(unit, unit, unit) service_event list" where
  "sample_events =
     [Accept 1 1 sample_client, Accept 2 2 (SocketV4 (Ipv4Addr 10 0 0 9) 4001), Accept 2 2 sample_client,
      Start 0 sample_readings (Inl (IoError ''gone'')), Start 0 sample_readings (Inl (IoError ''gone''))]"

abbreviation sample_service :: "(cidr, unit) service" where
  "sample_service \<equiv> service_run cidr_contains sample_events (new_service cidr_from_str cidr_from_ip sample_rule None)"

lemma sample_acl:
  "is_allowed cidr_contains (new_acl cidr_from_str cidr_from_ip None (Some [''10.0.0.9''])) (V4 (Ipv4Addr 10 0 0 1))"
  "\<not> is_allowed cidr_contains (new_acl cidr_from_str cidr_from_ip None (Some [''10.0.0.9''])) (V4 (Ipv4Addr 10 0 0 9))"
  by code_simp+

lemmas sample_simps = sample_events_def sample_client_def sample_rule_def sample_acl accept_stream_def rl_check_def
  new_rate_limiter_def rate_limit_or_default_def remove_nth_def

lemma sample_world:
  "world_of sample_service = fold lb_step [Next_backend, Next_backend] (init_world ''app'' [Simple ''a'', Simple ''b''] (Some 5))"
  unfolding service_run_world world_of_new_service by (simp add: sample_simps Let_def del: lb_step.simps)

lemma sample_guards: "map (g_counter \<circ> cn_guard) (sv_open sample_service) = [0, 1]"
  "map (g_backend_addr \<circ> cn_guard) (sv_open sample_service) = [''a'', ''b'']"
  "length (st_heap (sv_store sample_service)) = 2"
proof -
  have "map g_counter (w_guards (world_of sample_service)) = [0, 1]" unfolding sample_world by code_simp
  then show "map (g_counter \<circ> cn_guard) (sv_open sample_service) = [0, 1]" by (simp add: world_of_def comp_def)
  have "map g_backend_addr (w_guards (world_of sample_service)) = [''a'', ''b'']" unfolding sample_world by code_simp
  then show "map (g_backend_addr \<circ> cn_guard) (sv_open sample_service) = [''a'', ''b'']" by (simp add: world_of_def comp_def)
  have "length (heap (world_of sample_service)) = 2" unfolding sample_world by code_simp
  then show "length (st_heap (sv_store sample_service)) = 2" by (simp add: world_of_def)
qed

lemma sample_clients: "list_all (\<lambda>c. px_client_addr (cn_config c) = sample_client) (sv_open sample_service)"
  by (simp add: sample_simps Let_def start_task_open_eq split_beta split: option.split)

lemma sample_served: "served_on sample_service 0 = 1"
proof -
  have "served_on sample_service 0 = count_by (\<lambda>r. r) 0 (map (g_counter \<circ> cn_guard) (sv_open sample_service))"
    by (simp add: served_on_def count_by_def filter_map comp_def)
  then show ?thesis unfolding sample_guards by simp
qed

theorem service_accounting_witness:
  "unat (b_active_connections (st_heap (sv_store sample_service) ! 0)) = 1 \<and> served_on sample_service 0 \<le> 5"
proof -
  have "0 < length (st_heap (sv_store sample_service))" "served_on sample_service 0 < 2 ^ 64"
    unfolding sample_guards sample_served by simp_all
  from service_accounting[OF refl this] show ?thesis unfolding sample_served by (simp add: sample_rule_def)
qed

theorem denied_client_leaves_no_trace_witness: "no_trace (V4 (Ipv4Addr 10 0 0 9)) sample_service"
  by (rule denied_client_leaves_no_trace) (simp add: sample_rule_def sample_acl)

theorem service_rate_bound_witness:
  "of_nat (count_run (connects (V4 (Ipv4Addr 10 0 0 1))) cidr_contains sample_events
      (new_service cidr_from_str cidr_from_ip (sample_rule\<lparr>r_rate_limit := Some sample_rate\<rparr>) None)) \<le>
    f64_of_u32 (burst_conf sample_rate) + f64_of_u32 (rate_conf sample_rate) * secs (2 - 1) * (1 + eps64) ^ 4 +
    of_nat 2 * (2 * (f64_of_u32 (burst_conf sample_rate) * eps64))"
proof -
  let ?rule = "sample_rule\<lparr>r_rate_limit := Some sample_rate\<rparr>"
  let ?as = "own (V4 (Ipv4Addr 10 0 0 1)) (attempts cidr_contains (new_acl cidr_from_str cidr_from_ip (r_allow_list ?rule) (r_deny_list ?rule)) sample_events)"
  have as: "?as = [\<lparr>ar_new = 1, ar_time = 1, ar_ip = V4 (Ipv4Addr 10 0 0 1)\<rparr>, \<lparr>ar_new = 2, ar_time = 2, ar_ip = V4 (Ipv4Addr 10 0 0 1)\<rparr>]"
    by (simp add: attempts_def sample_events_def sample_client_def sample_rule_def sample_acl)
  have "rl_enabled sample_rate" by (simp add: sample_rate_def)
  from service_rate_bound[of ?rule sample_rate, OF _ this refl, of "V4 (Ipv4Addr 10 0 0 1)" cidr_contains cidr_from_str cidr_from_ip sample_events 1 2 None]
  show ?thesis unfolding as by simp
qed

theorem bandwidth_per_client_witness:
  "cn_backend_addr (sv_open sample_service ! 0) = ''a'' \<and> cn_backend_addr (sv_open sample_service ! 1) = ''b'' \<and>
   px_backend_read_limiter (cn_config (sv_open sample_service ! 0)) \<noteq> None \<and>
   px_backend_read_limiter (cn_config (sv_open sample_service ! 0)) = px_backend_read_limiter (cn_config (sv_open sample_service ! 1))"
proof -
  let ?c = "sv_open sample_service ! 0" and ?c' = "sv_open sample_service ! 1"
  have len: "length (sv_open sample_service) = 2" using arg_cong[OF sample_guards(1), of length] by simp
  then have c: "?c \<in> set (sv_open sample_service)" "?c' \<in> set (sv_open sample_service)" by (simp_all del: fold_simps)
  have "list_all backend_of_guard (sv_open sample_service)" by (rule service_run_guards) simp
  then have "cn_backend_addr ?c = ''a''" "cn_backend_addr ?c' = ''b''"
    using c arg_cong[OF sample_guards(2), of "\<lambda>xs. xs ! 0"] arg_cong[OF sample_guards(2), of "\<lambda>xs. xs ! 1"] len
    by (simp_all add: list_all_iff backend_of_guard_def)
  moreover have "ip_of (px_client_addr (cn_config ?c)) = V4 (Ipv4Addr 10 0 0 1)" "ip_of (px_client_addr (cn_config ?c')) = V4 (Ipv4Addr 10 0 0 1)"
    using sample_clients c by (simp_all add: list_all_iff sample_client_def)
  moreover have "r_bandwidth_limit sample_rule = Some \<lparr>bw_enabled = True, bw_client = Some \<lparr>cb_upload_per_sec = 9, cb_download_per_sec = 9\<rparr>,
       bw_backend = Some \<lparr>bb_upload_per_sec = 9, bb_download_per_sec = 9\<rparr>\<rparr>" by (simp add: sample_rule_def)
  ultimately show ?thesis
    using bandwidth_per_client[OF _ _ _ _ refl c, of _ "Ipv4Addr 10 0 0 1" "Ipv4Addr 10 0 0 1" px_backend_read_limiter] by simp metis
qed

end
