(* ===== verification/Traffic.thy ===== *)
theory Traffic
  imports Acceptor
begin

text \<open>
  A service with its traffic: the connections of \<^verbatim>\<open>Acceptor\<close> together with the limited streams that
  \<open>proxy_connection\<close> wraps around their two ends, polled in any order (\<^verbatim>\<open>src/main.rs\<close>,
  \<^verbatim>\<open>src/networking/proxy.rs\<close>, \<^verbatim>\<open>src/traffic/bandwidth.rs\<close>). This closes the gap between the service,
  which hands out buckets, and the streams, which take tokens from them. Shown here: the balancer under
  such a service still goes through its own runs, and the bytes of a client in one direction, over all its
  connections and backends, are bounded by the burst, the configured rate and what passed beyond the size
  of a pending permit.
\<close>

section \<open>Polls of a connection\<close>

text \<open>The four ways in which copying polls the two streams of a connection.\<close>

datatype direction = Upload | Download | FromBackend | ToBackend

datatype ('c, 's) stream_poll =
    ClientRead Bandwidth.readings "'c inner_read" "nat \<Rightarrow> bool" nat
  | ClientWrite Bandwidth.readings "'c inner_write" "u8 list"
  | BackendRead Bandwidth.readings "'s inner_read" "nat \<Rightarrow> bool" nat
  | BackendWrite Bandwidth.readings "'s inner_write" "u8 list"

type_synonym ('c, 's) stream_pair = "'c RateLimitedStream \<times> 's RateLimitedStream"

text \<open>The bytes that a poll transfers, and the streams and buckets after it.\<close>

fun poll_streams :: "('c, 's) stream_poll \<Rightarrow> ('c, 's) stream_pair \<times> limiter_heap \<Rightarrow> nat \<times> ('c, 's) stream_pair \<times> limiter_heap" where
  "poll_streams (ClientRead ob inner advance remaining) ((client, backend), buckets) =
     (let (res, st, buckets1) = poll_read ob inner advance remaining (client, buckets) in (read_count res, (st, backend), buckets1))"
| "poll_streams (ClientWrite ob inner buf) ((client, backend), buckets) =
     (let (res, st, buckets1) = poll_write ob inner buf (client, buckets) in (write_count res, (st, backend), buckets1))"
| "poll_streams (BackendRead ob inner advance remaining) ((client, backend), buckets) =
     (let (res, st, buckets1) = poll_read ob inner advance remaining (backend, buckets) in (read_count res, (client, st), buckets1))"
| "poll_streams (BackendWrite ob inner buf) ((client, backend), buckets) =
     (let (res, st, buckets1) = poll_write ob inner buf (backend, buckets) in (write_count res, (client, st), buckets1))"

fun poll_direction :: "('c, 's) stream_poll \<Rightarrow> direction" where
  "poll_direction (ClientRead _ _ _ _) = Upload"
| "poll_direction (ClientWrite _ _ _) = Download"
| "poll_direction (BackendRead _ _ _ _) = FromBackend"
| "poll_direction (BackendWrite _ _ _) = ToBackend"

fun poll_readings :: "('c, 's) stream_poll \<Rightarrow> Bandwidth.readings" where
  "poll_readings (ClientRead ob _ _ _) = ob"
| "poll_readings (ClientWrite ob _ _) = ob"
| "poll_readings (BackendRead ob _ _ _) = ob"
| "poll_readings (BackendWrite ob _ _) = ob"

fun pair_limiter :: "direction \<Rightarrow> ('c, 's) stream_pair \<Rightarrow> limiter_ref option" where
  "pair_limiter Upload (client, backend) = rs_read_limiter client"
| "pair_limiter Download (client, backend) = rs_write_limiter client"
| "pair_limiter FromBackend (client, backend) = rs_read_limiter backend"
| "pair_limiter ToBackend (client, backend) = rs_write_limiter backend"

text \<open>
  The contract of the inner stream: it fills no more than the room it was given, and writes no more than
  the bytes it was given.
\<close>

fun poll_contract :: "('c, 's) stream_poll \<Rightarrow> bool" where
  "poll_contract (ClientRead ob inner advance remaining) \<longleftrightarrow> (\<forall>k s data s'. inner k s = (Ready data, s') \<longrightarrow> length data \<le> k)"
| "poll_contract (ClientWrite ob inner buf) \<longleftrightarrow> (\<forall>bs s n s'. inner bs s = (Ready n, s') \<longrightarrow> n \<le> length bs)"
| "poll_contract (BackendRead ob inner advance remaining) \<longleftrightarrow> (\<forall>k s data s'. inner k s = (Ready data, s') \<longrightarrow> length data \<le> k)"
| "poll_contract (BackendWrite ob inner buf) \<longleftrightarrow> (\<forall>bs s n s'. inner bs s = (Ready n, s') \<longrightarrow> n \<le> length bs)"

text \<open>The permit that a poll finds pending, and the chunk it would transfer.\<close>

fun poll_permit :: "('c, 's) stream_poll \<Rightarrow> ('c, 's) stream_pair \<Rightarrow> u32 option" where
  "poll_permit (ClientRead _ _ _ _) (client, backend) = rs_read_permit_fut client"
| "poll_permit (ClientWrite _ _ _) (client, backend) = rs_write_permit_fut client"
| "poll_permit (BackendRead _ _ _ _) (client, backend) = rs_read_permit_fut backend"
| "poll_permit (BackendWrite _ _ _) (client, backend) = rs_write_permit_fut backend"

fun poll_want :: "('c, 's) stream_poll \<Rightarrow> nat" where
  "poll_want (ClientRead _ _ _ remaining) = min remaining chunk_size"
| "poll_want (ClientWrite _ _ buf) = min (length buf) chunk_size"
| "poll_want (BackendRead _ _ _ remaining) = min remaining chunk_size"
| "poll_want (BackendWrite _ _ buf) = min (length buf) chunk_size"

lemma poll_limiter_frame:
  "rs_read_limiter (fst (snd (poll_read ob inr adv k s))) = rs_read_limiter (fst s)"
  "rs_write_limiter (fst (snd (poll_read ob inr adv k s))) = rs_write_limiter (fst s)"
  "rs_read_limiter (fst (snd (poll_write ob inw buf s))) = rs_read_limiter (fst s)"
  "rs_write_limiter (fst (snd (poll_write ob inw buf s))) = rs_write_limiter (fst s)"
  by (cases s;
      auto simp: poll_read_def poll_write_def transfer_read_def transfer_write_def Let_def split_beta
        split: option.split gate.split io_poll.split)+

lemma poll_streams_limiter: "pair_limiter d (fst (snd (poll_streams p (pr, buckets)))) = pair_limiter d pr"
  by (cases pr; cases p; cases d) (simp_all add: Let_def split_beta poll_limiter_frame)

lemma poll_streams_charges:
  assumes "pair_limiter (poll_direction p) pr = Some r"
  shows "charges (poll_readings p) (poll_contract p) (covered (poll_permit p pr) (fst (poll_streams p (pr, buckets)))) r
    buckets (snd (snd (poll_streams p (pr, buckets))))"
proof -
  obtain client backend where pr: "pr = (client, backend)" by (cases pr)
  show ?thesis
  proof (cases p)
    case (ClientRead ob inner adv k)
    have "case poll_read ob inner adv k (client, buckets) of (res, st, buckets1) \<Rightarrow>
        charges ob (poll_contract p) (covered (rs_read_permit_fut client) (read_count res)) r buckets buckets1"
      by (rule poll_read_charges) (use assms ClientRead pr in simp_all)
    then show ?thesis by (simp add: pr ClientRead Let_def split_beta)
  next
    case (ClientWrite ob inner buf)
    have "case poll_write ob inner buf (client, buckets) of (res, st, buckets1) \<Rightarrow>
        charges ob (poll_contract p) (covered (rs_write_permit_fut client) (write_count res)) r buckets buckets1"
      by (rule poll_write_charges) (use assms ClientWrite pr in simp_all)
    then show ?thesis by (simp add: pr ClientWrite Let_def split_beta)
  next
    case (BackendRead ob inner adv k)
    have "case poll_read ob inner adv k (backend, buckets) of (res, st, buckets1) \<Rightarrow>
        charges ob (poll_contract p) (covered (rs_read_permit_fut backend) (read_count res)) r buckets buckets1"
      by (rule poll_read_charges) (use assms BackendRead pr in simp_all)
    then show ?thesis by (simp add: pr BackendRead Let_def split_beta)
  next
    case (BackendWrite ob inner buf)
    have "case poll_write ob inner buf (backend, buckets) of (res, st, buckets1) \<Rightarrow>
        charges ob (poll_contract p) (covered (rs_write_permit_fut backend) (write_count res)) r buckets buckets1"
      by (rule poll_write_charges) (use assms BackendWrite pr in simp_all)
    then show ?thesis by (simp add: pr BackendWrite Let_def split_beta)
  qed
qed

text \<open>A limited poll transfers a chunk at most.\<close>

lemma poll_streams_want:
  assumes "pair_limiter (poll_direction p) pr = Some r" "poll_contract p"
  shows "fst (poll_streams p (pr, buckets)) \<le> poll_want p"
  using assms
  by (cases pr; cases p) (auto simp: split_beta Let_def intro!: poll_read_count poll_write_count simp del: min.bounded_iff)

lemma poll_streams_unlimited:
  "pair_limiter (poll_direction p) pr = None \<Longrightarrow> snd (snd (poll_streams p (pr, buckets))) = buckets"
  by (cases pr; cases p) (simp_all add: poll_read_def poll_write_def Let_def split_beta)

section \<open>A service with its streams\<close>

text \<open>The streams of the open connections, in their order; \<open>None\<close> before copying begins.\<close>

record ('net, 'tls, 'c, 's) live =
  lv_service :: "('net, 'tls) service"
  lv_streams :: "('c, 's) stream_pair option list"

definition new_live :: "('net, 'tls) service \<Rightarrow> ('net, 'tls, 'c, 's) live" where
  "new_live sv = \<lparr>lv_service = sv, lv_streams = map (\<lambda>_. None) (sv_open sv)\<rparr>"

datatype ('tls, 'c, 's) live_event =
    Service "('tls, 'c, 's) service_event"
  | CopyBegins nat 'c 's
  | Poll nat "('c, 's) stream_poll"

definition wrap_streams :: "ProxyConfig \<Rightarrow> 'c \<Rightarrow> 's \<Rightarrow> ('c, 's) stream_pair" where
  "wrap_streams config client_stream backend_stream =
     (new_stream client_stream (px_client_read_limiter config) (px_client_write_limiter config),
      new_stream backend_stream (px_backend_read_limiter config) (px_backend_write_limiter config))"

text \<open>A connection that opens has no streams yet, and one that ends takes its streams with it.\<close>

fun service_streams :: "('tls, 'c, 's) service_event \<Rightarrow> ('net, 'tls) service \<Rightarrow> 'p option list \<Rightarrow> 'p option list" where
  "service_streams (Start k now l) sv streams =
     (if k < length (sv_pending sv) \<and> fst (next_backend (sv_lb sv) (sv_store sv)) \<noteq> None then streams @ [None] else streams)"
| "service_streams (Finish i acc net stream) sv streams = (if i < length (sv_open sv) then remove_nth i streams else streams)"
| "service_streams _ sv streams = streams"

fun live_step ::
  "('net \<Rightarrow> IpAddr \<Rightarrow> bool) \<Rightarrow> ('tls, 'c, 's) live_event \<Rightarrow> ('net, 'tls, 'c, 's) live \<Rightarrow> ('net, 'tls, 'c, 's) live" where
  "live_step contains (Service e) lv =
     \<lparr>lv_service = service_step contains e (lv_service lv), lv_streams = service_streams e (lv_service lv) (lv_streams lv)\<rparr>"
| "live_step contains (CopyBegins i client backend) lv =
     (if i < length (lv_streams lv) \<and> lv_streams lv ! i = None
      then lv\<lparr>lv_streams := (lv_streams lv)[i := Some (wrap_streams (cn_config (sv_open (lv_service lv) ! i)) client backend)]\<rparr>
      else lv)"
| "live_step contains (Poll i p) lv =
     (if i < length (lv_streams lv)
      then case lv_streams lv ! i of
             None \<Rightarrow> lv
           | Some pr \<Rightarrow>
               let bw = sv_bandwidth (lv_service lv); (n, pr1, buckets1) = poll_streams p (pr, snd bw)
               in \<lparr>lv_service = (lv_service lv)\<lparr>sv_bandwidth := (fst bw, buckets1)\<rparr>, lv_streams = (lv_streams lv)[i := Some pr1]\<rparr>
      else lv)"

abbreviation live_run ::
  "('net \<Rightarrow> IpAddr \<Rightarrow> bool) \<Rightarrow> ('tls, 'c, 's) live_event list \<Rightarrow> ('net, 'tls, 'c, 's) live \<Rightarrow> ('net, 'tls, 'c, 's) live" where
  "live_run contains es lv \<equiv> fold (live_step contains) es lv"

section \<open>The balancer is not affected\<close>

fun live_share :: "('tls, 'c, 's) live_event \<Rightarrow> ('net, 'tls, 'c, 's) live \<Rightarrow> lb_event list" where
  "live_share (Service e) lv = lb_events e (lv_service lv)"
| "live_share _ lv = []"

lemma live_step_world: "world_of (lv_service (live_step contains e lv)) = fold lb_step (live_share e lv) (world_of (lv_service lv))"
proof (cases e)
  case (Service ev)
  then show ?thesis by (simp add: service_step_world del: service_step.simps lb_step.simps)
qed (simp_all add: world_of_def Let_def split_beta split: option.split)

interpretation lvs: simulation "live_step contains" live_share lb_step "\<lambda>lv. world_of (lv_service lv)" "\<lambda>_. True" for contains
  by unfold_locales (rule live_step_world, rule TrueI)

section \<open>Streams keep the buckets of their connection\<close>

definition config_limiter :: "direction \<Rightarrow> ProxyConfig \<Rightarrow> limiter_ref option" where
  "config_limiter d config =
     (case d of Upload \<Rightarrow> px_client_read_limiter config | Download \<Rightarrow> px_client_write_limiter config
      | FromBackend \<Rightarrow> px_backend_read_limiter config | ToBackend \<Rightarrow> px_backend_write_limiter config)"

fun direction_key :: "direction \<Rightarrow> IpAddr \<Rightarrow> bw_key" where
  "direction_key Upload ip = ClientUpload ip"
| "direction_key Download ip = ClientDownload ip"
| "direction_key FromBackend ip = BackendDownload (display_ip ip)"
| "direction_key ToBackend ip = BackendUpload (display_ip ip)"

fun direction_index :: "direction \<Rightarrow> nat" where
  "direction_index Upload = 0"
| "direction_index Download = 1"
| "direction_index FromBackend = 2"
| "direction_index ToBackend = 3"

lemma direction_index:
  "direction_index d < 4" "keys_of ip ! direction_index d = direction_key d ip"
  "limiters_of config ! direction_index d = config_limiter d config"
  by (cases d; simp add: keys_of_def limiters_of_def config_limiter_def)+

lemma wrap_streams_limiter: "pair_limiter d (wrap_streams config c s) = config_limiter d config"
  by (cases d) (simp_all add: wrap_streams_def new_stream_def config_limiter_def)

definition holds_config :: "connection \<Rightarrow> ('c, 's) stream_pair option \<Rightarrow> bool" where
  "holds_config c st \<longleftrightarrow> (\<forall>pr d. st = Some pr \<longrightarrow> pair_limiter d pr = config_limiter d (cn_config c))"

definition live_ok :: "('net, 'tls, 'c, 's) live \<Rightarrow> bool" where
  "live_ok lv \<longleftrightarrow> buckets_shared (lv_service lv) \<and> buckets_ok (sv_bandwidth (lv_service lv)) \<and>
     list_all2 holds_config (sv_open (lv_service lv)) (lv_streams lv)"

lemma service_step_open:
  "sv_open (service_step contains e sv) =
     (case e of
        Start k now l \<Rightarrow>
          if k < length (sv_pending sv)
          then sv_open (start_task now (sv_pending sv ! k) l (sv\<lparr>sv_pending := remove_nth k (sv_pending sv)\<rparr>)) else sv_open sv
      | Finish i _ _ _ \<Rightarrow> if i < length (sv_open sv) then remove_nth i (sv_open sv) else sv_open sv
      | _ \<Rightarrow> sv_open sv)"
  by (cases e) (simp_all add: end_task_def Let_def split_beta)

lemma service_streams_ok:
  assumes "list_all2 holds_config (sv_open sv) streams"
  shows "list_all2 holds_config (sv_open (service_step contains e sv)) (service_streams e sv streams)"
proof (cases e)
  case (Start k now l)
  then show ?thesis
    using assms
    by (auto simp: service_step_open start_task_open_eq split_beta holds_config_def simp del: service_step.simps
        intro!: list_all2_appendI split: option.split)
next
  case (Finish i acc net stream)
  then show ?thesis
    using assms by (auto simp: service_step_open remove_nth_def simp del: service_step.simps intro!: list_all2_appendI list_all2_takeI list_all2_dropI)
qed (use assms in \<open>simp_all add: service_step_open del: service_step.simps\<close>)

text \<open>The bandwidth tables change only where a task looks up its buckets.\<close>

fun bucket_readings :: "('tls, 'c, 's) service_event \<Rightarrow> instant list" where
  "bucket_readings (Start k now l) = [at_client_upload now, at_client_download now, at_backend_download now, at_backend_upload now]"
| "bucket_readings _ = []"

lemma service_step_bandwidth:
  "\<exists>calls. sv_bandwidth (service_step contains e sv) = snd (get_run bw_get calls (sv_bandwidth sv)) \<and>
     fst ` set calls \<subseteq> set (bucket_readings e)"
proof -
  have none: "\<exists>calls. sv_bandwidth sv = snd (get_run bw_get calls (sv_bandwidth sv)) \<and> fst ` set calls \<subseteq> set (bucket_readings e)"
    by (intro exI[of _ "[]"]) simp
  show ?thesis
  proof (cases e)
    case (Start k now l)
    show ?thesis
    proof (cases "k < length (sv_pending sv) \<and> fst (next_backend (sv_lb sv) (sv_store sv)) \<noteq> None")
      case True
      then have "sv_bandwidth (service_step contains e sv) =
          snd (get_run bw_get (bucket_calls now (ip_of (sv_pending sv ! k))) (sv_bandwidth sv))"
        by (auto simp: Start start_task_def Let_def split_beta proxy_config_calls)
      moreover have "fst ` set (bucket_calls now (ip_of (sv_pending sv ! k))) \<subseteq> set (bucket_readings e)"
        by (auto simp: Start bucket_calls_def keys_of_def)
      ultimately show ?thesis by blast
    next
      case False
      then have "sv_bandwidth (service_step contains e sv) = sv_bandwidth sv"
        by (cases "fst (next_backend (sv_lb sv) (sv_store sv))") (auto simp: Start start_task_def split_beta)
      then show ?thesis using none by simp
    qed
  qed (use none in \<open>simp_all add: end_task_def Let_def split_beta\<close>)
qed

lemma service_step_buckets_ok:
  assumes "buckets_ok (sv_bandwidth sv)"
  shows "buckets_ok (sv_bandwidth (service_step contains e sv))"
  using service_step_bandwidth[of contains e sv] get_run_buckets_ok[OF assms] by auto

text \<open>A poll changes the tokens of the buckets and nothing else of the tables.\<close>

lemma charges_length: "charges ob ok n r buckets buckets1 \<Longrightarrow> length buckets1 = length buckets"
  by (auto simp: charges_def)

lemma bw_lookup_heap: "bw_lookup k (bm, buckets) = bw_lookup k (bm, buckets')"
  by (cases k) simp_all

lemma charged_frame: "charged ts k g l l' \<Longrightarrow> sl_rate_per_sec l' = sl_rate_per_sec l \<and> sl_burst_size l' = sl_burst_size l"
proof -
  have "sl_rate_per_sec (snd (bucket_run ops l)) = sl_rate_per_sec l \<and> sl_burst_size (snd (bucket_run ops l)) = sl_burst_size l" for ops
  proof (induction ops arbitrary: l)
    case (Cons x ops)
    then show ?case by (cases x) (simp_all add: Let_def split_beta check_n_frame try_ready_frame)
  qed simp
  then show "charged ts k g l l' \<Longrightarrow> ?thesis" unfolding charged_def by (metis snd_conv)
qed

lemma poll_bandwidth:
  assumes "buckets1 = snd (snd (poll_streams p (pr, snd bw)))"
  shows "length buckets1 = length (snd bw)"
    "sl_rate_per_sec (buckets1 ! r) = sl_rate_per_sec (snd bw ! r) \<and> sl_burst_size (buckets1 ! r) = sl_burst_size (snd bw ! r)"
proof -
  have "length buckets1 = length (snd bw) \<and>
      sl_rate_per_sec (buckets1 ! r) = sl_rate_per_sec (snd bw ! r) \<and> sl_burst_size (buckets1 ! r) = sl_burst_size (snd bw ! r)"
  proof (cases "pair_limiter (poll_direction p) pr")
    case None
    then show ?thesis by (simp add: assms poll_streams_unlimited)
  next
    case (Some r')
    from poll_streams_charges[OF Some, of "snd bw"] obtain l1 paid where
      "buckets1 = (snd bw)[r' := l1]" "charged (reading_set (poll_readings p)) (length (ob_wakes (poll_readings p)) + 2) paid (snd bw ! r') l1"
      unfolding charges_def assms by blast
    then show ?thesis
      using charged_frame[of _ _ _ "snd bw ! r'" l1] by (cases "r' < length (snd bw)") (auto simp: nth_list_update list_update_beyond)
  qed
  then show "length buckets1 = length (snd bw)"
    "sl_rate_per_sec (buckets1 ! r) = sl_rate_per_sec (snd bw ! r) \<and> sl_burst_size (buckets1 ! r) = sl_burst_size (snd bw ! r)"
    by simp_all
qed

lemma holds_own_heap: "holds_own (bm, buckets) c \<longleftrightarrow> holds_own (bm, buckets') c"
  unfolding holds_own_def by (simp add: bw_lookup_heap[of _ bm buckets buckets'])

lemma list_all2_update_right: "list_all2 P xs ys \<Longrightarrow> P (xs ! i) y \<Longrightarrow> list_all2 P xs (ys[i := y])"
  using list_all2_update_cong[of P xs ys "xs ! i" y i] by simp

lemma live_ok_step:
  assumes "live_ok lv"
  shows "live_ok (live_step contains e lv)"
proof (cases e)
  case (Service ev)
  then show ?thesis
    using assms service_streams_ok[of "lv_service lv" "lv_streams lv" contains ev]
    by (simp add: live_ok_def service_step_buckets service_step_buckets_ok del: service_step.simps)
next
  case (CopyBegins i c s)
  have "holds_config (sv_open (lv_service lv) ! i) (Some (wrap_streams (cn_config (sv_open (lv_service lv) ! i)) c s))"
    by (simp add: holds_config_def wrap_streams_limiter)
  then have "list_all2 holds_config (sv_open (lv_service lv))
      ((lv_streams lv)[i := Some (wrap_streams (cn_config (sv_open (lv_service lv) ! i)) c s)])"
    using assms unfolding live_ok_def by (blast intro: list_all2_update_right)
  then show ?thesis using assms by (simp add: CopyBegins live_ok_def)
next
  case (Poll i p)
  show ?thesis
  proof (cases "i < length (lv_streams lv) \<and> lv_streams lv ! i \<noteq> None")
    case True
    then obtain pr where pr: "i < length (lv_streams lv)" "lv_streams lv ! i = Some pr" by auto
    let ?bw = "sv_bandwidth (lv_service lv)"
    obtain n pr1 buckets1 where poll: "poll_streams p (pr, snd ?bw) = (n, pr1, buckets1)" by (metis prod.exhaust)
    have step: "live_step contains e lv = \<lparr>lv_service = (lv_service lv)\<lparr>sv_bandwidth := (fst ?bw, buckets1)\<rparr>, lv_streams = (lv_streams lv)[i := Some pr1]\<rparr>"
      using pr poll by (simp add: Poll)
    have b1: "buckets1 = snd (snd (poll_streams p (pr, snd ?bw)))" by (simp add: poll)
    note frame = poll_bandwidth[OF b1]
    have lookup: "bw_lookup k (fst ?bw, buckets1) = bw_lookup k ?bw" for k
      using bw_lookup_heap[of k "fst ?bw" buckets1 "snd ?bw"] by simp
    have "holds_config (sv_open (lv_service lv) ! i) (Some pr)"
      using assms pr by (auto simp: live_ok_def list_all2_conv_all_nth)
    then have "holds_config (sv_open (lv_service lv) ! i) (Some pr1)"
      using poll_streams_limiter[of _ p pr "snd ?bw"] by (auto simp: holds_config_def poll)
    then have "list_all2 holds_config (sv_open (lv_service lv)) ((lv_streams lv)[i := Some pr1])"
      using assms unfolding live_ok_def by (blast intro: list_all2_update_right)
    moreover have "buckets_ok (fst ?bw, buckets1)"
      using assms frame unfolding live_ok_def buckets_ok_def lookup by simp
    moreover have "buckets_shared ((lv_service lv)\<lparr>sv_bandwidth := (fst ?bw, buckets1)\<rparr>)"
      using assms holds_own_heap[of "fst ?bw" buckets1 _ "snd ?bw"] frame(1)
      unfolding live_ok_def buckets_shared_def bwt.table_ok_def by (simp add: lookup split_beta list_all_iff)
    ultimately show ?thesis unfolding step live_ok_def by simp
  next
    case False
    then show ?thesis using assms by (cases "lv_streams lv ! i") (auto simp: Poll)
  qed
qed

lemma live_ok_run: "live_ok lv \<Longrightarrow> live_ok (live_run contains es lv)"
  by (induction es arbitrary: lv) (simp_all add: live_ok_step del: live_step.simps)

lemma live_ok_new: "live_ok (new_live (new_service from_str from_ip rule tls))"
proof -
  have "bw_lookup k (new_bandwidth_manager c, []) = None" for k c by (cases k) (simp_all add: new_bandwidth_manager_def)
  then show ?thesis by (simp add: live_ok_def new_live_def new_service_buckets buckets_ok_def)
qed

section \<open>What a client can transfer\<close>

text \<open>The poll of a client in a direction, if an event is one, with the streams it is on.\<close>

fun client_poll :: "direction \<Rightarrow> IpAddr \<Rightarrow> ('tls, 'c, 's) live_event \<Rightarrow> ('net, 'tls, 'c, 's) live \<Rightarrow> (('c, 's) stream_poll \<times> ('c, 's) stream_pair) option" where
  "client_poll d ip (Poll i p) lv =
     (if i < length (lv_streams lv) \<and> poll_direction p = d \<and> ip_of (px_client_addr (cn_config (sv_open (lv_service lv) ! i))) = ip
      then map_option (\<lambda>pr. (p, pr)) (lv_streams lv ! i) else None)"
| "client_poll d ip _ lv = None"

definition moved :: "direction \<Rightarrow> IpAddr \<Rightarrow> ('tls, 'c, 's) live_event \<Rightarrow> ('net, 'tls, 'c, 's) live \<Rightarrow> nat" where
  "moved d ip e lv = (case client_poll d ip e lv of
     Some (p, pr) \<Rightarrow> fst (poll_streams p (pr, snd (sv_bandwidth (lv_service lv)))) | None \<Rightarrow> 0)"

text \<open>
  The bytes of a client in a direction over a run; the bytes among them that exceeded a permit that was
  pending when they passed; and callers that do not enlarge a buffer while a permit is pending.
\<close>

definition overdrawn :: "direction \<Rightarrow> IpAddr \<Rightarrow> ('tls, 'c, 's) live_event \<Rightarrow> ('net, 'tls, 'c, 's) live \<Rightarrow> nat" where
  "overdrawn d ip e lv = (case client_poll d ip e lv of
     Some (p, pr) \<Rightarrow> (case poll_permit p pr of Some n \<Rightarrow> moved d ip e lv - unat n | None \<Rightarrow> 0) | None \<Rightarrow> 0)"

definition moves_steadily :: "direction \<Rightarrow> IpAddr \<Rightarrow> ('tls, 'c, 's) live_event \<Rightarrow> ('net, 'tls, 'c, 's) live \<Rightarrow> bool" where
  "moves_steadily d ip e lv \<longleftrightarrow> (case client_poll d ip e lv of
     Some (p, pr) \<Rightarrow> (case poll_permit p pr of Some n \<Rightarrow> poll_want p \<le> unat n | None \<Rightarrow> True) | None \<Rightarrow> True)"

fun transferred ::
  "('net \<Rightarrow> IpAddr \<Rightarrow> bool) \<Rightarrow> direction \<Rightarrow> IpAddr \<Rightarrow> ('tls, 'c, 's) live_event list \<Rightarrow> ('net, 'tls, 'c, 's) live \<Rightarrow> nat" where
  "transferred contains d ip [] lv = 0"
| "transferred contains d ip (e # es) lv = moved d ip e lv + transferred contains d ip es (live_step contains e lv)"

fun overdraft ::
  "('net \<Rightarrow> IpAddr \<Rightarrow> bool) \<Rightarrow> direction \<Rightarrow> IpAddr \<Rightarrow> ('tls, 'c, 's) live_event list \<Rightarrow> ('net, 'tls, 'c, 's) live \<Rightarrow> nat" where
  "overdraft contains d ip [] lv = 0"
| "overdraft contains d ip (e # es) lv = overdrawn d ip e lv + overdraft contains d ip es (live_step contains e lv)"

fun steady_run ::
  "('net \<Rightarrow> IpAddr \<Rightarrow> bool) \<Rightarrow> direction \<Rightarrow> IpAddr \<Rightarrow> ('tls, 'c, 's) live_event list \<Rightarrow> ('net, 'tls, 'c, 's) live \<Rightarrow> bool" where
  "steady_run contains d ip [] lv \<longleftrightarrow> True"
| "steady_run contains d ip (e # es) lv \<longleftrightarrow> moves_steadily d ip e lv \<and> steady_run contains d ip es (live_step contains e lv)"

text \<open>The inner streams of all polls keep their contract.\<close>

definition event_contract :: "('tls, 'c, 's) live_event \<Rightarrow> bool" where
  "event_contract e \<longleftrightarrow> (\<forall>i p. e = Poll i p \<longrightarrow> poll_contract p)"

lemma transferred_snoc:
  "transferred contains d ip (es @ [e]) lv = transferred contains d ip es lv + moved d ip e (live_run contains es lv)"
  by (induction es arbitrary: lv) (simp_all del: live_step.simps)

lemma overdraft_snoc:
  "overdraft contains d ip (es @ [e]) lv = overdraft contains d ip es lv + overdrawn d ip e (live_run contains es lv)"
  by (induction es arbitrary: lv) (simp_all del: live_step.simps)

text \<open>The clock readings of an event, and how many operations on a bucket it can make.\<close>

fun event_times :: "('tls, 'c, 's) live_event \<Rightarrow> instant set" where
  "event_times (Service e) = set (bucket_readings e)"
| "event_times (CopyBegins _ _ _) = {}"
| "event_times (Poll i p) = reading_set (poll_readings p)"

fun event_ops :: "('tls, 'c, 's) live_event \<Rightarrow> nat" where
  "event_ops (Poll i p) = length (ob_wakes (poll_readings p)) + 2"
| "event_ops _ = 0"

definition run_times :: "('tls, 'c, 's) live_event list \<Rightarrow> instant set" where
  "run_times es = (\<Union>e \<in> set es. event_times e)"

definition run_polls :: "('tls, 'c, 's) live_event list \<Rightarrow> nat" where
  "run_polls es = sum_list (map event_ops es)"

text \<open>The bucket of a key, if the table has one.\<close>

definition bucket_at :: "bw_key \<Rightarrow> ('net, 'tls, 'c, 's) live \<Rightarrow> SimpleLimiter option" where
  "bucket_at k lv = map_option ((!) (snd (sv_bandwidth (lv_service lv)))) (bw_lookup k (sv_bandwidth (lv_service lv)))"

text \<open>A bucket since its creation: what has been granted covers what has been moved.\<close>

definition paid_since_new :: "u32 \<Rightarrow> instant set \<Rightarrow> nat \<Rightarrow> nat \<Rightarrow> SimpleLimiter option \<Rightarrow> bool" where
  "paid_since_new rate ts k bytes b \<longleftrightarrow>
     (case b of
        None \<Rightarrow> bytes = 0
      | Some l \<Rightarrow> \<exists>t \<in> ts. \<exists>paid. charged ts k paid (new_limiter (max rate 1024) 65536 t) l \<and> bytes \<le> paid)"

lemma paid_since_new_mono:
  assumes "paid_since_new rate ts k bytes b" "ts \<subseteq> ts'" "k \<le> k'"
  shows "paid_since_new rate ts' k' bytes b"
proof (cases b)
  case (Some l)
  with assms(1) obtain t paid where "t \<in> ts" "charged ts k paid (new_limiter (max rate 1024) 65536 t) l" "bytes \<le> paid"
    by (auto simp: paid_since_new_def)
  with assms(2,3) charged_mono[of ts k paid _ l ts' k'] show ?thesis
    unfolding paid_since_new_def Some by auto
qed (use assms(1) in \<open>simp add: paid_since_new_def\<close>)

lemma paid_since_new_charge:
  assumes "paid_since_new rate ts k bytes (Some l)" "charged ts' k' paid l l'" "n \<le> paid"
  shows "paid_since_new rate (ts \<union> ts') (k + k') (bytes + n) (Some l')"
proof -
  obtain t paid0 where "t \<in> ts" "charged ts k paid0 (new_limiter (max rate 1024) 65536 t) l" "bytes \<le> paid0"
    using assms(1) by (auto simp: paid_since_new_def)
  with charged_trans[OF this(2) assms(2)] assms(3) show ?thesis by (auto simp: paid_since_new_def intro!: bexI[of _ t])
qed

text \<open>A client's poll goes through the bucket of its key.\<close>

lemma client_poll_bucket:
  assumes "live_ok lv" "client_poll d ip e lv = Some (p, pr)" "bw_rate (bm_config (fst (sv_bandwidth (lv_service lv)))) (direction_key d ip) \<noteq> None"
  shows "\<exists>r. pair_limiter d pr = Some r \<and> bw_lookup (direction_key d ip) (sv_bandwidth (lv_service lv)) = Some r"
proof -
  obtain i where e: "e = Poll i p" "i < length (lv_streams lv)" "lv_streams lv ! i = Some pr"
    "ip_of (px_client_addr (cn_config (sv_open (lv_service lv) ! i))) = ip"
    using assms(2) by (cases e) (auto split: if_splits)
  let ?c = "sv_open (lv_service lv) ! i"
  have "holds_config ?c (Some pr)" and i: "i < length (sv_open (lv_service lv))"
    using assms(1) e by (auto simp: live_ok_def list_all2_conv_all_nth)
  then have lim: "pair_limiter d pr = config_limiter d (cn_config ?c)" by (simp add: holds_config_def)
  have "holds_own (sv_bandwidth (lv_service lv)) ?c"
    using assms(1) i by (simp add: live_ok_def buckets_shared_def list_all_length)
  then have "config_limiter d (cn_config ?c) \<noteq> None \<and>
      bw_lookup (direction_key d ip) (sv_bandwidth (lv_service lv)) = config_limiter d (cn_config ?c)"
    unfolding holds_own_def Let_def e(4) using assms(3) direction_index[where d = d] by metis
  then show ?thesis unfolding lim by auto
qed

text \<open>What a client's poll moves within its permit is what its gate has paid for.\<close>

lemma moved_share:
  "moved d ip e lv - overdrawn d ip e lv = (case client_poll d ip e lv of
     Some (p, pr) \<Rightarrow> covered (poll_permit p pr) (fst (poll_streams p (pr, snd (sv_bandwidth (lv_service lv))))) | None \<Rightarrow> 0)"
  by (auto simp: moved_def overdrawn_def covered_def split: option.split)

lemma overdrawn_le: "overdrawn d ip e lv \<le> moved d ip e lv"
  by (auto simp: overdrawn_def split: option.split)

lemma overdraft_le: "overdraft contains d ip es lv \<le> transferred contains d ip es lv"
  by (induction es arbitrary: lv) (simp_all add: overdrawn_le add_mono del: live_step.simps)

lemma moved_covered:
  assumes "live_ok lv" "bw_rate (bm_config (fst (sv_bandwidth (lv_service lv)))) (direction_key d ip) \<noteq> None"
    "event_contract e"
    and "\<And>p pr r. client_poll d ip e lv = Some (p, pr) \<Longrightarrow> pair_limiter d pr = Some r \<Longrightarrow>
      bw_lookup (direction_key d ip) (sv_bandwidth (lv_service lv)) = Some r \<Longrightarrow> poll_contract p \<Longrightarrow>
      covered (poll_permit p pr) (fst (poll_streams p (pr, snd (sv_bandwidth (lv_service lv))))) \<le> paid"
  shows "moved d ip e lv - overdrawn d ip e lv \<le> paid"
proof (cases "client_poll d ip e lv")
  case (Some x)
  obtain p pr where x: "x = (p, pr)" by (cases x)
  have "poll_contract p" using assms(3) Some x by (cases e) (auto simp: event_contract_def split: if_splits)
  moreover obtain r where "pair_limiter d pr = Some r" "bw_lookup (direction_key d ip) (sv_bandwidth (lv_service lv)) = Some r"
    using client_poll_bucket[OF assms(1) Some[unfolded x] assms(2)] by blast
  ultimately show ?thesis using assms(4)[OF Some[unfolded x]] by (simp add: moved_share Some x)
qed (simp add: moved_share)

lemma live_step_config: "bm_config (fst (sv_bandwidth (lv_service (live_step contains e lv)))) = bm_config (fst (sv_bandwidth (lv_service lv)))"
  by (cases e) (simp_all add: service_step_bw_config Let_def split_beta split: option.split del: service_step.simps)

lemma live_run_config: "bm_config (fst (sv_bandwidth (lv_service (live_run contains es lv)))) = bm_config (fst (sv_bandwidth (lv_service lv)))"
  by (induction es arbitrary: lv) (simp_all add: live_step_config del: live_step.simps)

text \<open>Without a buffer that grows nothing exceeds a permit.\<close>

lemma steady_no_overdraft:
  assumes "live_ok lv" "bw_rate (bm_config (fst (sv_bandwidth (lv_service lv)))) (direction_key d ip) \<noteq> None"
    "\<forall>e \<in> set es. event_contract e" "steady_run contains d ip es lv"
  shows "overdraft contains d ip es lv = 0"
  using assms
proof (induction es arbitrary: lv)
  case (Cons e es)
  have "overdrawn d ip e lv = 0"
  proof (cases "client_poll d ip e lv")
    case (Some x)
    obtain p pr where x: "x = (p, pr)" by (cases x)
    have "poll_direction p = d" "poll_contract p"
      using Cons.prems(3) Some x by (cases e; auto simp: event_contract_def split: if_splits)+
    moreover obtain r where "pair_limiter d pr = Some r"
      using client_poll_bucket[OF Cons.prems(1) Some[unfolded x] Cons.prems(2)] by blast
    ultimately have "moved d ip e lv \<le> poll_want p" by (simp add: moved_def Some x poll_streams_want)
    then show ?thesis using Cons.prems(4) by (auto simp: overdrawn_def moves_steadily_def Some x split: option.splits)
  qed (simp add: overdrawn_def)
  then show ?case
    using Cons.IH[OF live_ok_step[OF Cons.prems(1)]] Cons.prems by (simp add: live_step_config del: live_step.simps)
qed simp

lemma paid_service:
  assumes "live_ok lv" "bw_rate (bm_config (fst (sv_bandwidth (lv_service lv)))) k = Some rate"
    "paid_since_new rate ts n bytes (bucket_at k lv)"
  shows "paid_since_new rate (ts \<union> set (bucket_readings ev)) n bytes (bucket_at k (live_step contains (Service ev) lv))"
proof -
  let ?bw = "sv_bandwidth (lv_service lv)"
  obtain calls where calls: "sv_bandwidth (service_step contains ev (lv_service lv)) = snd (get_run bw_get calls ?bw)"
    "fst ` set calls \<subseteq> set (bucket_readings ev)"
    using service_step_bandwidth[of contains ev "lv_service lv"] by blast
  have ok: "buckets_ok ?bw" using assms(1) by (simp add: live_ok_def)
  have after: "bucket_at k (live_step contains (Service ev) lv) =
      map_option ((!) (snd (snd (get_run bw_get calls ?bw)))) (bw_lookup k (snd (get_run bw_get calls ?bw)))"
    by (simp add: bucket_at_def calls(1) del: service_step.simps)
  show ?thesis
  proof (cases "bw_lookup k ?bw")
    case (Some r)
    then have "bucket_at k (live_step contains (Service ev) lv) = bucket_at k lv"
      unfolding after using get_run_bucket(1)[OF Some ok] bwt.get_run_stable[OF Some] by (simp add: bucket_at_def)
    then show ?thesis using paid_since_new_mono[OF assms(3)] by auto
  next
    case None
    then have "bytes = 0" using assms(3) by (simp add: bucket_at_def paid_since_new_def)
    then show ?thesis
      unfolding after using get_run_bucket(2)[OF None _ ok] assms(2) calls(2) charged_refl
      by (cases "bw_lookup k (snd (get_run bw_get calls ?bw))") (fastforce simp: paid_since_new_def)+
  qed
qed

lemma paid_poll:
  fixes lv :: "('net, 'tls, 'c, 's) live"
  assumes "live_ok lv" "bw_rate (bm_config (fst (sv_bandwidth (lv_service lv)))) (direction_key d ip) = Some rate"
    "paid_since_new rate ts n bytes (bucket_at (direction_key d ip) lv)" "event_contract (Poll i p :: ('tls, 'c, 's) live_event)"
    "i < length (lv_streams lv)" "lv_streams lv ! i = Some pr"
  shows "paid_since_new rate (ts \<union> reading_set (poll_readings p)) (n + (length (ob_wakes (poll_readings p)) + 2))
    (bytes + (moved d ip (Poll i p) lv - overdrawn d ip (Poll i p) lv)) (bucket_at (direction_key d ip) (live_step contains (Poll i p) lv))"
proof -
  let ?bw = "sv_bandwidth (lv_service lv)" and ?k = "direction_key d ip"
  obtain m pr1 buckets1 where poll: "poll_streams p (pr, snd ?bw) = (m, pr1, buckets1)" by (metis prod.exhaust)
  have after: "bucket_at ?k (live_step contains (Poll i p) lv) = map_option ((!) buckets1) (bw_lookup ?k ?bw)"
    using assms(5,6) bw_lookup_heap[of ?k "fst ?bw" buckets1 "snd ?bw"] by (simp add: bucket_at_def poll)
  have own: "q = p \<and> qr = pr \<and> poll_direction p = d" if "client_poll d ip (Poll i p) lv = Some (q, qr)" for q qr
    using that assms(6) by (auto split: if_splits)
  note covered = moved_covered[where d = d and ip = ip, OF assms(1) _ assms(4), unfolded assms(2)]
  show ?thesis
  proof (cases "bw_lookup ?k ?bw")
    case None
    then have "moved d ip (Poll i p) lv - overdrawn d ip (Poll i p) lv \<le> 0" by (intro covered) simp_all
    then show ?thesis using assms(3) None unfolding after by (simp add: paid_since_new_def bucket_at_def)
  next
    case (Some r)
    have r: "r < length (snd ?bw)" using assms(1) Some by (auto simp: live_ok_def buckets_ok_def)
    have before: "paid_since_new rate ts n bytes (Some (snd ?bw ! r))" using assms(3) Some by (simp add: bucket_at_def)
    have "\<exists>paid. charged (reading_set (poll_readings p)) (length (ob_wakes (poll_readings p)) + 2) paid (snd ?bw ! r) (buckets1 ! r) \<and>
        moved d ip (Poll i p) lv - overdrawn d ip (Poll i p) lv \<le> paid"
    proof (cases "pair_limiter (poll_direction p) pr = Some r")
      case True
      have "charges (poll_readings p) (poll_contract p) (covered (poll_permit p pr) m) r (snd ?bw) buckets1"
        using poll_streams_charges[OF True, of "snd ?bw"] unfolding poll fst_conv snd_conv .
      then obtain l1 paid where c: "buckets1 = (snd ?bw)[r := l1]"
        "charged (reading_set (poll_readings p)) (length (ob_wakes (poll_readings p)) + 2) paid (snd ?bw ! r) l1" 
        "poll_contract p \<longrightarrow> covered (poll_permit p pr) m \<le> paid"
        unfolding charges_def by blast
      have "moved d ip (Poll i p) lv - overdrawn d ip (Poll i p) lv \<le> paid"
      proof (rule covered)
        fix q qr assume q: "client_poll d ip (Poll i p) lv = Some (q, qr)" "poll_contract q"
        from q(2) own[OF q(1)] show "covered (poll_permit q qr) (fst (poll_streams q (qr, snd ?bw))) \<le> paid" using c(3) by (simp add: poll)
      qed simp
      then show ?thesis using c(1,2) r by auto
    next
      case False
      have "moved d ip (Poll i p) lv - overdrawn d ip (Poll i p) lv \<le> 0"
      proof (rule covered)
        fix q qr r' assume q: "client_poll d ip (Poll i p) lv = Some (q, qr)" "pair_limiter d qr = Some r'" "bw_lookup ?k ?bw = Some r'"
        from q(2,3) own[OF q(1)] show "covered (poll_permit q qr) (fst (poll_streams q (qr, snd ?bw))) \<le> 0" using False Some by simp
      qed simp
      moreover have "buckets1 ! r = snd ?bw ! r"
        using False poll_streams_charges[of p pr _ "snd ?bw"] poll_streams_unlimited[of p pr "snd ?bw"]
        by (cases "pair_limiter (poll_direction p) pr") (auto simp: poll charges_def)
      ultimately show ?thesis using charged_refl by auto
    qed
    then show ?thesis unfolding after Some option.map by (elim exE conjE) (rule paid_since_new_charge[OF before])
  qed
qed

lemma paid_step:
  assumes "live_ok lv" "bw_rate (bm_config (fst (sv_bandwidth (lv_service lv)))) (direction_key d ip) = Some rate"
    "paid_since_new rate ts n bytes (bucket_at (direction_key d ip) lv)" "event_contract e"
  shows "paid_since_new rate (ts \<union> event_times e) (n + event_ops e) (bytes + (moved d ip e lv - overdrawn d ip e lv))
    (bucket_at (direction_key d ip) (live_step contains e lv))"
proof (cases e)
  case (Service ev)
  then show ?thesis using paid_service[OF assms(1-3), of ev contains] by (simp add: moved_def del: live_step.simps)
next
  case (CopyBegins i c s)
  then have "bucket_at (direction_key d ip) (live_step contains e lv) = bucket_at (direction_key d ip) lv" by (simp add: bucket_at_def)
  then show ?thesis using assms(3) by (simp add: CopyBegins moved_def)
next
  case (Poll i p)
  show ?thesis
  proof (cases "i < length (lv_streams lv) \<and> lv_streams lv ! i \<noteq> None")
    case True
    then obtain pr where "i < length (lv_streams lv)" "lv_streams lv ! i = Some pr" by auto
    from paid_poll[OF assms(1-3) assms(4)[unfolded Poll] this] show ?thesis by (simp add: Poll del: live_step.simps)
  next
    case False
    then have "live_step contains e lv = lv" "moved d ip e lv = 0"
      by (cases "lv_streams lv ! i"; auto simp: Poll moved_def)+
    then show ?thesis using paid_since_new_mono[OF assms(3)] by simp
  qed
qed

lemma paid_run:
  assumes "live_ok lv" "bw_rate (bm_config (fst (sv_bandwidth (lv_service lv)))) (direction_key d ip) = Some rate"
    "bucket_at (direction_key d ip) lv = None" "\<forall>e \<in> set es. event_contract e"
  shows "paid_since_new rate (run_times es) (run_polls es) (transferred contains d ip es lv - overdraft contains d ip es lv)
    (bucket_at (direction_key d ip) (live_run contains es lv))"
  using assms(4)
proof (induction es rule: rev_induct)
  case (snoc e es)
  have "paid_since_new rate (run_times es \<union> event_times e) (run_polls es + event_ops e)
      (transferred contains d ip es lv - overdraft contains d ip es lv +
        (moved d ip e (live_run contains es lv) - overdrawn d ip e (live_run contains es lv)))
      (bucket_at (direction_key d ip) (live_step contains e (live_run contains es lv)))"
  proof (intro paid_step live_ok_run assms(1))
    show "event_contract e" using snoc.prems by simp
  qed (use snoc in \<open>simp_all only: live_run_config assms(2)\<close>, use snoc in simp)
  then show ?case
    using overdraft_le[of contains d ip es lv] overdrawn_le[of d ip e "live_run contains es lv"]
    by (simp add: run_times_def run_polls_def transferred_snoc overdraft_snoc Un_commute del: live_step.simps)
qed (simp add: paid_since_new_def assms(3))

lemma client_bytes_paid:
  assumes "r_bandwidth_limit rule = Some b" "bw_rate b (direction_key d ip) = Some rate"
    and "lv = new_live (new_service from_str from_ip rule tls)" "\<forall>e \<in> set es. event_contract e"
    and "\<forall>x \<in> run_times es. t0 \<le> x \<and> x \<le> t"
  shows "of_nat (transferred contains d ip es lv) \<le>
    65536 + f64_of_u32 (max rate 1024) * secs (t - t0) * (1 + eps64) ^ 4 + of_nat (run_polls es) * (2 * (65536 * eps64)) +
    of_nat (overdraft contains d ip es lv)"
proof -
  have none: "bw_lookup k (new_bandwidth_manager c, []) = None" for k c by (cases k) (simp_all add: new_bandwidth_manager_def)
  have "bucket_at (direction_key d ip) lv = None" by (simp add: assms(3) bucket_at_def new_live_def none)
  moreover have "bm_config (fst (sv_bandwidth (lv_service lv))) = b"
    using assms(1) by (simp add: assms(3) new_live_def new_bandwidth_manager_def bandwidth_limit_or_default_def)
  ultimately have paid: "paid_since_new rate (run_times es) (run_polls es) (transferred contains d ip es lv - overdraft contains d ip es lv)
      (bucket_at (direction_key d ip) (live_run contains es lv))"
    using live_ok_new[of from_str from_ip rule tls] assms(2-4) by (intro paid_run) simp_all
  show ?thesis
  proof (cases "bucket_at (direction_key d ip) (live_run contains es lv)")
    case None
    then have "transferred contains d ip es lv \<le> overdraft contains d ip es lv" using paid by (simp add: paid_since_new_def)
    then have "(of_nat (transferred contains d ip es lv) :: rat) \<le> of_nat (overdraft contains d ip es lv)" unfolding of_nat_le_iff .
    moreover have "0 \<le> f64_of_u32 (max rate 1024) * secs (t - t0) * (1 + eps64) ^ 4" by (simp add: secs_def eps64_def)
    moreover have "0 \<le> of_nat (run_polls es) * (2 * (65536 * eps64))" by (simp add: eps64_def)
    ultimately show ?thesis by linarith
  next
    case (Some l)
    then obtain tc paid where tc: "tc \<in> run_times es" and c: "charged (run_times es) (run_polls es) paid (new_limiter (max rate 1024) 65536 tc) l"
      and le: "transferred contains d ip es lv \<le> paid + overdraft contains d ip es lv"
      using paid by (auto simp: paid_since_new_def)
    let ?l = "new_limiter (max rate 1024) 65536 tc"
    have l: "burst_of ?l = 65536" "rate_of ?l = f64_of_u32 (max rate 1024)" "sl_last_update ?l = tc"
      by (simp_all add: new_limiter_def f64_of_u32_def)
    have "of_nat paid \<le> burst_of ?l + rate_of ?l * secs (t - sl_last_update ?l) * (1 + eps64) ^ 4 + of_nat (run_polls es) * (2 * (burst_of ?l * eps64))"
      using assms(5) tc by (intro charged_bound[OF bucket_ok_new c]) (simp_all add: l(3))
    moreover have "f64_of_u32 (max rate 1024) * secs (t - tc) * (1 + eps64) ^ 4 \<le> f64_of_u32 (max rate 1024) * secs (t - t0) * (1 + eps64) ^ 4"
      using assms(5) tc by (intro mult_right_mono mult_left_mono secs_mono diff_le_mono2) (simp_all add: eps64_def)
    moreover have "(of_nat (transferred contains d ip es lv) :: rat) \<le> of_nat paid + of_nat (overdraft contains d ip es lv)"
      using le unfolding of_nat_add[symmetric] of_nat_le_iff .
    ultimately show ?thesis unfolding l by linarith
  qed
qed

text \<open>
  C5. How far a client can exceed its bandwidth: in one direction, over all its connections, all backends and
  all interleavings with other clients, reloads and checks, the bytes it transfers are at most the burst of
  64 KiB plus the configured rate, 1024 bytes per second at least, over the period, up to rounding, plus the
  bytes by which transfers exceeded a permit that was pending. Those are none as long as the copying does not
  offer a larger buffer than the one a pending permit was taken for; a caller that does transfers them
  unpaid. The inner streams transfer no more than they are asked to.
\<close>

theorem client_bandwidth_bound:
  assumes "r_bandwidth_limit rule = Some b" "bw_rate b (direction_key d ip) = Some rate"
    and "lv = new_live (new_service from_str from_ip rule tls)" "\<forall>e \<in> set es. event_contract e"
    and "\<forall>x \<in> run_times es. t0 \<le> x \<and> x \<le> t"
  shows "of_nat (transferred contains d ip es lv) \<le>
    65536 + f64_of_u32 (max rate 1024) * secs (t - t0) * (1 + eps64) ^ 4 + of_nat (run_polls es) * (2 * (65536 * eps64)) +
    of_nat (overdraft contains d ip es lv) \<and>
    (steady_run contains d ip es lv \<longrightarrow> overdraft contains d ip es lv = 0)"
proof (intro conjI impI client_bytes_paid[OF assms])
  assume steady: "steady_run contains d ip es lv"
  have "bm_config (fst (sv_bandwidth (lv_service lv))) = b"
    using assms(1) by (simp add: assms(3) new_live_def new_bandwidth_manager_def bandwidth_limit_or_default_def)
  then show "overdraft contains d ip es lv = 0"
    using live_ok_new[of from_str from_ip rule tls] assms(2,3) by (intro steady_no_overdraft[OF _ _ assms(4) steady]) simp_all
qed

text \<open>The sample service of two connections of one client; the first of them then reads 60 bytes from the client.\<close>

lemma service_only:
  "lv_service (live_run contains (map Service es) lv) = service_run contains es (lv_service lv)"
  "list_all (\<lambda>st. st = None) (lv_streams lv) \<Longrightarrow> list_all (\<lambda>st. st = None) (lv_streams (live_run contains (map Service es) lv))"
  "steady_run contains d ip (map Service es @ es') lv \<longleftrightarrow> steady_run contains d ip es' (live_run contains (map Service es) lv)"
  "transferred contains d ip (map Service es @ es') lv = transferred contains d ip es' (live_run contains (map Service es) lv)"
proof (induction es arbitrary: lv)
  case (Cons e es)
  {
    case 1
    show ?case using Cons.IH(1) by (simp del: service_step.simps)
  next
    case 2
    then have "list_all (\<lambda>st. st = None) (service_streams e (lv_service lv) (lv_streams lv))"
      by (cases e) (simp_all add: list_all_remove_nth)
    then show ?case using Cons.IH(2) by (simp del: service_step.simps)
  next
    case 3
    show ?case using Cons.IH(3) by (simp add: moves_steadily_def del: live_step.simps)
  next
    case 4
    show ?case using Cons.IH(4) by (simp add: moved_def del: live_step.simps)
  }
qed simp_all

definition sample_copy :: "(unit, unit, unit) live_event list" where
  "sample_copy = [CopyBegins 0 () (), Poll 0 (ClientRead sample_now sample_inner (\<lambda>_. True) 60)]"

abbreviation sample_live :: "(cidr, unit, unit, unit) live" where
  "sample_live \<equiv> live_run cidr_contains (map Service Acceptor.sample_events) (new_live (new_service cidr_from_str cidr_from_ip sample_rule None))"

lemma sample_live_state:
  "lv_service sample_live = sample_service" "lv_streams sample_live = [None, None]" "live_ok sample_live"
proof -
  show sv: "lv_service sample_live = sample_service" unfolding service_only by (simp add: new_live_def)
  show ok: "live_ok sample_live" by (intro live_ok_run live_ok_new)
  have "length (sv_open sample_service) = 2" using arg_cong[OF sample_guards(1), of length] by simp
  then have "length (lv_streams sample_live) = 2"
    using ok list_all2_lengthD unfolding live_ok_def sv by metis
  moreover have "list_all (\<lambda>st. st = None) (lv_streams sample_live)"
    by (rule service_only(2)) (simp add: new_live_def)
  ultimately show "lv_streams sample_live = [None, None]" by (auto simp: length_Suc_conv numeral_2_eq_2)
qed

lemma sample_bucket:
  "\<exists>r. px_client_read_limiter (cn_config (sv_open sample_service ! 0)) = Some r \<and>
     ip_of (px_client_addr (cn_config (sv_open sample_service ! 0))) = V4 (Ipv4Addr 10 0 0 1) \<and>
     r < length (snd (sv_bandwidth sample_service)) \<and>
     snd (sv_bandwidth sample_service) ! r = new_limiter 1024 65536 3"
proof -
  let ?k = "direction_key Upload (V4 (Ipv4Addr 10 0 0 1))" and ?bw = "sv_bandwidth sample_service"
    and ?lv = "new_live (new_service cidr_from_str cidr_from_ip sample_rule None) :: (cidr, unit, unit, unit) live"
  have "length (sv_open sample_service) = 2" using arg_cong[OF sample_guards(1), of length] by simp
  then have c: "sv_open sample_service ! 0 \<in> set (sv_open sample_service)" by (simp del: fold_simps)
  then have ip: "ip_of (px_client_addr (cn_config (sv_open sample_service ! 0))) = V4 (Ipv4Addr 10 0 0 1)"
    using sample_clients by (simp add: list_all_iff sample_client_def del: fold_simps)
  have conf: "bw_rate (bm_config (fst ?bw)) ?k = Some 9"
    unfolding service_run_bw_config by (simp add: sample_rule_def new_bandwidth_manager_def bandwidth_limit_or_default_def)
  have own: "holds_own ?bw (sv_open sample_service ! 0)" and ok: "buckets_ok ?bw"
    using sample_live_state(1,3) c by (auto simp: live_ok_def buckets_shared_def list_all_iff simp del: fold_simps)
  obtain r where r: "px_client_read_limiter (cn_config (sv_open sample_service ! 0)) = Some r" "bw_lookup ?k ?bw = Some r"
    using own[unfolded holds_own_def, rule_format, of 0] conf unfolding Let_def ip by (auto simp: keys_of_def limiters_of_def simp del: fold_simps)
  have "bucket_at ?k ?lv = None" by (simp add: bucket_at_def new_live_def new_bandwidth_manager_def)
  then have "paid_since_new 9 (run_times (map Service Acceptor.sample_events :: (unit, unit, unit) live_event list))
      (run_polls (map Service Acceptor.sample_events :: (unit, unit, unit) live_event list))
      (transferred cidr_contains Upload (V4 (Ipv4Addr 10 0 0 1)) (map Service Acceptor.sample_events) ?lv -
        overdraft cidr_contains Upload (V4 (Ipv4Addr 10 0 0 1)) (map Service Acceptor.sample_events) ?lv) (bucket_at ?k sample_live)"
    using conf by (intro paid_run live_ok_new) (auto simp: new_live_def service_run_bw_config event_contract_def simp del: fold_simps)
  moreover have "bucket_at ?k sample_live = Some (snd ?bw ! r)"
    by (simp only: bucket_at_def sample_live_state r(2) option.map)
  moreover have "run_times (map Service Acceptor.sample_events :: (unit, unit, unit) live_event list) = {3}"
    "run_polls (map Service Acceptor.sample_events :: (unit, unit, unit) live_event list) = 0"
    by (simp_all add: run_times_def run_polls_def Acceptor.sample_events_def sample_readings_def)
  ultimately have "snd ?bw ! r = new_limiter (max 9 1024) 65536 3"
    by (auto simp: paid_since_new_def charged_def simp del: fold_simps)
  moreover have "r < length (snd ?bw)" using ok r(2) by (auto simp: buckets_ok_def simp del: fold_simps)
  ultimately show ?thesis using r(1) ip by (auto simp del: fold_simps)
qed

theorem client_bandwidth_bound_witness:
  "let es = map Service Acceptor.sample_events @ sample_copy; ip = V4 (Ipv4Addr 10 0 0 1);
       lv = new_live (new_service cidr_from_str cidr_from_ip sample_rule None) :: (cidr, unit, unit, unit) live
   in transferred cidr_contains Upload ip es lv = 60 \<and> overdraft cidr_contains Upload ip es lv = 0 \<and>
      of_nat (transferred cidr_contains Upload ip es lv) \<le>
        65536 + f64_of_u32 (max 9 1024) * secs (3 - 0) * (1 + eps64) ^ 4 + of_nat (run_polls es) * (2 * (65536 * eps64)) +
        of_nat (overdraft cidr_contains Upload ip es lv)"
proof -
  let ?es = "map Service Acceptor.sample_events @ sample_copy :: (unit, unit, unit) live_event list"
    and ?ip = "V4 (Ipv4Addr 10 0 0 1)" and ?lv = "new_live (new_service cidr_from_str cidr_from_ip sample_rule None) :: (cidr, unit, unit, unit) live"
  obtain r where r: "px_client_read_limiter (cn_config (sv_open sample_service ! 0)) = Some r"
    "ip_of (px_client_addr (cn_config (sv_open sample_service ! 0))) = ?ip"
    "r < length (snd (sv_bandwidth sample_service))" "snd (sv_bandwidth sample_service) ! r = new_limiter 1024 65536 3"
    using sample_bucket by blast
  define sv where "sv = sample_service"
  have lv: "sample_live = \<lparr>lv_service = sv, lv_streams = [None, None]\<rparr>" unfolding sv_def by (rule live.equality) (simp_all only: sample_live_state live.simps unit_eq)
  note r' = r[folded sv_def]
  have sum: "transferred cidr_contains Upload ?ip ?es ?lv = 60"
    unfolding service_only(4) lv using r'
    by (simp add: sample_copy_def moved_def wrap_streams_def new_stream_def poll_defs sample_now_def sample_inner_def Let_def
        new_limiter_def f64_of_u32_def)
  have steady: "steady_run cidr_contains Upload ?ip ?es ?lv"
    unfolding service_only(3) lv using r'
    by (simp add: sample_copy_def moves_steadily_def wrap_streams_def new_stream_def)
  have contract: "\<forall>e \<in> set ?es. event_contract e" by (auto simp: event_contract_def sample_copy_def sample_inner_def)
  have rule: "r_bandwidth_limit sample_rule = Some \<lparr>bw_enabled = True, bw_client = Some \<lparr>cb_upload_per_sec = 9, cb_download_per_sec = 9\<rparr>,
       bw_backend = Some \<lparr>bb_upload_per_sec = 9, bb_download_per_sec = 9\<rparr>\<rparr>" by (simp add: sample_rule_def)
  have times: "\<forall>x \<in> run_times ?es. 0 \<le> x \<and> x \<le> 3"
    by (simp add: run_times_def Acceptor.sample_events_def sample_readings_def sample_copy_def sample_now_def)
  have "bw_rate \<lparr>bw_enabled = True, bw_client = Some \<lparr>cb_upload_per_sec = 9, cb_download_per_sec = 9\<rparr>,
       bw_backend = Some \<lparr>bb_upload_per_sec = 9, bb_download_per_sec = 9\<rparr>\<rparr> (direction_key Upload ?ip) = Some 9" by simp
  note bound = client_bandwidth_bound[OF rule this refl contract times, of cidr_contains cidr_from_str cidr_from_ip None]
  have none: "overdraft cidr_contains Upload ?ip ?es ?lv = 0" using conjunct2[OF bound] steady by blast
  show ?thesis using conjunct1[OF bound] sum none by (simp only: Let_def simp_thms)
qed

end
