(* ===== verification/Health.thy ===== *)
theory Health
  imports Connections "HOL-Library.Sublist"
begin

text \<open>
  Health checks (\<^verbatim>\<open>src/core/health.rs\<close>). The sockets and tokio's \<open>timeout\<close> are arguments: what each
  call returns, and whether a check finishes before its timeout. \<open>String::from_utf8_lossy\<close> is
  modelled as the standard library has it. Shown here: exactly which answers count as healthy, that a
  round of a checker takes a backend out of rotation or puts it back, and how soon a failure is seen.
\<close>

section \<open>Lossy decoding\<close>

text \<open>
  The decoder of the standard library takes one step at a time: a whole character, or the longest
  prefix of one that cannot be completed. The result of a step is whether the bytes are a character and
  how many they are; \<open>get\<close> reads past the end as zero.
\<close>

definition get_byte :: "u8 list \<Rightarrow> nat \<Rightarrow> nat" where
  "get_byte bs i = (if i < length bs then unat (bs ! i) else 0)"

definition continuation :: "nat \<Rightarrow> bool" where
  "continuation b \<longleftrightarrow> 128 \<le> b \<and> b < 192"

definition second_of_3 :: "nat \<Rightarrow> nat \<Rightarrow> bool" where
  "second_of_3 b c \<longleftrightarrow>
     b = 0xE0 \<and> 0xA0 \<le> c \<and> c \<le> 0xBF \<or> 0xE1 \<le> b \<and> b \<le> 0xEC \<and> continuation c \<or>
     b = 0xED \<and> 0x80 \<le> c \<and> c \<le> 0x9F \<or> 0xEE \<le> b \<and> b \<le> 0xEF \<and> continuation c"

definition second_of_4 :: "nat \<Rightarrow> nat \<Rightarrow> bool" where
  "second_of_4 b c \<longleftrightarrow>
     b = 0xF0 \<and> 0x90 \<le> c \<and> c \<le> 0xBF \<or> 0xF1 \<le> b \<and> b \<le> 0xF3 \<and> continuation c \<or>
     b = 0xF4 \<and> 0x80 \<le> c \<and> c \<le> 0x8F"

definition utf8_step :: "u8 list \<Rightarrow> bool \<times> nat" where
  "utf8_step bs =
     (let b = get_byte bs 0; c = get_byte bs 1 in
      if b < 128 then (True, 1)
      else if 0xC2 \<le> b \<and> b \<le> 0xDF then (if continuation c then (True, 2) else (False, 1))
      else if 0xE0 \<le> b \<and> b \<le> 0xEF then
        (if \<not> second_of_3 b c then (False, 1)
         else if continuation (get_byte bs 2) then (True, 3) else (False, 2))
      else if 0xF0 \<le> b \<and> b \<le> 0xF4 then
        (if \<not> second_of_4 b c then (False, 1)
         else if \<not> continuation (get_byte bs 2) then (False, 2)
         else if continuation (get_byte bs 3) then (True, 4) else (False, 3))
      else (False, 1))"

lemma utf8_step_pos: "0 < snd (utf8_step bs)"
  by (simp add: utf8_step_def Let_def)

text \<open>Every incomplete prefix becomes one replacement character, \<open>EF BF BD\<close>.\<close>

function from_utf8_lossy :: "u8 list \<Rightarrow> u8 list" where
  "from_utf8_lossy bs =
     (if bs = [] then []
      else let (ok, k) = utf8_step bs
           in (if ok then take k bs else [0xEF, 0xBF, 0xBD]) @ from_utf8_lossy (drop k bs))"
  by pat_completeness auto

termination
proof (relation "measure length")
  fix bs :: "u8 list" and x :: "bool \<times> nat" and ok :: bool and k :: nat
  assume "bs \<noteq> []" "x = utf8_step bs" "(ok, k) = x"
  then show "(drop k bs, bs) \<in> measure length" using utf8_step_pos[of bs] by (cases "utf8_step bs") simp
qed simp

declare from_utf8_lossy.simps [simp del]

text \<open>\<open>str::contains\<close>.\<close>

fun contains_str :: "u8 list \<Rightarrow> u8 list \<Rightarrow> bool" where
  "contains_str [] pat = (pat = [])"
| "contains_str (b # bs) pat = (prefix pat (b # bs) \<or> contains_str bs pat)"

section \<open>Checks\<close>

record 'sock sockets =
  so_connect :: "string \<Rightarrow> io_error + 'sock"
  so_write_all :: "'sock \<Rightarrow> u8 list \<Rightarrow> io_error + 'sock"
  so_read :: "'sock \<Rightarrow> nat \<Rightarrow> io_error + u8 list"

text \<open>\<open>in_time t\<close>: the checked operation is over before \<open>tokio::time::timeout\<close> of \<open>t\<close> fires.\<close>

definition check_tcp :: "'sock sockets \<Rightarrow> (duration \<Rightarrow> bool) \<Rightarrow> string \<Rightarrow> duration \<Rightarrow> bool" where
  "check_tcp net in_time addr timeout =
     (if in_time timeout then (case so_connect net addr of Inr _ \<Rightarrow> True | Inl e \<Rightarrow> False) else False)"

definition crlf :: string where
  "crlf = [CHR 0x0D, CHR 0x0A]"

definition http_request :: "string \<Rightarrow> string \<Rightarrow> string" where
  "http_request path addr =
     ''GET '' @ path @ '' HTTP/1.1'' @ crlf @ ''Host: '' @ addr @ crlf @ ''Connection: close'' @ crlf @ crlf"

definition http_probe :: "'sock sockets \<Rightarrow> string \<Rightarrow> string \<Rightarrow> bool" where
  "http_probe net addr path =
     (case so_connect net addr of
        Inl e \<Rightarrow> False
      | Inr stream \<Rightarrow> (case so_write_all net stream (as_bytes (http_request path addr)) of
            Inl e \<Rightarrow> False
          | Inr stream1 \<Rightarrow> (case so_read net stream1 1024 of
                Inl e \<Rightarrow> False
              | Inr data \<Rightarrow> if data = [] then False else contains_str (from_utf8_lossy data) (as_bytes ''200 OK''))))"

definition check_http :: "'sock sockets \<Rightarrow> (duration \<Rightarrow> bool) \<Rightarrow> string \<Rightarrow> string \<Rightarrow> duration \<Rightarrow> bool" where
  "check_http net in_time addr path timeout = (if in_time timeout then http_probe net addr path else False)"

section \<open>The checker task\<close>

definition from_millis :: "u64 \<Rightarrow> duration" where
  "from_millis ms = unat ms * 1000000"

definition check_res :: "'sock sockets \<Rightarrow> (duration \<Rightarrow> bool) \<Rightarrow> string \<Rightarrow> HealthCheckConfig \<Rightarrow> bool" where
  "check_res net in_time backend_addr config =
     (let timeout = from_millis (hc_timeout_ms config) in
      if hc_protocol config = ''http'' then
        check_http net in_time backend_addr (case hc_path config of Some p \<Rightarrow> p | None \<Rightarrow> ''/'') timeout
      else check_tcp net in_time backend_addr timeout)"

text \<open>One turn of the loop, without its sleep.\<close>

definition health_round ::
  "'sock sockets \<Rightarrow> (duration \<Rightarrow> bool) \<Rightarrow> LoadBalancer \<Rightarrow> string \<Rightarrow> HealthCheckConfig \<Rightarrow> store \<Rightarrow> store" where
  "health_round net in_time lb backend_addr config s =
     set_backend_health lb backend_addr (check_res net in_time backend_addr config) s"

text \<open>
  When the rounds of a task spawned at \<open>t\<close> begin and report, given how long each check takes: 100 ms
  after the start, and \<open>interval_ms\<close> after the report of the round before.
\<close>

fun round_times :: "duration \<Rightarrow> instant \<Rightarrow> duration list \<Rightarrow> (instant \<times> instant) list" where
  "round_times interval t0 [] = []"
| "round_times interval t0 (d # ds) = (t0, t0 + d) # round_times interval (t0 + d + interval) ds"

definition start_health_check :: "instant \<Rightarrow> HealthCheckConfig \<Rightarrow> duration list \<Rightarrow> (instant \<times> instant) list" where
  "start_health_check t config ds = round_times (from_millis (hc_interval_ms config)) (t + from_millis 100) ds"

section \<open>Which answers are healthy\<close>

definition ascii :: "u8 list \<Rightarrow> bool" where
  "ascii bs \<longleftrightarrow> (\<forall>b \<in> set bs. unat b < 128)"

definition no_ascii :: "u8 list \<Rightarrow> bool" where
  "no_ascii bs \<longleftrightarrow> (\<forall>b \<in> set bs. 128 \<le> unat b)"

lemma contains_str_sublist: "contains_str bs pat \<longleftrightarrow> sublist pat bs"
  by (induction bs) (simp_all add: sublist_Cons_right)

text \<open>An ASCII pattern cannot begin inside bytes that are not ASCII.\<close>

lemma sublist_skip:
  assumes "no_ascii seg" "ascii pat" "pat \<noteq> []"
  shows "sublist pat (seg @ rest) \<longleftrightarrow> sublist pat rest"
  using assms(1)
proof (induction seg)
  case (Cons b seg)
  have "\<not> prefix pat (b # seg @ rest)" using assms(2,3) Cons.prems by (cases pat) (auto simp: ascii_def no_ascii_def)
  then show ?case using Cons by (simp add: sublist_Cons_right no_ascii_def)
qed simp

text \<open>A step takes one ASCII byte, or bytes none of which is ASCII.\<close>

lemma get_byte_high: "128 \<le> get_byte bs i \<Longrightarrow> i < length bs \<and> 128 \<le> unat (bs ! i)"
  by (simp add: get_byte_def split: if_splits)

lemma no_ascii_take:
  assumes "\<And>i. i < k \<Longrightarrow> 128 \<le> get_byte bs i"
  shows "no_ascii (take k bs)"
  using get_byte_high[OF assms] by (auto simp: no_ascii_def in_set_conv_nth)

lemma utf8_step_cases:
  assumes "utf8_step bs = (ok, k)"
  obtains (ascii) "get_byte bs 0 < 128" "ok" "k = 1" | (other) "128 \<le> get_byte bs 0" "no_ascii (take k bs)"
proof (cases "get_byte bs 0 < 128")
  case True
  then show thesis using assms ascii by (simp add: utf8_step_def)
next
  case False
  have "128 \<le> get_byte bs i" if "i < k" for i
  proof -
    have "i = 0 \<or> i = 1 \<and> 2 \<le> k \<or> i = 2 \<and> 3 \<le> k \<or> i = 3 \<and> 4 \<le> k"
      using assms that by (auto simp: utf8_step_def Let_def split: if_splits)
    moreover have "2 \<le> k \<Longrightarrow> 128 \<le> get_byte bs 1" "3 \<le> k \<Longrightarrow> 128 \<le> get_byte bs 2" "4 \<le> k \<Longrightarrow> 128 \<le> get_byte bs 3"
      using assms False
      by (auto simp: utf8_step_def Let_def continuation_def second_of_3_def second_of_4_def split: if_splits)
    ultimately show ?thesis using False by auto
  qed
  then show thesis using False by (intro other no_ascii_take) simp_all
qed

lemma lossy_step:
  assumes "bs \<noteq> []"
  obtains (ascii) b rest where "bs = b # rest" "from_utf8_lossy bs = b # from_utf8_lossy rest" "unat b < 128"
  | (other) seg out rest where "bs = seg @ rest" "from_utf8_lossy bs = out @ from_utf8_lossy rest"
      "no_ascii seg" "no_ascii out" "seg \<noteq> []" "out \<noteq> []" "length rest < length bs"
proof -
  obtain ok k where st: "utf8_step bs = (ok, k)" by fastforce
  have k: "0 < k" using utf8_step_pos[of bs] st by simp
  have eq: "from_utf8_lossy bs = (if ok then take k bs else [0xEF, 0xBF, 0xBD]) @ from_utf8_lossy (drop k bs)"
    using assms st by (subst from_utf8_lossy.simps) simp
  from st show thesis
  proof (cases rule: utf8_step_cases)
    case ascii
    obtain b rest where "bs = b # rest" using assms by (cases bs) auto
    then show ?thesis using ascii eq by (intro that(1)) (auto simp: get_byte_def)
  next
    case other
    have "no_ascii (if ok then take k bs else [0xEF, 0xBF, 0xBD])" using other(2) by (simp add: no_ascii_def)
    then show ?thesis using other(2) assms eq k by (intro that(2)[where seg = "take k bs" and rest = "drop k bs" and out = "if ok then take k bs else [0xEF, 0xBF, 0xBD]"]) auto
  qed
qed

lemma lossy_prefix:
  assumes "ascii pat"
  shows "prefix pat (from_utf8_lossy bs) \<longleftrightarrow> prefix pat bs"
  using assms
proof (induction bs arbitrary: pat rule: length_induct)
  case (1 bs)
  show ?case
  proof (cases "bs = [] \<or> pat = []")
    case True
    then show ?thesis by (auto simp: from_utf8_lossy.simps[of "[]"])
  next
    case False
    then obtain p ps where pat: "pat = p # ps" by (cases pat) auto
    from False have "bs \<noteq> []" by simp
    then show ?thesis
    proof (cases rule: lossy_step)
      case (ascii b rest)
      then show ?thesis using 1 pat by (auto simp: ascii_def)
    next
      case (other seg out rest)
      obtain x seg' y out' where "seg = x # seg'" "out = y # out'" using other by (cases seg; cases out) auto
      then show ?thesis using other pat 1(2) by (auto simp: ascii_def no_ascii_def)
    qed
  qed
qed

lemma lossy_sublist:
  assumes "ascii pat" "pat \<noteq> []"
  shows "sublist pat (from_utf8_lossy bs) \<longleftrightarrow> sublist pat bs"
proof (induction bs rule: length_induct)
  case (1 bs)
  show ?case
  proof (cases "bs = []")
    case False
    then show ?thesis
    proof (cases rule: lossy_step)
      case (ascii b rest)
      then show ?thesis using 1 lossy_prefix[OF assms(1), of bs] by (simp add: sublist_Cons_right)
    next
      case (other seg out rest)
      then show ?thesis using 1 sublist_skip[OF _ assms] by simp
    qed
  qed (simp add: from_utf8_lossy.simps[of "[]"])
qed

text \<open>
  C28. An HTTP check reports a backend healthy exactly when it is reached and answers in time and the bytes
  of the first read, at most 1024, contain \<open>200 OK\<close> somewhere; decoding them as text makes no
  difference, whatever else they hold.
\<close>

theorem check_http_iff:
  "check_http net in_time addr path timeout \<longleftrightarrow>
     in_time timeout \<and>
     (\<exists>stream stream1 data pre post. so_connect net addr = Inr stream \<and>
        so_write_all net stream (as_bytes (http_request path addr)) = Inr stream1 \<and>
        so_read net stream1 1024 = Inr data \<and> data = pre @ as_bytes ''200 OK'' @ post)"
proof -
  have pat: "ascii (as_bytes ''200 OK'')" "as_bytes ''200 OK'' \<noteq> []" by (simp_all add: ascii_def as_bytes_def)
  have "data \<noteq> [] \<and> contains_str (from_utf8_lossy data) (as_bytes ''200 OK'') \<longleftrightarrow>
      (\<exists>pre post. data = pre @ as_bytes ''200 OK'' @ post)" for data
    unfolding contains_str_sublist lossy_sublist[OF pat] using pat(2) by (auto simp: sublist_def)
  then show ?thesis using pat(2) by (auto simp: check_http_def http_probe_def split: sum.split)
qed

text \<open>
  The check looks for \<open>200 OK\<close> anywhere in what it reads, not in the status line: an error page that
  mentions it passes, and an answer whose first read ends inside the status line fails.
\<close>

theorem check_http_misreads:
  "let net = (\<lambda>answer. \<lparr>so_connect = (\<lambda>_. Inr ()), so_write_all = (\<lambda>_ _. Inr ()),
           so_read = (\<lambda>_ k. Inr (take k (as_bytes answer)))\<rparr>)
   in check_http (net ''HTTP/1.1 500 Internal Server Error: expected 200 OK'') (\<lambda>_. True) ''a:80'' ''/'' 1 \<and>
      \<not> check_http (net ''HTTP/1.1 200'') (\<lambda>_. True) ''a:80'' ''/'' 1"
  by code_simp

section \<open>What a round does to the rotation\<close>

text \<open>Selections and closing connections leave health and addresses alone.\<close>

fun traffic :: "lb_event \<Rightarrow> bool" where
  "traffic Next_backend = True"
| "traffic (Drop_guard i) = True"
| "traffic _ = False"

definition view :: "world \<Rightarrow> backend_ref list \<times> (string \<times> bool \<times> bool) list" where
  "view w = (lb_backends (w_lb w), map (\<lambda>b. (b_addr b, b_healthy b, b_drain b)) (heap w))"

lemma map_same_update:
  assumes "f y = f (xs ! i)"
  shows "map f (xs[i := y]) = map f xs"
proof -
  have "map f (xs[i := y]) = (map f xs)[i := f (xs ! i)]" using assms by (simp add: map_update)
  also have "\<dots> = map f xs" by (cases "i < length xs") (simp_all add: list_update_beyond map_update[symmetric])
  finally show ?thesis .
qed

lemma traffic_view:
  assumes "traffic e"
  shows "view (lb_step e w) = view w"
proof (cases e)
  case Next_backend
  show ?thesis
  proof (cases rule: next_backend_cases[of "w_lb w" "w_store w"])
    case none
    then show ?thesis unfolding Next_backend
      by (cases "next_backend (w_lb w) (w_store w)") (simp add: view_def)
  next
    case (chosen r)
    then show ?thesis unfolding Next_backend by (simp add: view_def acquire_eq map_same_update)
  qed
next
  case (Drop_guard i)
  then show ?thesis by (simp add: view_def drop_guard_eq map_same_update)
qed (use assms in simp_all)

lemma traffic_run_view: "list_all traffic es \<Longrightarrow> view (fold lb_step es w) = view w"
  by (induction es arbitrary: w) (simp_all add: traffic_view)

lemma view_backend:
  assumes "view w' = view w" "r \<in> set (lb_backends (w_lb w))" "refs_ok (lb_backends (w_lb w)) (heap w)"
  shows "b_addr (heap w' ! r) = b_addr (heap w ! r)" "b_healthy (heap w' ! r) = b_healthy (heap w ! r)"
    "b_drain (heap w' ! r) = b_drain (heap w ! r)"
proof -
  have r: "r < length (heap w)" using assms(2,3) by auto
  have m: "map (\<lambda>b. (b_addr b, b_healthy b, b_drain b)) (heap w') = map (\<lambda>b. (b_addr b, b_healthy b, b_drain b)) (heap w)"
    using assms(1) by (simp add: view_def)
  from arg_cong[OF m, of length] have "length (heap w') = length (heap w)" by simp
  with arg_cong[OF m, of "\<lambda>xs. xs ! r"] r
  show "b_addr (heap w' ! r) = b_addr (heap w ! r)" "b_healthy (heap w' ! r) = b_healthy (heap w ! r)"
    "b_drain (heap w' ! r) = b_drain (heap w ! r)" by simp_all
qed

text \<open>The world after a round of the checker.\<close>

definition world_round :: "'sock sockets \<Rightarrow> (duration \<Rightarrow> bool) \<Rightarrow> string \<Rightarrow> HealthCheckConfig \<Rightarrow> world \<Rightarrow> world" where
  "world_round net in_time addr config w = w\<lparr>w_store := health_round net in_time (w_lb w) addr config (w_store w)\<rparr>"

lemma health_round_backend:
  assumes "inj_on (\<lambda>r. b_addr (heap w ! r)) (set (lb_backends (w_lb w)))" "refs_ok (lb_backends (w_lb w)) (heap w)"
    "r \<in> set (lb_backends (w_lb w))" "b_addr (heap w ! r) = addr"
  shows "heap (world_round net in_time addr config w) ! r = (heap w ! r)\<lparr>b_healthy := check_res net in_time addr config\<rparr>"
  using find_backend_unique[OF assms(1,3,4)] refs_okD[OF assms(2,3)]
  by (simp add: world_round_def health_round_def set_backend_health_heap)

text \<open>
  C27. A round of a checker decides about its backend until the next report: after a failed check no
  selection returns the address, whatever connections are opened and closed in between, and after a
  successful one the backend can be selected, unless it drains or is at its limit. The addresses of
  the rule have to be distinct.
\<close>

theorem health_round_rotation:
  assumes "inj_on (\<lambda>r. b_addr (heap w ! r)) (set (lb_backends (w_lb w)))" "wf_world w"
    and "r \<in> set (lb_backends (w_lb w))" "b_addr (heap w ! r) = addr"
    and "list_all traffic es" "w' = fold lb_step es (world_round net in_time addr config w)"
  shows "(\<not> check_res net in_time addr config \<longrightarrow> (\<forall>a g. fst (next_backend (w_lb w') (w_store w')) = Some (a, g) \<longrightarrow> a \<noteq> addr)) \<and>
    (check_res net in_time addr config \<longrightarrow>
       (available (lb_connection_limit (w_lb w')) (heap w' ! r) \<longleftrightarrow>
         \<not> b_drain (heap w ! r) \<and> (\<forall>l. lb_connection_limit (w_lb w') = Some l \<longrightarrow> b_active_connections (heap w' ! r) < l)))"
proof -
  let ?w1 = "world_round net in_time addr config w"
  have lbs: "lb_backends (w_lb ?w1) = lb_backends (w_lb w)" by (simp add: world_round_def)
  have len: "length (heap ?w1) = length (heap w)"
    by (simp add: world_round_def health_round_def set_backend_health_heap split: option.split)
  have ok: "refs_ok (lb_backends (w_lb w)) (heap w)" by (rule wf_worldD(1)[OF assms(2)])
  then have ok1: "refs_ok (lb_backends (w_lb ?w1)) (heap ?w1)" using len lbs by (simp add: refs_ok_def)
  have v: "view w' = view ?w1" using traffic_run_view[OF assms(5)] assms(6) by simp
  note b = view_backend[OF v _ ok1, unfolded lbs]
  have r: "b_healthy (heap w' ! r) = check_res net in_time addr config" "b_drain (heap w' ! r) = b_drain (heap w ! r)"
    using b[OF assms(3)] health_round_backend[OF assms(1) ok assms(3,4), of net in_time config] by simp_all
  have addr: "b_addr (heap ?w1 ! r') = b_addr (heap w ! r')" if "r' \<in> set (lb_backends (w_lb w))" for r'
    using that refs_okD[OF ok that]
    by (auto simp: world_round_def health_round_def set_backend_health_heap nth_list_update_if split: option.split)
  have "a \<noteq> addr" if bad: "\<not> check_res net in_time addr config" "fst (next_backend (w_lb w') (w_store w')) = Some (a, g)" for a g
  proof (cases rule: next_backend_cases[of "w_lb w'" "w_store w'"])
    case none
    then show ?thesis using bad by simp
  next
    case (chosen r')
    have r': "r' \<in> set (lb_backends (w_lb w))" using chosen(1) v lbs by (simp add: view_def)
    have "a = b_addr (heap w ! r')" using chosen(3) bad(2) b(1)[OF r'] addr[OF r'] by simp
    moreover have "r' \<noteq> r" using chosen(2) r bad(1) by (auto simp: available_def)
    ultimately show ?thesis using assms(1,3,4) r' by (auto dest: inj_onD)
  qed
  then show ?thesis using r by (auto simp: available_def split: option.splits)
qed

text \<open>A rule with two backends; the TCP check of the first is refused, and two selections return the second.\<close>

definition sample_check :: HealthCheckConfig where
  "sample_check = \<lparr>hc_enabled = True, hc_interval_ms = 1000, hc_timeout_ms = 500, hc_protocol = ''tcp'', hc_path = None\<rparr>"

definition dead_net :: "unit sockets" where
  "dead_net = \<lparr>so_connect = (\<lambda>_. Inl (IoError ''refused'')), so_write_all = (\<lambda>_ _. Inr ()), so_read = (\<lambda>_ _. Inr [])\<rparr>"

theorem health_round_rotation_witness:
  "let w = init_world ''app'' [Simple ''a'', Simple ''b''] None;
       w' = fold lb_step [Next_backend, Next_backend] (world_round dead_net (\<lambda>_. True) ''a'' sample_check w)
   in \<not> check_res dead_net (\<lambda>_. True) ''a'' sample_check \<and> length (w_guards w') = 2 \<and>
      (\<forall>a g. fst (next_backend (w_lb w') (w_store w')) = Some (a, g) \<longrightarrow> a \<noteq> ''a'')"
proof -
  let ?w = "init_world ''app'' [Simple ''a'', Simple ''b''] None"
  let ?w' = "fold lb_step [Next_backend, Next_backend] (world_round dead_net (\<lambda>_. True) ''a'' sample_check ?w)"
  have refs: "lb_backends (w_lb ?w) = [0, 1]" and addrs: "b_addr (heap ?w ! 0) = ''a''" "b_addr (heap ?w ! 1) = ''b''"
    by code_simp+
  have inj: "inj_on (\<lambda>r. b_addr (heap ?w ! r)) (set (lb_backends (w_lb ?w)))"
    by (simp add: refs inj_on_def addrs[simplified])
  have bad: "\<not> check_res dead_net (\<lambda>_. True) ''a'' sample_check"
    by (simp add: check_res_def sample_check_def check_tcp_def dead_net_def)
  have eq: "world_round dead_net (\<lambda>_. True) ''a'' sample_check ?w = lb_step (Set_backend_health ''a'' False) ?w"
    using bad by (simp add: world_round_def health_round_def)
  have n: "length (w_guards ?w') = 2" unfolding eq by code_simp
  have "0 \<in> set (lb_backends (w_lb ?w))" by (simp add: refs)
  from health_round_rotation[OF inj wf_init_world this addrs(1) _ refl, of "[Next_backend, Next_backend]" dead_net "\<lambda>_. True" sample_check]
    bad n
  show ?thesis unfolding Let_def by simp
qed

section \<open>How soon a failure is seen\<close>

lemma round_times_Nil: "round_times interval t0 ds = [] \<longleftrightarrow> ds = []"
  by (cases ds) simp_all

lemma round_times_next:
  assumes "\<forall>d \<in> set ds. d \<le> t" "t0 \<le> x + interval + t" "ds \<noteq> []" "x \<le> fst (last (round_times interval t0 ds))"
  shows "\<exists>(b, e) \<in> set (round_times interval t0 ds). x \<le> b \<and> e \<le> x + interval + 2 * t"
  using assms
proof (induction ds arbitrary: t0)
  case (Cons d ds)
  show ?case
  proof (cases "x \<le> t0")
    case True
    then show ?thesis using Cons.prems by auto
  next
    case False
    then have "ds \<noteq> []" using Cons.prems(4) by auto
    then show ?thesis using Cons.IH[of "t0 + d + interval"] Cons.prems False by (auto simp: round_times_Nil)
  qed
qed simp

text \<open>
  A checker sees a failure soon: if every check of a task takes at most its timeout, then at any moment
  \<open>x\<close> between its first and its last round there is a round that begins at \<open>x\<close> or later and has reported at
  most one interval and two timeouts after \<open>x\<close>.
\<close>

theorem failure_detection_delay:
  assumes "\<forall>d \<in> set ds. d \<le> from_millis (hc_timeout_ms config)" "ds \<noteq> []"
    and "rounds = start_health_check t config ds" "t + from_millis 100 \<le> x" "x \<le> fst (last rounds)"
  shows "\<exists>(b, e) \<in> set rounds. x \<le> b \<and> e \<le> x + from_millis (hc_interval_ms config) + 2 * from_millis (hc_timeout_ms config)"
  using round_times_next[OF assms(1) _ assms(2), of "t + from_millis 100" x "from_millis (hc_interval_ms config)"] assms(3-5)
  by (simp add: start_health_check_def)

theorem failure_detection_delay_witness:
  "\<exists>(b, e) \<in> set (start_health_check 0 sample_check [1000000, 400000000, 1000000]).
     200000000 \<le> b \<and> e \<le> 200000000 + from_millis (hc_interval_ms sample_check) + 2 * from_millis (hc_timeout_ms sample_check)"
  by (rule failure_detection_delay[OF _ _ refl, where t = 0 and ds = "[1000000, 400000000, 1000000]"])
    (simp_all add: sample_check_def start_health_check_def from_millis_def)

end
