(* ===== verification/Tls.thy ===== *)
theory Tls
  imports Prelude
begin

text \<open>
  Loading the certificate and the key of a rule (\<^verbatim>\<open>src/networking/tls.rs\<close>) and the error type
  of the program (\<^verbatim>\<open>src/common/error.rs\<close>). The file system, the PEM readers and the \<^verbatim>\<open>rustls\<close>
  builder are arguments. Shown here: exactly when an acceptor results and from what, and that the
  error reported is that of the first step that fails.
\<close>

section \<open>Errors\<close>

datatype LbError = Io io_error | Yaml string | Anyhow string | Tls string

fun io_message :: "io_error \<Rightarrow> string" where
  "io_message (IoError e) = e"

fun display_LbError :: "LbError \<Rightarrow> string" where
  "display_LbError (Io e) = ''IO Error: '' @ io_message e"
| "display_LbError (Yaml e) = ''YAML Error: '' @ e"
| "display_LbError (Anyhow e) = ''Anyhow Error: '' @ e"
| "display_LbError (Tls e) = ''TLS Error: '' @ e"

section \<open>Loading\<close>

text \<open>\<open>collect\<close> into a \<open>Result\<close>: the values up to the first error, or that error.\<close>

fun collect :: "('e + 'a) list \<Rightarrow> 'e + 'a list" where
  "collect [] = Inr []"
| "collect (Inl e # rs) = Inl e"
| "collect (Inr x # rs) = (case collect rs of Inl e \<Rightarrow> Inl e | Inr xs \<Rightarrow> Inr (x # xs))"

text \<open>
  The libraries: opening a file, the certificates and the PKCS#8 keys of an open file, item by item,
  and the server configuration for a chain and a key.
\<close>

record ('file, 'cert, 'key, 'acceptor) tls_lib =
  tl_open :: "string \<Rightarrow> io_error + 'file"
  tl_certs :: "'file \<Rightarrow> (io_error + 'cert) list"
  tl_pkcs8_private_keys :: "'file \<Rightarrow> (io_error + 'key) list"
  tl_with_single_cert :: "'cert list \<Rightarrow> 'key \<Rightarrow> string + 'acceptor"

text \<open>\<open>r.map_err(f)?\<close>\<close>

definition try_map_err :: "('d \<Rightarrow> 'e) \<Rightarrow> 'd + 'a \<Rightarrow> ('a \<Rightarrow> 'e + 'b) \<Rightarrow> 'e + 'b" where
  "try_map_err f r k = (case r of Inl d \<Rightarrow> Inl (f d) | Inr x \<Rightarrow> k x)"

definition load_tls_config :: "('file, 'cert, 'key, 'acceptor) tls_lib \<Rightarrow> string \<Rightarrow> string \<Rightarrow> LbError + 'acceptor" where
  "load_tls_config lib cert_path key_path =
     try_map_err Io (tl_open lib cert_path) (\<lambda>cert_file.
     try_map_err Io (collect (tl_certs lib cert_file)) (\<lambda>certs.
     try_map_err Io (tl_open lib key_path) (\<lambda>key_file.
     try_map_err Io (collect (tl_pkcs8_private_keys lib key_file)) (\<lambda>keys.
     case keys of
       [] \<Rightarrow> Inl (Tls ''No private keys found'')
     | key # _ \<Rightarrow> try_map_err Tls (tl_with_single_cert lib certs key) Inr))))"

section \<open>What is loaded\<close>

lemma collect_map_Inr [simp]: "collect (map Inr xs) = Inr xs"
  by (induction xs) simp_all

lemma collect_Inr: "collect rs = Inr xs \<longleftrightarrow> rs = map Inr xs"
  by (induction rs arbitrary: xs rule: collect.induct) (auto split: sum.splits)

lemma collect_Inl: "collect rs = Inl e \<longleftrightarrow> (\<exists>xs ys. rs = map Inr xs @ Inl e # ys)"
proof (induction rs rule: collect.induct)
  case (3 x rs)
  have "(\<exists>zs ys. Inr x # rs = map Inr zs @ Inl e # ys) \<longleftrightarrow> (\<exists>zs ys. rs = map Inr zs @ Inl e # ys)"
  proof
    assume "\<exists>zs ys. rs = map Inr zs @ Inl e # ys"
    then show "\<exists>zs ys. Inr x # rs = map Inr zs @ Inl e # ys"
      by (metis append_Cons list.simps(9))
  qed (auto simp: Cons_eq_append_conv)
  then show ?case using 3 by (auto split: sum.splits)
qed (auto simp: Cons_eq_append_conv)

lemma try_map_err_Inr: "try_map_err f r k = Inr y \<longleftrightarrow> (\<exists>x. r = Inr x \<and> k x = Inr y)"
  by (auto simp: try_map_err_def split: sum.splits)

lemma try_map_err_Inl: "try_map_err f r k = Inl e \<longleftrightarrow> (\<exists>d. r = Inl d \<and> f d = e) \<or> (\<exists>x. r = Inr x \<and> k x = Inl e)"
  by (auto simp: try_map_err_def split: sum.splits)

text \<open>
  An acceptor is built exactly when both files open, every item of both files is readable, the key file
  has a key and the library accepts the chain with the first key; the remaining keys are not looked at.
\<close>

theorem load_tls_config_ok:
  "load_tls_config lib cert_path key_path = Inr acceptor \<longleftrightarrow>
     (\<exists>cert_file certs key_file key keys.
        tl_open lib cert_path = Inr cert_file \<and> tl_certs lib cert_file = map Inr certs \<and>
        tl_open lib key_path = Inr key_file \<and> tl_pkcs8_private_keys lib key_file = map Inr (key # keys) \<and>
        tl_with_single_cert lib certs key = Inr acceptor)"
proof -
  have last: "(case keys of [] \<Rightarrow> Inl (Tls ''No private keys found'')
      | key # _ \<Rightarrow> try_map_err Tls (tl_with_single_cert lib cs key) Inr) = Inr acceptor \<longleftrightarrow>
      (\<exists>key rest. keys = key # rest \<and> tl_with_single_cert lib cs key = Inr acceptor)" for keys cs
    by (cases keys) (auto simp: try_map_err_Inr)
  show ?thesis unfolding load_tls_config_def try_map_err_Inr collect_Inr last by blast
qed

text \<open>
  C38. The error is that of the first step that fails, in the order certificate file, certificates, key
  file, keys, absence of a key, rejection by the library: an error of a file is reported as I/O, even
  where a later step would fail too, and only the last two are reported as TLS errors.
\<close>

theorem load_tls_config_error:
  fixes lib :: "('file, 'cert, 'key, 'acceptor) tls_lib"
  shows "load_tls_config lib cert_path key_path = Inl e \<longleftrightarrow>
     (\<exists>d. tl_open lib cert_path = Inl d \<and> e = Io d) \<or>
     (\<exists>cf d cs rest. tl_open lib cert_path = Inr cf \<and> tl_certs lib cf = map Inr cs @ Inl d # rest \<and> e = Io d) \<or>
     (\<exists>cf cs. tl_open lib cert_path = Inr cf \<and> tl_certs lib cf = map Inr cs \<and>
        ((\<exists>d. tl_open lib key_path = Inl d \<and> e = Io d) \<or>
         (\<exists>kf d ks rest. tl_open lib key_path = Inr kf \<and> tl_pkcs8_private_keys lib kf = map Inr ks @ Inl d # rest \<and> e = Io d) \<or>
         (\<exists>kf. tl_open lib key_path = Inr kf \<and> tl_pkcs8_private_keys lib kf = [] \<and> e = Tls ''No private keys found'') \<or>
         (\<exists>kf key keys why. tl_open lib key_path = Inr kf \<and> tl_pkcs8_private_keys lib kf = map Inr (key # keys) \<and>
            tl_with_single_cert lib cs key = Inl why \<and> e = Tls why)))"
proof -
  have last: "(case keys of [] \<Rightarrow> Inl (Tls ''No private keys found'')
      | key # _ \<Rightarrow> try_map_err Tls (tl_with_single_cert lib cs key) Inr) = Inl e \<longleftrightarrow>
      keys = [] \<and> e = Tls ''No private keys found'' \<or>
      (\<exists>key rest why. keys = key # rest \<and> tl_with_single_cert lib cs key = Inl why \<and> e = Tls why)" for keys cs
    by (cases keys) (auto simp: try_map_err_Inl)
  have keys: "(\<exists>ks. rs = map Inr ks \<and> (ks = [] \<and> P \<or> (\<exists>k r w. ks = k # r \<and> Q k w))) \<longleftrightarrow>
      rs = [] \<and> P \<or> (\<exists>k r w. rs = map Inr (k # r) \<and> Q k w)" for rs :: "(io_error + 'key) list" and P and Q :: "'key \<Rightarrow> string \<Rightarrow> bool"
  proof -
    have "rs = [] \<longleftrightarrow> rs = map Inr []" by simp
    then show ?thesis by blast
  qed
  show ?thesis
    unfolding load_tls_config_def try_map_err_Inl collect_Inl collect_Inr last keys eq_commute[of _ e] by blast
qed

end
