(* ===== verification/Cluster.thy ===== *)
theory Cluster
  imports Net_Addr
begin

text \<open>
  The cluster actor (\<^verbatim>\<open>src/cluster/mod.rs\<close>). The gossip engine (the \<^verbatim>\<open>foca\<close> crate), the codec
  (\<^verbatim>\<open>bincode\<close>) and the bounded channel to the application (\<^verbatim>\<open>tokio\<close>) are arguments; the actor's own
  part is what it makes of timer ticks, datagrams and commands, and the handler that the engine calls
  back on every received item. Shown here: a usage update arrives at every receiver as it was issued,
  and a cluster whose nodes know each other only by their configured peers never exchanges a datagram.
\<close>

section \<open>Data\<close>

datatype BroadcastMessage = UsageUpdate (um_node_id: u64) (um_key: string) (um_usage: u32)

record BroadcastKey =
  bk_node_id :: u64
  bk_key :: string

definition invalidates :: "BroadcastKey \<Rightarrow> BroadcastKey \<Rightarrow> bool" where
  "invalidates self other \<longleftrightarrow> self = other"

record NodeIdentity =
  ni_addr :: SocketAddr
  ni_id :: u64

text \<open>The first argument of \<open>renew\<close> is the number \<open>rand::random\<close> returns.\<close>

definition renew :: "u64 \<Rightarrow> NodeIdentity \<Rightarrow> NodeIdentity option" where
  "renew random self = Some \<lparr>ni_addr = ni_addr self, ni_id = random\<rparr>"

definition identity_addr :: "NodeIdentity \<Rightarrow> SocketAddr" where
  "identity_addr self = ni_addr self"

definition win_addr_conflict :: "NodeIdentity \<Rightarrow> NodeIdentity \<Rightarrow> bool" where
  "win_addr_conflict self other = True"

datatype ClusterCommand = BroadcastUsage string u32

text \<open>A decoding error of the codec is its debug text.\<close>

datatype ClusterError = Bincode string | Anyhow string

fun display_ClusterError :: "ClusterError \<Rightarrow> string" where
  "display_ClusterError (Bincode e) = ''Bincode error: '' @ e"
| "display_ClusterError (Anyhow e) = ''Error: '' @ e"

datatype notification =
  MemberUp NodeIdentity | MemberDown NodeIdentity | Active | Idle | Defunct | OtherNotification

text \<open>
  What a call into the engine leaves in the runtime it is given: datagrams and notifications, in
  order. Timers that the engine asks for are accumulated too, but the program never takes them out.
\<close>

record runtime =
  rt_to_send :: "(NodeIdentity \<times> u8 list) list"
  rt_to_notify :: "notification list"

type_synonym 'q handler = "u8 list \<Rightarrow> 'q \<Rightarrow> (ClusterError + BroadcastKey option) \<times> 'q"

record ('f, 'q) cluster_lib =
  fl_decode :: "u8 list \<Rightarrow> string + BroadcastMessage \<times> usize"
  fl_encode :: "BroadcastMessage \<Rightarrow> string + u8 list"
  fl_try_send :: "u64 \<times> string \<times> u32 \<Rightarrow> 'q \<Rightarrow> (string + unit) \<times> 'q"
  fl_with_custom_broadcast :: "NodeIdentity \<Rightarrow> bool \<Rightarrow> 'f"
  fl_gossip :: "'f \<Rightarrow> (string + unit) \<times> 'f \<times> runtime"
  fl_handle_data :: "'q handler \<Rightarrow> u8 list \<Rightarrow> 'f \<Rightarrow> 'q \<Rightarrow> (string + unit) \<times> 'f \<times> 'q \<times> runtime"
  fl_add_broadcast :: "'q handler \<Rightarrow> u8 list \<Rightarrow> 'f \<Rightarrow> 'q \<Rightarrow> (string + unit) \<times> 'f \<times> 'q"

record ('f, 'q) Cluster =
  cs_foca :: 'f
  cs_tx_state :: 'q
  cs_identity :: NodeIdentity

section \<open>Operations\<close>

text \<open>The handler: decode, pass the update on without waiting, and return its key.\<close>

definition receive_item :: "('f, 'q) cluster_lib \<Rightarrow> 'q handler" where
  "receive_item lib data q =
     (case fl_decode lib data of
        Inl e \<Rightarrow> (Inl (Bincode e), q)
      | Inr (UsageUpdate node_id key usage, _) \<Rightarrow>
          (Inr (Some \<lparr>bk_node_id = node_id, bk_key = key\<rparr>), snd (fl_try_send lib (node_id, key, usage) q)))"

text \<open>The arguments are the result of binding the socket and the random number; the peers are not used.\<close>

definition new_cluster ::
  "('f, 'q) cluster_lib \<Rightarrow> (SocketAddr \<Rightarrow> io_error + unit) \<Rightarrow> u64 \<Rightarrow> SocketAddr \<Rightarrow> SocketAddr list \<Rightarrow> 'q \<Rightarrow>
   io_error + ('f, 'q) Cluster" where
  "new_cluster lib bind random bind_addr peers tx_state =
     (case bind bind_addr of
        Inl e \<Rightarrow> Inl e
      | Inr _ \<Rightarrow>
          (let identity = \<lparr>ni_addr = bind_addr, ni_id = random\<rparr>
           in Inr \<lparr>cs_foca = fl_with_custom_broadcast lib identity True, cs_tx_state = tx_state, cs_identity = identity\<rparr>))"

fun notification_line :: "(NodeIdentity \<Rightarrow> string) \<Rightarrow> notification \<Rightarrow> string option" where
  "notification_line debug (MemberUp m) = Some (''Cluster: Member UP '' @ debug m)"
| "notification_line debug (MemberDown m) = Some (''Cluster: Member DOWN '' @ debug m)"
| "notification_line debug Active = Some ''Cluster: Active''"
| "notification_line debug Idle = Some ''Cluster: Idle''"
| "notification_line debug Defunct = Some ''Cluster: Defunct''"
| "notification_line debug OtherNotification = None"

text \<open>The datagrams to send, each to the address of its destination, and the lines to print.\<close>

definition handle_runtime :: "(NodeIdentity \<Rightarrow> string) \<Rightarrow> runtime \<Rightarrow> (SocketAddr \<times> u8 list) list \<times> string list" where
  "handle_runtime debug rt =
     (map (\<lambda>(dst, data). (ni_addr dst, data)) (rt_to_send rt),
      List.map_filter (notification_line debug) (rt_to_notify rt))"

text \<open>What wakes the loop: the timer, the socket (an error or a datagram) or a command.\<close>

datatype cluster_event = Tick | Received "io_error + u8 list" | Command ClusterCommand

definition usage_message :: "('f, 'q) Cluster \<Rightarrow> string \<Rightarrow> u32 \<Rightarrow> BroadcastMessage" where
  "usage_message self key usage = UsageUpdate (ni_id (cs_identity self)) key usage"

definition empty_runtime :: runtime where
  "empty_runtime = \<lparr>rt_to_send = [], rt_to_notify = []\<rparr>"

fun run_event :: "('f, 'q) cluster_lib \<Rightarrow> cluster_event \<Rightarrow> ('f, 'q) Cluster \<Rightarrow> ('f, 'q) Cluster \<times> runtime" where
  "run_event lib Tick self =
     (let (_, f, rt) = fl_gossip lib (cs_foca self) in (self\<lparr>cs_foca := f\<rparr>, rt))"
| "run_event lib (Received (Inl e)) self = (self, empty_runtime)"
| "run_event lib (Received (Inr data)) self =
     (let (_, f, q, rt) = fl_handle_data lib (receive_item lib) data (cs_foca self) (cs_tx_state self)
      in (self\<lparr>cs_foca := f, cs_tx_state := q\<rparr>, rt))"
| "run_event lib (Command (BroadcastUsage key usage)) self =
     (case fl_encode lib (usage_message self key usage) of
        Inl _ \<Rightarrow> (self, empty_runtime)
      | Inr bytes \<Rightarrow>
          (let (_, f, q) = fl_add_broadcast lib (receive_item lib) bytes (cs_foca self) (cs_tx_state self)
           in (self\<lparr>cs_foca := f, cs_tx_state := q\<rparr>, empty_runtime)))"

text \<open>One round of the loop, and the loop over the events that occur; the seeds are not used.\<close>

definition run_round ::
  "('f, 'q) cluster_lib \<Rightarrow> (NodeIdentity \<Rightarrow> string) \<Rightarrow> cluster_event \<Rightarrow> ('f, 'q) Cluster \<Rightarrow>
   ('f, 'q) Cluster \<times> (SocketAddr \<times> u8 list) list \<times> string list" where
  "run_round lib debug ev self =
     (let (self', rt) = run_event lib ev self in (self', handle_runtime debug rt))"

fun run ::
  "('f, 'q) cluster_lib \<Rightarrow> (NodeIdentity \<Rightarrow> string) \<Rightarrow> SocketAddr list \<Rightarrow> cluster_event list \<Rightarrow> ('f, 'q) Cluster \<Rightarrow>
   ('f, 'q) Cluster \<times> (SocketAddr \<times> u8 list) list \<times> string list" where
  "run lib debug seeds [] self = (self, [], [])"
| "run lib debug seeds (ev # evs) self =
     (let (self', out, printed) = run_round lib debug ev self;
          (self'', outs, texts) = run lib debug seeds evs self'
      in (self'', out @ outs, printed @ texts))"

section \<open>Updates arrive as they were issued\<close>

lemma run_event_identity [simp]: "cs_identity (fst (run_event lib ev self)) = cs_identity self"
  by (cases "(lib, ev, self)" rule: run_event.cases) (simp_all add: split_beta Let_def split: sum.split)

lemma run_round_identity [simp]: "cs_identity (fst (run_round lib debug ev self)) = cs_identity self"
  by (simp add: run_round_def split_beta)

lemma run_identity [simp]: "cs_identity (fst (run lib debug seeds evs self)) = cs_identity self"
  by (induction evs arbitrary: self) (simp_all add: split_beta Let_def)

lemma new_cluster_Inr:
  assumes "new_cluster lib bind random bind_addr peers q = Inr c"
  shows "cs_foca c = fl_with_custom_broadcast lib (cs_identity c) True" "cs_tx_state c = q"
    "cs_identity c = \<lparr>ni_addr = bind_addr, ni_id = random\<rparr>"
  using assms by (cases "bind bind_addr"; auto simp: new_cluster_def Let_def)+

text \<open>
  C39. A usage update makes the round trip. Let the codec decode what it encodes. A node that was created
  with the number \<open>random\<close>, whatever it has done since, encodes a command into bytes from which the
  handler of every node reads the same number, key and usage, passes exactly these on to its
  application, and returns a key that replaces those of the same node and key and no others.
\<close>

theorem usage_update_roundtrip:
  assumes "\<And>m b. fl_encode lib m = Inr b \<Longrightarrow> \<exists>n. fl_decode lib b = Inr (m, n)"
    and "new_cluster lib bind random bind_addr peers q0 = Inr node"
    and "fl_encode lib (usage_message (fst (run lib debug seeds evs node)) key usage) = Inr bytes"
  shows "\<exists>k. receive_item lib bytes q = (Inr (Some k), snd (fl_try_send lib (random, key, usage) q)) \<and>
    (\<forall>other. invalidates k other \<longleftrightarrow> bk_node_id other = random \<and> bk_key other = key)"
proof -
  have "ni_id (cs_identity (fst (run lib debug seeds evs node))) = random"
    using new_cluster_Inr(3)[OF assms(2)] by simp
  then have "\<exists>n. fl_decode lib bytes = Inr (UsageUpdate random key usage, n)"
    using assms(1)[OF assms(3)] by (simp add: usage_message_def)
  then show ?thesis by (auto simp: receive_item_def invalidates_def)
qed

section \<open>An engine and a codec\<close>

text \<open>
  A small instance of the libraries: an engine that sends its broadcasts to all members and learns its
  peers from those whose datagrams it handles, a channel of a thousand places, and the codec for numbers
  and lengths that take one byte.
\<close>

definition small_encode :: "BroadcastMessage \<Rightarrow> string + u8 list" where
  "small_encode m =
     (case m of UsageUpdate n k u \<Rightarrow>
        if n < 251 \<and> length k < 251 \<and> u < 251
        then Inr (0 # of_nat (unat n) # of_nat (length k) # as_bytes k @ [of_nat (unat u)])
        else Inl ''too large'')"

definition small_decode :: "u8 list \<Rightarrow> string + BroadcastMessage \<times> usize" where
  "small_decode bs =
     (case bs of
        tag # n # l # rest \<Rightarrow>
          if tag = 0 \<and> unat l < length rest
          then Inr (UsageUpdate (of_nat (unat n)) (map (\<lambda>b. char_of (unat b)) (take (unat l) rest))
                 (of_nat (unat (rest ! unat l))), of_nat (unat l + 4))
          else Inl ''unexpected''
      | _ \<Rightarrow> Inl ''unexpected end'')"

lemma unat_of_char: "unat (of_char c :: u8) = of_char c"
proof -
  have "(of_char c :: u8) = of_nat (of_char c)" by (simp add: of_nat_of_char)
  moreover have "(of_char c :: nat) < 2 ^ LENGTH(8)" using nat_of_char_less_256[of c] by simp
  ultimately show ?thesis by (simp add: unat_of_nat_small)
qed

lemma ucast_small:
  fixes x :: "'a::len word"
  assumes "unat x < 251"
  shows "ucast (ucast x :: u8) = x"
proof -
  have "unat (ucast x :: u8) = unat x"
    using assms by (simp add: unsigned_ucast_eq take_bit_nat_eq_self)
  then have "(of_nat (unat (ucast x :: u8)) :: 'a word) = x" by simp
  then show ?thesis by simp
qed

lemma small_decode_encode: "small_encode m = Inr b \<Longrightarrow> \<exists>n. small_decode b = Inr (m, n)"
  by (auto simp: small_encode_def small_decode_def as_bytes_def unat_of_char comp_def nth_append
        unat_of_nat_small ucast_small word_less_nat_alt split: BroadcastMessage.splits if_splits)

definition small_lib :: "(NodeIdentity list \<times> u8 list list, (u64 \<times> string \<times> u32) list) cluster_lib" where
  "small_lib = \<lparr>
     fl_decode = small_decode,
     fl_encode = small_encode,
     fl_try_send = (\<lambda>x q. if length q < 1000 then (Inr (), q @ [x]) else (Inl ''full'', q)),
     fl_with_custom_broadcast = (\<lambda>i notify. ([], [])),
     fl_gossip = (\<lambda>(ms, bs). (Inr (), (ms, bs), \<lparr>rt_to_send = List.product ms bs, rt_to_notify = []\<rparr>)),
     fl_handle_data = (\<lambda>h d (ms, bs) q.
       (case h d q of
          (Inr (Some k), q') \<Rightarrow> (Inr (), (\<lparr>ni_addr = SocketV4 (Ipv4Addr 10 0 0 1) 9090, ni_id = bk_node_id k\<rparr> # ms, bs), q', empty_runtime)
        | (_, q') \<Rightarrow> (Inl ''rejected'', (ms, bs), q', empty_runtime))),
     fl_add_broadcast = (\<lambda>h d (ms, bs) q. case h d q of (_, q') \<Rightarrow> (Inr (), (ms, d # bs), q'))\<rparr>"

theorem usage_update_roundtrip_witness:
  "fst (receive_item small_lib [0, 7, 2, 105, 112, 9] []) = Inr (Some \<lparr>bk_node_id = 7, bk_key = ''ip''\<rparr>) \<and>
   snd (receive_item small_lib [0, 7, 2, 105, 112, 9] []) = [(7, ''ip'', 9)]"
proof -
  let ?a = "SocketV4 (Ipv4Addr 10 0 0 2) 9090"
  let ?n = "\<lparr>cs_foca = fl_with_custom_broadcast small_lib \<lparr>ni_addr = ?a, ni_id = 7\<rparr> True, cs_tx_state = [],
    cs_identity = \<lparr>ni_addr = ?a, ni_id = 7\<rparr>\<rparr>"
  have dec: "\<And>m b. fl_encode small_lib m = Inr b \<Longrightarrow> \<exists>n. fl_decode small_lib b = Inr (m, n)"
    by (simp add: small_lib_def small_decode_encode)
  have new: "new_cluster small_lib (\<lambda>_. Inr ()) 7 ?a [] [] = Inr ?n"
    by (simp add: new_cluster_def Let_def)
  have enc: "fl_encode small_lib (usage_message (fst (run small_lib (\<lambda>_. []) [] [Tick] ?n)) ''ip'' 9) = Inr [0, 7, 2, 105, 112, 9]"
    by code_simp
  obtain k where k: "receive_item small_lib [0, 7, 2, 105, 112, 9] [] = (Inr (Some k), snd (fl_try_send small_lib (7, ''ip'', 9) []))"
    and inv: "\<forall>other. invalidates k other \<longleftrightarrow> bk_node_id other = 7 \<and> bk_key other = ''ip''"
    using usage_update_roundtrip[OF dec new enc, of "[]"] by blast
  have "bk_node_id k = 7" "bk_key k = ''ip''" using inv[rule_format, of k] by (simp_all add: invalidates_def)
  then show ?thesis unfolding k by (simp add: small_lib_def)
qed

section \<open>Nodes that know each other by their peers only\<close>

text \<open>
  Several nodes and the datagrams that are under way. A node may be woken by its timer, by a command, by
  an error of its socket, or by a datagram that was sent to its address.
\<close>

record ('f, 'q) network =
  nw_nodes :: "('f, 'q) Cluster list"
  nw_wire :: "(SocketAddr \<times> u8 list) list"

definition can_wake :: "('f, 'q) network \<Rightarrow> nat \<Rightarrow> cluster_event \<Rightarrow> bool" where
  "can_wake N i ev \<longleftrightarrow>
     (case ev of
        Received (Inr data) \<Rightarrow> (ni_addr (cs_identity (nw_nodes N ! i)), data) \<in> set (nw_wire N)
      | _ \<Rightarrow> True)"

inductive net_move :: "('f, 'q) cluster_lib \<Rightarrow> (NodeIdentity \<Rightarrow> string) \<Rightarrow> ('f, 'q) network \<Rightarrow> ('f, 'q) network \<Rightarrow> bool"
  for lib debug where
  wake: "i < length (nw_nodes N) \<Longrightarrow> can_wake N i ev \<Longrightarrow> run_round lib debug ev (nw_nodes N ! i) = (c, out, printed) \<Longrightarrow>
     net_move lib debug N \<lparr>nw_nodes = (nw_nodes N)[i := c], nw_wire = nw_wire N @ out\<rparr>"

lemma net_move_round:
  assumes "i < length (nw_nodes N)" "can_wake N i ev"
  shows "net_move lib debug N \<lparr>nw_nodes = (nw_nodes N)[i := fst (run_round lib debug ev (nw_nodes N ! i))],
    nw_wire = nw_wire N @ fst (snd (run_round lib debug ev (nw_nodes N ! i)))\<rparr>"
  using assms by (intro net_move.wake[where printed = "snd (snd (run_round lib debug ev (nw_nodes N ! i)))"]) simp_all

definition silent :: "('f \<Rightarrow> nat) \<Rightarrow> ('f, 'q) network \<Rightarrow> bool" where
  "silent num_members N \<longleftrightarrow> nw_wire N = [] \<and> (\<forall>c \<in> set (nw_nodes N). num_members (cs_foca c) = 0)"

lemma silent_round:
  assumes gossip: "\<And>f r f' rt. num_members f = 0 \<Longrightarrow> fl_gossip lib f = (r, f', rt) \<Longrightarrow> num_members f' = 0 \<and> rt_to_send rt = []"
    and add: "\<And>h d f q r f' q'. fl_add_broadcast lib h d f q = (r, f', q') \<Longrightarrow> num_members f' = num_members f"
    and c: "num_members (cs_foca c) = 0" and ev: "\<And>data. ev \<noteq> Received (Inr data)"
    and round: "run_round lib debug ev c = (c', out, printed)"
  shows "num_members (cs_foca c') = 0 \<and> out = []"
proof (cases ev)
  case Tick
  obtain r f rt where g: "fl_gossip lib (cs_foca c) = (r, f, rt)" by (metis surj_pair)
  then show ?thesis using gossip[OF c g] round by (auto simp: Tick run_round_def handle_runtime_def)
next
  case (Received d)
  then obtain e where "d = Inl e" using ev by (cases d) auto
  then show ?thesis using c round by (auto simp: Received run_round_def handle_runtime_def empty_runtime_def)
next
  case (Command cmd)
  obtain key usage where cmd: "cmd = BroadcastUsage key usage" by (cases cmd)
  show ?thesis
  proof (cases "fl_encode lib (usage_message c key usage)")
    case (Inl e)
    then show ?thesis using c round by (auto simp: Command cmd run_round_def handle_runtime_def empty_runtime_def)
  next
    case (Inr bytes)
    obtain r f q where a: "fl_add_broadcast lib (receive_item lib) bytes (cs_foca c) (cs_tx_state c) = (r, f, q)"
      by (metis surj_pair)
    show ?thesis
      using add[OF a] c round Inr a by (auto simp: Command cmd run_round_def handle_runtime_def empty_runtime_def)
  qed
qed

text \<open>
  C40. Configured peers are never contacted. Let the engine send gossip to its members only, begin with none,
  and gain none from a local broadcast. Then nodes started with any peers, run with any seeds, woken in
  any order and given any commands, never send a datagram: no cluster forms.
\<close>

theorem peers_never_contacted:
  fixes num_members :: "'f \<Rightarrow> nat"
  assumes gossip: "\<And>f r f' rt. num_members f = 0 \<Longrightarrow> fl_gossip lib f = (r, f', rt) \<Longrightarrow> num_members f' = 0 \<and> rt_to_send rt = []"
    and add: "\<And>h d f q r f' q'. fl_add_broadcast lib h d f q = (r, f', q') \<Longrightarrow> num_members f' = num_members f"
    and fresh: "\<And>i notify. num_members (fl_with_custom_broadcast lib i notify) = 0"
    and nodes: "\<And>c. c \<in> set nodes \<Longrightarrow> \<exists>bind random bind_addr peers q. new_cluster lib bind random bind_addr peers q = Inr c"
    and run: "(net_move lib debug)\<^sup>*\<^sup>* \<lparr>nw_nodes = nodes, nw_wire = []\<rparr> N"
  shows "nw_wire N = []"
proof -
  have "silent num_members N"
    using run
  proof (induction rule: rtranclp_induct)
    case base
    have "num_members (cs_foca c) = 0" if "c \<in> set nodes" for c
      using nodes[OF that] fresh new_cluster_Inr(1) by metis
    then show ?case by (simp add: silent_def)
  next
    case (step N N')
    from step(2) show ?case
    proof cases
      case (wake i ev c out printed)
      have "num_members (cs_foca (nw_nodes N ! i)) = 0" "\<And>data. ev \<noteq> Received (Inr data)"
        using step(3) wake(2,3) by (auto simp: silent_def can_wake_def)
      then have "num_members (cs_foca c) = 0 \<and> out = []"
        by (intro silent_round[where num_members = num_members and lib = lib and debug = debug and printed = printed, OF _ _ _ _ wake(4)])
           (use gossip add in blast)+
      then show ?thesis
        using step(3) set_update_subset_insert[of "nw_nodes N" i c] by (auto simp: silent_def wake(1))
    qed
  qed
  then show ?thesis by (simp add: silent_def)
qed

definition small_node :: "u8 \<Rightarrow> (NodeIdentity list \<times> u8 list list, (u64 \<times> string \<times> u32) list) Cluster" where
  "small_node x = \<lparr>cs_foca = ([], []), cs_tx_state = [],
     cs_identity = \<lparr>ni_addr = SocketV4 (Ipv4Addr 10 0 0 x) 9090, ni_id = 7\<rparr>\<rparr>"

lemma small_node_new:
  "new_cluster small_lib (\<lambda>_. Inr ()) 7 (SocketV4 (Ipv4Addr 10 0 0 x) 9090) peers [] = Inr (small_node x)"
  by (simp add: new_cluster_def small_lib_def small_node_def)

theorem peers_never_contacted_witness:
  "\<exists>N. (net_move small_lib (\<lambda>_. []))\<^sup>*\<^sup>* \<lparr>nw_nodes = [small_node 1, small_node 2], nw_wire = []\<rparr> N \<and>
     cs_foca (nw_nodes N ! 0) = ([], [[0, 7, 2, 105, 112, 9]]) \<and> nw_wire N = []"
proof -
  let ?c = "fst (run_round small_lib (\<lambda>_. []) (Command (BroadcastUsage ''ip'' 9)) (small_node 1))"
  let ?N = "\<lparr>nw_nodes = [?c, small_node 2], nw_wire = fst (snd (run_round small_lib (\<lambda>_. []) Tick ?c))\<rparr>"
  have f: "cs_foca ?c = ([], [[0, 7, 2, 105, 112, 9]])" by code_simp
  have out: "fst (snd (run_round small_lib (\<lambda>_. []) (Command (BroadcastUsage ''ip'' 9)) (small_node 1))) = []" by code_simp
  have tick: "fst (run_round small_lib (\<lambda>_. []) Tick ?c) = ?c"
    using f by (simp add: run_round_def small_lib_def split_beta Let_def)
  have 0: "net_move small_lib (\<lambda>_. []) \<lparr>nw_nodes = [small_node 1, small_node 2], nw_wire = []\<rparr> \<lparr>nw_nodes = [?c, small_node 2], nw_wire = []\<rparr>"
    using net_move_round[of 0 "\<lparr>nw_nodes = [small_node 1, small_node 2], nw_wire = []\<rparr>" "Command (BroadcastUsage ''ip'' 9)" small_lib "\<lambda>_. []"]
    by (simp add: can_wake_def out)
  have 1: "net_move small_lib (\<lambda>_. []) \<lparr>nw_nodes = [?c, small_node 2], nw_wire = []\<rparr> ?N"
    using net_move_round[of 0 "\<lparr>nw_nodes = [?c, small_node 2], nw_wire = []\<rparr>" Tick small_lib "\<lambda>_. []"]
    by (simp add: can_wake_def tick)
  have r: "(net_move small_lib (\<lambda>_. []))\<^sup>*\<^sup>* \<lparr>nw_nodes = [small_node 1, small_node 2], nw_wire = []\<rparr> ?N"
    using 0 1 by (meson converse_rtranclp_into_rtranclp r_into_rtranclp)
  have g: "length (fst f') = 0 \<and> rt_to_send rt = []"
    if "length (fst f) = 0" "fl_gossip small_lib f = (r, f', rt)" for f r f' rt
    using that by (cases f) (auto simp: small_lib_def)
  have a: "length (fst f') = length (fst f)" if "fl_add_broadcast small_lib h d f q = (r, f', q')" for h d f q r f' q'
    using that by (cases f) (auto simp: small_lib_def split: prod.splits)
  have n: "length (fst (fl_with_custom_broadcast small_lib i notify)) = 0" for i notify by (simp add: small_lib_def)
  have "\<exists>bind random bind_addr peers q. new_cluster small_lib bind random bind_addr peers q = Inr c"
    if "c \<in> set [small_node 1, small_node 2]" for c
    using that small_node_new by auto metis+
  then have "nw_wire ?N = []"
    by (intro peers_never_contacted[where num_members = "\<lambda>f. length (fst f)" and lib = small_lib, OF _ _ _ _ r])
       (use g a n in blast)+
  then show ?thesis using r f by (intro exI[of _ ?N]) simp
qed

end
