(* ===== verification/Startup.thy ===== *)
theory Startup
  imports Acceptor Health Tls Cluster
begin

text \<open>
  The program as a whole (\<^verbatim>\<open>src/main.rs\<close>): startup from a configuration, the running system of
  services, checkers and cluster actor, and hot reload. The file system, YAML, the environment, the
  sockets and the libraries below them are arguments. Shown here: what startup builds and which error
  ends it, that every service of a running system behaves like a service on its own, what a reload
  changes, and three consequences of how reload is written.
\<close>

section \<open>The system\<close>

text \<open>
  The services in the order of the rules, the map from rule names to balancers (by the position of
  the service), the checker tasks that have been spawned, and the acceptor tasks of each service.
\<close>

record ('net, 'tls) system =
  sy_services :: "('net, 'tls) service list"
  sy_lbs :: "string \<rightharpoonup> nat"
  sy_checkers :: "(nat \<times> string \<times> HealthCheckConfig) list"
  sy_acceptors :: "nat list"

definition empty_system :: "('net, 'tls) system" where
  "empty_system = \<lparr>sy_services = [], sy_lbs = Map.empty, sy_checkers = [], sy_acceptors = []\<rparr>"

text \<open>
  The host: the YAML parser, the two network parsers of access control, the TLS libraries, the number of
  cores, the variable \<open>NUM_ACCEPTORS\<close>, and the result of every socket call for an acceptor of a rule.
\<close>

record ('net, 'file, 'cert, 'key, 'tls) host =
  ho_from_str_yaml :: "string \<Rightarrow> string + Config"
  ho_net_from_str :: "string \<Rightarrow> 'net option"
  ho_net_from_ip :: "IpAddr \<Rightarrow> 'net"
  ho_tls :: "('file, 'cert, 'key, 'tls) tls_lib"
  ho_available_parallelism :: "nat option"
  ho_num_acceptors :: "string option"
  ho_socket_new :: "nat \<Rightarrow> nat \<Rightarrow> io_error + unit"
  ho_set_reuse_address :: "nat \<Rightarrow> nat \<Rightarrow> io_error + unit"
  ho_bind :: "nat \<Rightarrow> nat \<Rightarrow> SocketAddr \<Rightarrow> io_error + unit"
  ho_listen :: "nat \<Rightarrow> nat \<Rightarrow> nat \<Rightarrow> io_error + unit"
  ho_set_nonblocking :: "nat \<Rightarrow> nat \<Rightarrow> io_error + unit"
  ho_from_std :: "nat \<Rightarrow> nat \<Rightarrow> io_error + unit"

datatype boot_error =
    ReadFailed io_error
  | YamlInvalid string
  | ConfigInvalid ConfigError
  | TlsFailed LbError
  | AddressInvalid string
  | SocketFailed io_error

section \<open>Startup\<close>

definition num_acceptors :: "('net, 'file, 'cert, 'key, 'tls) host \<Rightarrow> nat" where
  "num_acceptors host =
     (let default_acceptors = (case ho_available_parallelism host of Some n \<Rightarrow> n | None \<Rightarrow> 4)
      in case Option.bind (ho_num_acceptors host) (parse_uint (2 ^ 64)) of Some n \<Rightarrow> n | None \<Rightarrow> default_acceptors)"

text \<open>\<open>r?\<close> on a socket call.\<close>

definition try_socket :: "io_error + unit \<Rightarrow> (boot_error + 'b) \<Rightarrow> boot_error + 'b" where
  "try_socket r k = (case r of Inl e \<Rightarrow> Inl (SocketFailed e) | Inr _ \<Rightarrow> k)"

text \<open>
  The acceptors \<open>i, i + 1, ..\<close> of a rule, \<open>n\<close> of them: how many are spawned. A socket that cannot be
  handed to the runtime is skipped; every other failure ends startup.
\<close>

fun spawn_acceptors ::
  "('net, 'file, 'cert, 'key, 'tls) host \<Rightarrow> nat \<Rightarrow> SocketAddr \<Rightarrow> nat \<Rightarrow> nat \<Rightarrow> boot_error + nat" where
  "spawn_acceptors host ri addr i 0 = Inr 0"
| "spawn_acceptors host ri addr i (Suc n) =
     try_socket (ho_socket_new host ri i) (
     try_socket (ho_set_reuse_address host ri i) (
     try_socket (ho_bind host ri i addr) (
     try_socket (ho_listen host ri i 1024) (
     try_socket (ho_set_nonblocking host ri i) (
       case spawn_acceptors host ri addr (Suc i) n of
         Inl e \<Rightarrow> Inl e
       | Inr m \<Rightarrow> (case ho_from_std host ri i of Inr _ \<Rightarrow> Inr (Suc m) | Inl e \<Rightarrow> Inr m))))))"

definition rule_tls :: "('net, 'file, 'cert, 'key, 'tls) host \<Rightarrow> LBRule \<Rightarrow> boot_error + 'tls option" where
  "rule_tls host rule =
     (case r_tls rule of
        Some tls_config \<Rightarrow>
          if tls_enabled tls_config
          then (case load_tls_config (ho_tls host) (tls_cert tls_config) (tls_key tls_config) of
                  Inl e \<Rightarrow> Inl (TlsFailed e)
                | Inr acceptor \<Rightarrow> Inr (Some acceptor))
          else Inr None
      | None \<Rightarrow> Inr None)"

definition rule_addr :: "LBRule \<Rightarrow> boot_error + SocketAddr" where
  "rule_addr rule =
     (case parse_socket (r_listen rule) of
        Some a \<Rightarrow> Inr a
      | None \<Rightarrow> Inl (AddressInvalid ''Invalid address: invalid socket address syntax''))"

text \<open>The checkers of a rule: one per configured backend if the rule has a health check, enabled or not.\<close>

definition rule_checkers :: "nat \<Rightarrow> LBRule \<Rightarrow> (nat \<times> string \<times> HealthCheckConfig) list" where
  "rule_checkers i rule =
     (case r_health_check rule of
        Some hc \<Rightarrow> map (\<lambda>b. (i, fst (backend_entry b), hc)) (r_backends rule)
      | None \<Rightarrow> [])"

text \<open>One iteration of the loop over the rules.\<close>

definition boot_rule ::
  "('net, 'file, 'cert, 'key, 'tls) host \<Rightarrow> LBRule \<Rightarrow> ('net, 'tls) system \<Rightarrow> boot_error + ('net, 'tls) system" where
  "boot_rule host rule sys =
     (let i = length (sy_services sys);
          lbs = (sy_lbs sys)(r_name rule \<mapsto> i);
          checkers = sy_checkers sys @ rule_checkers i rule
      in case rule_tls host rule of
           Inl e \<Rightarrow> Inl e
         | Inr tls \<Rightarrow> (case rule_addr rule of
               Inl e \<Rightarrow> Inl e
             | Inr addr \<Rightarrow> (case spawn_acceptors host i addr 0 (num_acceptors host) of
                   Inl e \<Rightarrow> Inl e
                 | Inr n \<Rightarrow> Inr \<lparr>sy_services = sy_services sys @ [new_service (ho_net_from_str host) (ho_net_from_ip host) rule tls],
                              sy_lbs = lbs, sy_checkers = checkers, sy_acceptors = sy_acceptors sys @ [n]\<rparr>)))"

fun boot_rules ::
  "('net, 'file, 'cert, 'key, 'tls) host \<Rightarrow> LBRule list \<Rightarrow> ('net, 'tls) system \<Rightarrow> boot_error + ('net, 'tls) system" where
  "boot_rules host [] sys = Inr sys"
| "boot_rules host (rule # rules) sys =
     (case boot_rule host rule sys of Inl e \<Rightarrow> Inl e | Inr sys1 \<Rightarrow> boot_rules host rules sys1)"

text \<open>Up to the running listeners; the argument is what reading the configuration file returns.\<close>

definition boot ::
  "('net, 'file, 'cert, 'key, 'tls) host \<Rightarrow> io_error + string \<Rightarrow> boot_error + Config \<times> ('net, 'tls) system" where
  "boot host file =
     (case file of
        Inl e \<Rightarrow> Inl (ReadFailed e)
      | Inr content \<Rightarrow> (case ho_from_str_yaml host content of
            Inl e \<Rightarrow> Inl (YamlInvalid e)
          | Inr config \<Rightarrow> (case validate config of
                Inl e \<Rightarrow> Inl (ConfigInvalid e)
              | Inr _ \<Rightarrow> (case boot_rules host (c_rules config) empty_system of
                    Inl e \<Rightarrow> Inl e
                  | Inr sys \<Rightarrow> Inr (config, sys)))))"

text \<open>The cluster actor, started after the listeners; \<open>expect\<close> on an address that does not parse aborts the program.\<close>

datatype ('f, 'q) cluster_start = NoCluster | ClusterPanic string | ClusterFailed io_error | ClusterRunning "('f, 'q) Cluster"

definition start_cluster ::
  "('f, 'q) cluster_lib \<Rightarrow> (SocketAddr \<Rightarrow> io_error + unit) \<Rightarrow> u64 \<Rightarrow> Config \<Rightarrow> 'q \<Rightarrow> ('f, 'q) cluster_start" where
  "start_cluster lib bind random config tx_cluster_state =
     (case c_cluster config of
        None \<Rightarrow> NoCluster
      | Some cluster_config \<Rightarrow>
          if \<not> cl_enabled cluster_config then NoCluster
          else case parse_socket (cl_bind_addr cluster_config) of
            None \<Rightarrow> ClusterPanic ''Invalid cluster bind address''
          | Some bind_addr \<Rightarrow>
              if None \<in> set (map parse_socket (cl_peers cluster_config)) then ClusterPanic ''Invalid seed address''
              else case new_cluster lib bind random bind_addr (List.map_filter parse_socket (cl_peers cluster_config)) tx_cluster_state of
                  Inl e \<Rightarrow> ClusterFailed e
                | Inr cluster \<Rightarrow> ClusterRunning cluster)"

section \<open>Reload\<close>

definition reload_backends :: "BackendConfig list \<Rightarrow> ('net, 'tls) service \<Rightarrow> ('net, 'tls) service" where
  "reload_backends configs sv =
     (case update_backends (sv_lb sv) configs (sv_store sv) of (lb, s) \<Rightarrow> sv\<lparr>sv_lb := lb, sv_store := s\<rparr>)"

text \<open>One rule of the new configuration: a name without a balancer is only warned about.\<close>

definition reload_rule :: "LBRule \<Rightarrow> ('net, 'tls) system \<Rightarrow> ('net, 'tls) system" where
  "reload_rule rule sys =
     (case sy_lbs sys (r_name rule) of
        Some i \<Rightarrow> sys\<lparr>sy_services := (sy_services sys)[i := reload_backends (r_backends rule) (sy_services sys ! i)],
                     sy_checkers := sy_checkers sys @ rule_checkers i rule\<rparr>
      | None \<Rightarrow> sys)"

definition reload :: "(string \<Rightarrow> string + Config) \<Rightarrow> io_error + string \<Rightarrow> ('net, 'tls) system \<Rightarrow> ('net, 'tls) system" where
  "reload from_str_yaml file sys =
     (case file of
        Inl e \<Rightarrow> sys
      | Inr content \<Rightarrow> (case from_str_yaml content of
            Inl e \<Rightarrow> sys
          | Inr new_config \<Rightarrow> fold reload_rule (c_rules new_config) sys))"

text \<open>
  The watcher's callback: only an event of the modify kind wakes the main loop. Each wake reads the file
  as it is then.
\<close>

datatype event_kind = Modify | OtherKind

definition wakes :: "string + event_kind \<Rightarrow> bool" where
  "wakes res = (case res of Inr k \<Rightarrow> k = Modify | Inl e \<Rightarrow> False)"

fun main_loop ::
  "(string \<Rightarrow> string + Config) \<Rightarrow> ((string + event_kind) \<times> (io_error + string)) list \<Rightarrow> ('net, 'tls) system \<Rightarrow> ('net, 'tls) system" where
  "main_loop from_str_yaml [] sys = sys"
| "main_loop from_str_yaml ((res, file) # events) sys =
     main_loop from_str_yaml events (if wakes res then reload from_str_yaml file sys else sys)"

section \<open>What startup builds\<close>

text \<open>What a rule needs beyond its configuration: the TLS acceptor, a valid address and the listening sockets.\<close>

definition rule_boot :: "('net, 'file, 'cert, 'key, 'tls) host \<Rightarrow> nat \<Rightarrow> LBRule \<Rightarrow> boot_error + 'tls option \<times> nat" where
  "rule_boot host i rule =
     (case rule_tls host rule of
        Inl e \<Rightarrow> Inl e
      | Inr tls \<Rightarrow> (case rule_addr rule of
            Inl e \<Rightarrow> Inl e
          | Inr addr \<Rightarrow> (case spawn_acceptors host i addr 0 (num_acceptors host) of
                Inl e \<Rightarrow> Inl e
              | Inr n \<Rightarrow> Inr (tls, n))))"

lemma boot_rule_eq:
  "boot_rule host rule sys =
     (case rule_boot host (length (sy_services sys)) rule of
        Inl e \<Rightarrow> Inl e
      | Inr (tls, n) \<Rightarrow> Inr \<lparr>sy_services = sy_services sys @ [new_service (ho_net_from_str host) (ho_net_from_ip host) rule tls],
          sy_lbs = (sy_lbs sys)(r_name rule \<mapsto> length (sy_services sys)),
          sy_checkers = sy_checkers sys @ rule_checkers (length (sy_services sys)) rule, sy_acceptors = sy_acceptors sys @ [n]\<rparr>)"
  by (simp add: boot_rule_def rule_boot_def Let_def split: sum.split)

definition boots :: "('net, 'file, 'cert, 'key, 'tls) host \<Rightarrow> nat \<Rightarrow> LBRule list \<Rightarrow> boot_error + ('tls option \<times> nat) list" where
  "boots host k rules = collect (map (\<lambda>(i, r). rule_boot host i r) (enumerate k rules))"

definition all_checkers :: "nat \<Rightarrow> LBRule list \<Rightarrow> (nat \<times> string \<times> HealthCheckConfig) list" where
  "all_checkers k rules = concat (map (\<lambda>(i, r). rule_checkers i r) (enumerate k rules))"

definition all_services ::
  "('net, 'file, 'cert, 'key, 'tls) host \<Rightarrow> LBRule list \<Rightarrow> ('tls option \<times> nat) list \<Rightarrow> ('net, 'tls) service list" where
  "all_services host rules xs =
     map (\<lambda>(r, tls, n). new_service (ho_net_from_str host) (ho_net_from_ip host) r tls) (zip rules xs)"

text \<open>The loop over the rules succeeds when every rule has what it needs.\<close>

lemma boot_rules_eq:
  "boot_rules host rules sys =
     (case boots host (length (sy_services sys)) rules of
        Inl e \<Rightarrow> Inl e
      | Inr xs \<Rightarrow> Inr \<lparr>sy_services = sy_services sys @ all_services host rules xs,
          sy_lbs = (sy_lbs sys)(map r_name rules [\<mapsto>] [length (sy_services sys)..<length (sy_services sys) + length rules]),
          sy_checkers = sy_checkers sys @ all_checkers (length (sy_services sys)) rules,
          sy_acceptors = sy_acceptors sys @ map snd xs\<rparr>)"
proof (induction rules arbitrary: sys)
  case (Cons rule rules)
  show ?case
  proof (cases "rule_boot host (length (sy_services sys)) rule")
    case (Inr x)
    then show ?thesis
      by (cases x)
         (simp add: boot_rule_eq Cons.IH boots_def all_services_def all_checkers_def upt_conv_Cons fun_upd_def del: upt_Suc split: sum.split)
  qed (simp add: boot_rule_eq boots_def)
qed (simp add: boots_def all_services_def all_checkers_def)

lemma boots_Inr: "boots host k rules = Inr xs \<longleftrightarrow>
    length xs = length rules \<and> (\<forall>j < length rules. rule_boot host (k + j) (rules ! j) = Inr (xs ! j))"
  unfolding boots_def collect_Inr list_eq_iff_nth_eq by (auto simp: nth_enumerate_eq)

lemma boots_Inl: "boots host k rules = Inl e \<longleftrightarrow>
    (\<exists>j < length rules. rule_boot host (k + j) (rules ! j) = Inl e \<and> (\<forall>i < j. \<exists>x. rule_boot host (k + i) (rules ! i) = Inr x))"
proof (induction rules arbitrary: k)
  case (Cons r rs)
  have split: "(\<exists>j < Suc n. P j) \<longleftrightarrow> P 0 \<or> (\<exists>j < n. P (Suc j))" "(\<forall>i < Suc j. Q i) \<longleftrightarrow> Q 0 \<and> (\<forall>i < j. Q (Suc i))" for n j and P Q :: "nat \<Rightarrow> bool"
    by (auto simp: less_Suc_eq_0_disj)
  show ?case
  proof (cases "rule_boot host k r")
    case (Inl d)
    then show ?thesis by (auto simp: boots_def split)
  next
    case (Inr x)
    have "boots host k (r # rs) = Inl e \<longleftrightarrow> boots host (Suc k) rs = Inl e"
      using Inr by (simp add: boots_def split: sum.split)
    then show ?thesis using Inr by (simp add: Cons.IH split)
  qed
qed (simp add: boots_def)

lemma rule_boot_Inr:
  "rule_boot host i rule = Inr x \<longleftrightarrow> rule_tls host rule = Inr (fst x) \<and>
     (\<exists>addr. rule_addr rule = Inr addr \<and> spawn_acceptors host i addr 0 (num_acceptors host) = Inr (snd x))"
  by (cases x) (auto simp: rule_boot_def split: sum.split)

lemma rule_boot_Inl:
  "rule_boot host i rule = Inl e \<longleftrightarrow>
     rule_tls host rule = Inl e \<or>
     (\<exists>tls. rule_tls host rule = Inr tls \<and>
        (rule_addr rule = Inl e \<or>
         (\<exists>addr. rule_addr rule = Inr addr \<and> spawn_acceptors host i addr 0 (num_acceptors host) = Inl e)))"
  by (auto simp: rule_boot_def split: sum.split)

lemma boot_Inr:
  "boot host file = Inr (config, sys) \<longleftrightarrow>
     (\<exists>content xs. file = Inr content \<and> ho_from_str_yaml host content = Inr config \<and> validate config = Inr () \<and>
        boots host 0 (c_rules config) = Inr xs \<and>
        sys = \<lparr>sy_services = all_services host (c_rules config) xs,
          sy_lbs = Map.empty(map r_name (c_rules config) [\<mapsto>] [0..<length (c_rules config)]),
          sy_checkers = all_checkers 0 (c_rules config), sy_acceptors = map snd xs\<rparr>)"
  by (auto simp: boot_def boot_rules_eq empty_system_def split: sum.splits)

text \<open>A later rule takes the name of an earlier one.\<close>

lemma names_snoc:
  "Map.empty(ks @ [k] [\<mapsto>] [0..<length (ks @ [k])]) = (Map.empty(ks [\<mapsto>] [0..<length ks]))(k \<mapsto> length ks)"
  by (simp add: map_upds_def)

lemma names_last:
  "(Map.empty(ks [\<mapsto>] [0..<length ks])) k = Some i \<Longrightarrow>
     i < length ks \<and> ks ! i = k \<and> (\<forall>j < length ks. i < j \<longrightarrow> ks ! j \<noteq> k)"
proof (induction ks arbitrary: i rule: rev_induct)
  case (snoc a ks)
  show ?case
  proof (cases "k = a")
    case True
    then show ?thesis using snoc.prems unfolding names_snoc by (auto simp: nth_append)
  next
    case False
    then have "(Map.empty(ks [\<mapsto>] [0..<length ks])) k = Some i" using snoc.prems unfolding names_snoc by simp
    from snoc.IH[OF this] False show ?thesis by (auto simp: nth_append)
  qed
qed simp

lemma names_distinct: "distinct ks \<Longrightarrow> i < length ks \<Longrightarrow> (Map.empty(ks [\<mapsto>] [0..<length ks])) (ks ! i) = Some i"
proof (induction ks rule: rev_induct)
  case (snoc a ks)
  then show ?case unfolding names_snoc by (cases "i < length ks") (auto simp: nth_append)
qed simp

text \<open>
  C32. Startup succeeds exactly when the file is read, parses and is valid and every rule finds its TLS
  material, a valid address and its sockets; then there is one service per rule, built from that rule
  alone, one checker per backend of every rule with a health check, and each name stands for the last
  rule that has it.
\<close>

theorem boot_ok:
  "boot host file = Inr (config, sys) \<longleftrightarrow>
     (\<exists>content xs. file = Inr content \<and> ho_from_str_yaml host content = Inr config \<and>
        c_rules config \<noteq> [] \<and> list_all rule_ok (c_rules config) \<and>
        length xs = length (c_rules config) \<and>
        (\<forall>j < length xs. rule_tls host (c_rules config ! j) = Inr (fst (xs ! j)) \<and>
           (\<exists>addr. rule_addr (c_rules config ! j) = Inr addr \<and>
              spawn_acceptors host j addr 0 (num_acceptors host) = Inr (snd (xs ! j)))) \<and>
        sys = \<lparr>sy_services = map (\<lambda>(r, tls, n). new_service (ho_net_from_str host) (ho_net_from_ip host) r tls) (zip (c_rules config) xs),
          sy_lbs = Map.empty(map r_name (c_rules config) [\<mapsto>] [0..<length (c_rules config)]),
          sy_checkers = concat (map (\<lambda>(i, r). rule_checkers i r) (enumerate 0 (c_rules config))), sy_acceptors = map snd xs\<rparr>)"
  unfolding rule_boot_Inr[symmetric] boot_Inr validate_iff boots_Inr all_services_def all_checkers_def add_0 by metis

text \<open>
  C33. The error that ends startup is the first one, in the order of the program: reading the file, YAML,
  validation, then the rules one after the other, and of a rule the TLS material, the address and the
  sockets of its acceptors; a rule is reached only if every rule before it was started, and a later
  fault is not reported.
\<close>

theorem boot_error:
  "boot host file = Inl e \<longleftrightarrow>
     (\<exists>d. file = Inl d \<and> e = ReadFailed d) \<or>
     (\<exists>content d. file = Inr content \<and> ho_from_str_yaml host content = Inl d \<and> e = YamlInvalid d) \<or>
     (\<exists>content config. file = Inr content \<and> ho_from_str_yaml host content = Inr config \<and>
        ((\<exists>d. validate config = Inl d \<and> e = ConfigInvalid d) \<or>
         validate config = Inr () \<and>
         (\<exists>j < length (c_rules config).
            (rule_tls host (c_rules config ! j) = Inl e \<or>
             (\<exists>tls. rule_tls host (c_rules config ! j) = Inr tls \<and>
                (rule_addr (c_rules config ! j) = Inl e \<or>
                 (\<exists>addr. rule_addr (c_rules config ! j) = Inr addr \<and>
                    spawn_acceptors host j addr 0 (num_acceptors host) = Inl e)))) \<and>
            (\<forall>i < j. \<exists>x. rule_tls host (c_rules config ! i) = Inr (fst x) \<and>
               (\<exists>addr. rule_addr (c_rules config ! i) = Inr addr \<and>
                  spawn_acceptors host i addr 0 (num_acceptors host) = Inr (snd x))))))"
proof -
  have rules: "boot_rules host rules empty_system = Inl e \<longleftrightarrow>
      (\<exists>j < length rules. rule_boot host j (rules ! j) = Inl e \<and> (\<forall>i < j. \<exists>x. rule_boot host i (rules ! i) = Inr x))" for rules
  proof -
    have "boot_rules host rules empty_system = Inl e \<longleftrightarrow> boots host 0 rules = Inl e"
      by (simp add: boot_rules_eq empty_system_def split: sum.split)
    then show ?thesis by (simp only: boots_Inl add_0)
  qed
  have "boot host file = Inl e \<longleftrightarrow>
     (\<exists>d. file = Inl d \<and> e = ReadFailed d) \<or>
     (\<exists>content d. file = Inr content \<and> ho_from_str_yaml host content = Inl d \<and> e = YamlInvalid d) \<or>
     (\<exists>content config. file = Inr content \<and> ho_from_str_yaml host content = Inr config \<and>
        ((\<exists>d. validate config = Inl d \<and> e = ConfigInvalid d) \<or>
         validate config = Inr () \<and> boot_rules host (c_rules config) empty_system = Inl e))"
    by (auto simp: boot_def split: sum.split)
  then show ?thesis unfolding rules rule_boot_Inl rule_boot_Inr .
qed

section \<open>What a reload changes\<close>

lemma reload_backends_step: "service_step contains (Reload configs) sv = reload_backends configs sv"
  by (simp add: reload_backends_def)

lemma reload_rule_frame [simp]:
  "sy_lbs (reload_rule r sys) = sy_lbs sys" "sy_acceptors (reload_rule r sys) = sy_acceptors sys"
  "length (sy_services (reload_rule r sys)) = length (sy_services sys)"
  by (simp_all add: reload_rule_def split: option.split)

lemma reload_rules_frame [simp]:
  "sy_lbs (fold reload_rule rs sys) = sy_lbs sys" "sy_acceptors (fold reload_rule rs sys) = sy_acceptors sys"
  "length (sy_services (fold reload_rule rs sys)) = length (sy_services sys)"
  by (induction rs arbitrary: sys) simp_all

lemma reload_rules_service:
  "i < length (sy_services sys) \<Longrightarrow> sy_services (fold reload_rule rs sys) ! i =
     fold reload_backends (map r_backends (filter (\<lambda>r. sy_lbs sys (r_name r) = Some i) rs)) (sy_services sys ! i)"
proof (induction rs arbitrary: sys)
  case (Cons r rs)
  then show ?case by (auto simp: reload_rule_def nth_list_update split: option.split)
qed simp

lemma reload_rules_checkers:
  "sy_checkers (fold reload_rule rs sys) = sy_checkers sys @
     concat (map (\<lambda>r. case sy_lbs sys (r_name r) of Some i \<Rightarrow> rule_checkers i r | None \<Rightarrow> []) rs)"
proof (induction rs arbitrary: sys)
  case (Cons r rs)
  then show ?case by (simp add: reload_rule_def split: option.split)
qed simp

lemma reload_frame [simp]:
  "sy_lbs (reload yaml file sys) = sy_lbs sys" "sy_acceptors (reload yaml file sys) = sy_acceptors sys"
  "length (sy_services (reload yaml file sys)) = length (sy_services sys)"
  by (simp_all add: reload_def split: sum.split)

lemma reload_backends_fold:
  "fold (\<lambda>r. reload_backends (r_backends r)) rs sv =
     (let (lb, st) = fold (\<lambda>r (lb, st). update_backends lb (r_backends r) st) rs (sv_lb sv, sv_store sv)
      in sv\<lparr>sv_lb := lb, sv_store := st\<rparr>)"
proof (induction rs arbitrary: sv)
  case (Cons r rs)
  then show ?case by (simp add: reload_backends_def split_beta Let_def)
qed simp

lemma reload_rules_services:
  "sy_services (fold reload_rule rules sys) = map (\<lambda>i. fold (\<lambda>r. reload_backends (r_backends r))
     (filter (\<lambda>r. sy_lbs sys (r_name r) = Some i) rules) (sy_services sys ! i)) [0..<length (sy_services sys)]"
  by (rule nth_equalityI) (simp_all add: reload_rules_service fold_map comp_def)

text \<open>
  C34. What a reload changes. For each service the rules that its name stands for, in the order of the new
  file, update the balancer and its backends, and nothing else of the service: clients, open connections,
  rate and bandwidth limits stay. Each of these rules that has a health check also adds a checker per
  configured backend to those that run. Names and acceptors stay, so a new rule is not served. A file that
  cannot be read or parsed changes nothing.
\<close>

theorem reload_effect:
  "reload yaml file sys =
     (case file of
        Inl e \<Rightarrow> sys
      | Inr content \<Rightarrow> (case yaml content of
            Inl e \<Rightarrow> sys
          | Inr config \<Rightarrow> sys\<lparr>
              sy_services := map (\<lambda>i.
                let sv = sy_services sys ! i;
                    (lb, st) = fold (\<lambda>r (lb, st). update_backends lb (r_backends r) st)
                      (filter (\<lambda>r. sy_lbs sys (r_name r) = Some i) (c_rules config)) (sv_lb sv, sv_store sv)
                in sv\<lparr>sv_lb := lb, sv_store := st\<rparr>) [0..<length (sy_services sys)],
              sy_checkers := sy_checkers sys @ concat (map (\<lambda>r.
                case (sy_lbs sys (r_name r), r_health_check r) of
                  (Some i, Some hc) \<Rightarrow> map (\<lambda>b. (i, case b of Simple a \<Rightarrow> a | Detailed a d \<Rightarrow> a, hc)) (r_backends r)
                | _ \<Rightarrow> []) (c_rules config))\<rparr>))"
proof -
  have entry: "fst (backend_entry b) = (case b of Simple a \<Rightarrow> a | Detailed a d \<Rightarrow> a)" for b by (cases b) simp_all
  have checkers: "(case sy_lbs sys (r_name r) of Some i \<Rightarrow> rule_checkers i r | None \<Rightarrow> []) =
      (case (sy_lbs sys (r_name r), r_health_check r) of
         (Some i, Some hc) \<Rightarrow> map (\<lambda>b. (i, case b of Simple a \<Rightarrow> a | Detailed a d \<Rightarrow> a, hc)) (r_backends r) | _ \<Rightarrow> [])" for r
    by (simp add: rule_checkers_def entry split: option.split)
  have "fold reload_rule rules sys = sys\<lparr>
      sy_services := map (\<lambda>i. fold (\<lambda>r. reload_backends (r_backends r))
        (filter (\<lambda>r. sy_lbs sys (r_name r) = Some i) rules) (sy_services sys ! i)) [0..<length (sy_services sys)],
      sy_checkers := sy_checkers sys @ concat (map (\<lambda>r. case sy_lbs sys (r_name r) of Some i \<Rightarrow> rule_checkers i r | None \<Rightarrow> []) rules)\<rparr>" for rules
    by (rule system.equality) (simp_all add: reload_rules_services reload_rules_checkers)
  then show ?thesis unfolding reload_def checkers reload_backends_fold Let_def by (simp only: split: sum.split)
qed

text \<open>
  C35. Reload does not validate. A file that takes all backends of a rule is refused at startup and accepted by
  a reload, which leaves the rule without backends: every task of the rule then ends without a backend
  and without any effect.
\<close>

theorem reload_accepts_invalid:
  assumes "yaml content = Inr config" "c_rules config = before @ rule # after" "r_backends rule = []"
    and "sy_lbs sys (r_name rule) = Some i" "i < length (sy_services sys)"
    and "\<forall>r \<in> set after. sy_lbs sys (r_name r) \<noteq> Some i"
    and "sv = sy_services (reload yaml (Inr content) sys) ! i"
  shows "validate config \<noteq> Inr () \<and> start_task now client local sv = sv"
proof -
  have "sv = fold reload_backends (map r_backends (filter (\<lambda>r. sy_lbs sys (r_name r) = Some i) (c_rules config))) (sy_services sys ! i)"
    using assms(5) by (simp add: assms(1,7) reload_def reload_rules_service)
  then have "\<exists>sv0. sv = reload_backends [] sv0" using assms(6) by (auto simp: assms(2-4))
  then have "lb_backends (sv_lb sv) = []" by (auto simp: reload_backends_def update_backends_def)
  then have "start_task now client local sv = sv" by (simp add: start_task_def next_backend_def)
  moreover have "validate config \<noteq> Inr ()" using assms(2,3) by (simp add: validate_iff rule_ok_def)
  ultimately show ?thesis by blast
qed

text \<open>The checkers that a reload of the rules adds, for a system whose names are those of the same rules.\<close>

lemma reload_same_checkers:
  assumes "distinct (map r_name rules)" "sy_lbs sys = Map.empty(map r_name rules [\<mapsto>] [0..<length rules])"
  shows "sy_checkers (fold reload_rule rules sys) = sy_checkers sys @ all_checkers 0 rules"
proof -
  have "sy_lbs sys (r_name (rules ! i)) = Some i" if "i < length rules" for i
    using names_distinct[OF assms(1), of i] that by (simp add: assms(2))
  then have "map (\<lambda>r. case sy_lbs sys (r_name r) of Some i \<Rightarrow> rule_checkers i r | None \<Rightarrow> []) rules =
      map (\<lambda>(i, r). rule_checkers i r) (enumerate 0 rules)"
    by (intro nth_equalityI) (simp_all add: nth_enumerate_eq)
  then show ?thesis by (simp add: reload_rules_checkers all_checkers_def)
qed

lemma main_loop_checkers:
  assumes "yaml content = Inr config" "distinct (map r_name (c_rules config))"
    and "sy_lbs sys = Map.empty(map r_name (c_rules config) [\<mapsto>] [0..<length (c_rules config)])"
  shows "count_list (sy_checkers (main_loop yaml (replicate n (Inr Modify, Inr content)) sys)) x =
    count_list (sy_checkers sys) x + n * count_list (all_checkers 0 (c_rules config)) x"
  using assms(3)
proof (induction n arbitrary: sys)
  case (Suc n)
  then show ?case
    using Suc.IH[of "fold reload_rule (c_rules config) sys"] reload_same_checkers[OF assms(2) Suc.prems]
    by (simp add: wakes_def reload_def assms(1))
qed simp

text \<open>
  C36. Every reload spawns the checkers of the file again and none is ever stopped: after \<open>n\<close> reloads of an
  unchanged file with distinct rule names every checker runs \<open>n + 1\<close> times.
\<close>

theorem checkers_multiply:
  assumes "boot host (Inr content) = Inr (config, sys)" "distinct (map r_name (c_rules config))"
  shows "count_list (sy_checkers (main_loop (ho_from_str_yaml host) (replicate n (Inr Modify, Inr content)) sys)) x =
    Suc n * count_list (sy_checkers sys) x"
proof -
  have yaml: "ho_from_str_yaml host content = Inr config" and ch: "sy_checkers sys = all_checkers 0 (c_rules config)"
    and lbs: "sy_lbs sys = Map.empty(map r_name (c_rules config) [\<mapsto>] [0..<length (c_rules config)])"
    using assms(1) unfolding boot_Inr by auto
  show ?thesis using main_loop_checkers[where yaml = "ho_from_str_yaml host", OF yaml assms(2) lbs, of n x] by (simp add: ch)
qed

lemma main_loop_unnamed:
  assumes "i \<notin> ran (sy_lbs sys)" "i < length (sy_services sys)"
  shows "sy_services (main_loop yaml events sys) ! i = sy_services sys ! i"
  using assms
proof (induction events arbitrary: sys)
  case (Cons ev events)
  obtain res f where ev: "ev = (res, f)" by (cases ev)
  have "filter (\<lambda>r. sy_lbs sys (r_name r) = Some i) rs = []" for rs :: "LBRule list"
    using Cons.prems(1) by (auto simp: filter_empty_conv ran_def)
  then have "sy_services (reload yaml f sys) ! i = sy_services sys ! i"
    using Cons.prems(2) by (simp add: reload_def reload_rules_service split: sum.split)
  then show ?case using Cons.IH[of "reload yaml f sys"] Cons.IH[of sys] Cons.prems by (simp add: ev)
qed simp

text \<open>
  C37. Of two rules with one name, the first is served but never reloaded: whatever happens to the file, its
  service stays as it is.
\<close>

theorem shadowed_rule_never_reloaded:
  assumes "boot host file = Inr (config, sys)" "i < j" "j < length (c_rules config)"
    and "r_name (c_rules config ! i) = r_name (c_rules config ! j)"
  shows "sy_services (main_loop yaml events sys) ! i = sy_services sys ! i"
proof (rule main_loop_unnamed)
  let ?names = "map r_name (c_rules config)"
  have lbs: "sy_lbs sys = Map.empty(?names [\<mapsto>] [0..<length ?names])" and len: "length (sy_services sys) = length (c_rules config)"
    using assms(1) unfolding boot_Inr by (auto simp: all_services_def boots_Inr)
  show "i \<notin> ran (sy_lbs sys)"
  proof
    assume "i \<in> ran (sy_lbs sys)"
    then obtain k where "(Map.empty(?names [\<mapsto>] [0..<length ?names])) k = Some i" unfolding lbs ran_def by blast
    from names_last[OF this] show False using assms(2-4) by auto
  qed
  show "i < length (sy_services sys)" using assms(2,3) len by simp
qed

section \<open>The running system\<close>

text \<open>
  What happens to a running system: something on the side of the clients of one service, a round of a
  checker, or an event of the watcher. A checker uses the address and the settings it was spawned with.
\<close>

datatype ('tls, 'c, 's, 'sock) system_event =
    Client nat "('tls, 'c, 's) service_event"
  | Check nat "'sock sockets" "duration \<Rightarrow> bool"
  | Watch "string + event_kind" "io_error + string"

fun client_event :: "('tls, 'c, 's) service_event \<Rightarrow> bool" where
  "client_event (Accept _ _ _) = True"
| "client_event (Start _ _ _) = True"
| "client_event (Finish _ _ _ _) = True"
| "client_event (Reload _) = False"
| "client_event (Report _ _) = False"

definition report_check ::
  "'sock sockets \<Rightarrow> (duration \<Rightarrow> bool) \<Rightarrow> string \<Rightarrow> HealthCheckConfig \<Rightarrow> ('net, 'tls) service \<Rightarrow> ('net, 'tls) service" where
  "report_check net in_time addr config sv = sv\<lparr>sv_store := health_round net in_time (sv_lb sv) addr config (sv_store sv)\<rparr>"

fun system_step ::
  "(string \<Rightarrow> string + Config) \<Rightarrow> ('net \<Rightarrow> IpAddr \<Rightarrow> bool) \<Rightarrow> ('tls, 'c, 's, 'sock) system_event \<Rightarrow>
   ('net, 'tls) system \<Rightarrow> ('net, 'tls) system" where
  "system_step yaml contains (Client i e) sys =
     (if client_event e then sys\<lparr>sy_services := (sy_services sys)[i := service_step contains e (sy_services sys ! i)]\<rparr> else sys)"
| "system_step yaml contains (Check k net in_time) sys =
     (if k < length (sy_checkers sys)
      then case sy_checkers sys ! k of (i, addr, config) \<Rightarrow>
             sys\<lparr>sy_services := (sy_services sys)[i := report_check net in_time addr config (sy_services sys ! i)]\<rparr>
      else sys)"
| "system_step yaml contains (Watch res file) sys = main_loop yaml [(res, file)] sys"

text \<open>The share of service \<open>j\<close> in an event.\<close>

fun service_share ::
  "(string \<Rightarrow> string + Config) \<Rightarrow> nat \<Rightarrow> ('tls, 'c, 's, 'sock) system_event \<Rightarrow> ('net, 'tls) system \<Rightarrow> ('tls, 'c, 's) service_event list" where
  "service_share yaml j (Client i e) sys = (if client_event e \<and> i = j then [e] else [])"
| "service_share yaml j (Check k net in_time) sys =
     (if k < length (sy_checkers sys)
      then case sy_checkers sys ! k of (i, addr, config) \<Rightarrow> if i = j then [Report addr (check_res net in_time addr config)] else []
      else [])"
| "service_share yaml j (Watch res file) sys =
     (if wakes res
      then case file of
             Inl e \<Rightarrow> []
           | Inr content \<Rightarrow> (case yaml content of
                 Inl e \<Rightarrow> []
               | Inr config \<Rightarrow> map (\<lambda>r. Reload (r_backends r)) (filter (\<lambda>r. sy_lbs sys (r_name r) = Some j) (c_rules config)))
      else [])"

lemma system_step_length: "length (sy_services (system_step yaml contains e sys)) = length (sy_services sys)"
  by (cases e) (simp_all add: split_beta)

lemma reload_events:
  "service_run contains (map (\<lambda>r. Reload (r_backends r)) rs) sv = fold reload_backends (map r_backends rs) sv"
  by (induction rs arbitrary: sv) (simp_all add: reload_backends_step del: service_step.simps)

lemma system_step_service:
  assumes "j < length (sy_services sys)"
  shows "sy_services (system_step yaml contains e sys) ! j =
    fold (service_step contains) (service_share yaml j e sys) (sy_services sys ! j)"
proof (cases e)
  case (Client i ev)
  then show ?thesis using assms by (simp add: nth_list_update)
next
  case (Check k net in_time)
  then show ?thesis using assms by (auto simp: nth_list_update report_check_def health_round_def split: prod.split)
next
  case (Watch res f)
  then show ?thesis
    using assms by (simp add: reload_def reload_rules_service reload_events del: service_step.simps split: sum.split)
qed

interpretation sys: simulation "system_step yaml contains" "service_share yaml j" "service_step contains"
  "\<lambda>s. sy_services s ! j" "\<lambda>s. j < length (sy_services s)" for yaml contains j
  by unfold_locales (simp_all add: system_step_service system_step_length)

lemma system_service:
  assumes "boot host file = Inr (config, sys)" "j < length (c_rules config)"
  shows "\<exists>tls. rule_tls host (c_rules config ! j) = Inr tls \<and>
    sy_services (fold (system_step yaml contains) es sys) ! j =
      service_run contains (history (system_step yaml contains) (service_share yaml j) es sys)
        (new_service (ho_net_from_str host) (ho_net_from_ip host) (c_rules config ! j) tls)"
proof -
  obtain xs where xs: "boots host 0 (c_rules config) = Inr xs" and sv: "sy_services sys = all_services host (c_rules config) xs"
    using assms(1) unfolding boot_Inr by auto
  obtain tls n where x: "xs ! j = (tls, n)" by (cases "xs ! j")
  then have "rule_boot host j (c_rules config ! j) = Inr (tls, n)" and len: "length xs = length (c_rules config)"
    using xs assms(2) by (auto simp: boots_Inr)
  then have "rule_tls host (c_rules config ! j) = Inr tls" by (auto simp: rule_boot_def split: sum.splits)
  moreover have "sy_services sys ! j = new_service (ho_net_from_str host) (ho_net_from_ip host) (c_rules config ! j) tls"
    and "j < length (sy_services sys)"
    using assms(2) x len by (simp_all add: sv all_services_def)
  ultimately show ?thesis using sys.abs_run[of j sys yaml contains es] by metis
qed

text \<open>
  C8. Every service of a running system behaves like a service on its own: after startup and whatever happens
  then, to this service, to others, to checkers and to the file, its state is that of a new service of its
  rule after the events of its share. So what holds of all runs of a service holds in the system.
\<close>

theorem system_refines_services:
  assumes "boot host file = Inr (config, sys)" "j < length (c_rules config)"
  shows "\<exists>tls. rule_tls host (c_rules config ! j) = Inr tls \<and>
    sy_services (fold (system_step yaml contains) es sys) ! j =
      service_run contains (history (system_step yaml contains) (service_share yaml j) es sys)
        (new_service (ho_net_from_str host) (ho_net_from_ip host) (c_rules config ! j) tls)"
  using assms by (rule system_service)

section \<open>A system in operation\<close>

text \<open>Rules that differ in their names, on a host where everything works and that has two cores.\<close>

definition sample_config :: "string list \<Rightarrow> Config" where
  "sample_config names = \<lparr>c_rules = map (\<lambda>n. sample_rule\<lparr>r_name := n, r_health_check := Some sample_check\<rparr>) names,
     c_cluster = None, c_log = None\<rparr>"

definition sample_host :: "string list \<Rightarrow> (cidr, unit, unit, unit, unit) host" where
  "sample_host names = \<lparr>
     ho_from_str_yaml = (\<lambda>s. if s = ''rules'' then Inr (sample_config names) else Inl ''bad''),
     ho_net_from_str = cidr_from_str, ho_net_from_ip = cidr_from_ip,
     ho_tls = \<lparr>tl_open = (\<lambda>_. Inr ()), tl_certs = (\<lambda>_. []), tl_pkcs8_private_keys = (\<lambda>_. []), tl_with_single_cert = (\<lambda>_ _. Inr ())\<rparr>,
     ho_available_parallelism = Some 2, ho_num_acceptors = None,
     ho_socket_new = (\<lambda>_ _. Inr ()), ho_set_reuse_address = (\<lambda>_ _. Inr ()), ho_bind = (\<lambda>_ _ _. Inr ()),
     ho_listen = (\<lambda>_ _ _. Inr ()), ho_set_nonblocking = (\<lambda>_ _. Inr ()), ho_from_std = (\<lambda>_ _. Inr ())\<rparr>"

definition sample_system :: "string list \<Rightarrow> (cidr, unit) system" where
  "sample_system names = \<lparr>sy_services = map (\<lambda>r. new_service cidr_from_str cidr_from_ip r None) (c_rules (sample_config names)),
     sy_lbs = Map.empty(names [\<mapsto>] [0..<length names]), sy_checkers = all_checkers 0 (c_rules (sample_config names)),
     sy_acceptors = replicate (length names) 2\<rparr>"

lemma sample_addr: "parse_socket ''0.0.0.0:80'' = Some (SocketV4 (Ipv4Addr 0 0 0 0) 80)"
proof -
  have "display4 (Ipv4Addr 0 0 0 0) @ '':'' @ string_of_nat (unat (80 :: u16)) = ''0.0.0.0:80''" by code_simp
  then show ?thesis using parse_socket_display4[of "Ipv4Addr 0 0 0 0" 80] by simp
qed

lemma sample_rule_boot: "rule_boot (sample_host names) i (sample_rule\<lparr>r_name := n, r_health_check := h\<rparr>) = Inr (None, 2)"
  by (simp add: rule_boot_def rule_tls_def rule_addr_def sample_rule_def sample_addr num_acceptors_def sample_host_def
      numeral_2_eq_2 try_socket_def)

lemma sample_boots: "boots (sample_host names) k (c_rules (sample_config names)) = Inr (replicate (length names) (None, 2))"
  unfolding boots_Inr by (simp add: sample_config_def sample_rule_boot)

lemma sample_boot:
  assumes "names \<noteq> []"
  shows "boot (sample_host names) (Inr ''rules'') = Inr (sample_config names, sample_system names)"
proof -
  have "validate (sample_config names) = Inr ()"
    using assms by (simp add: validate_iff sample_config_def list_all_iff rule_ok_def sample_rule_def)
  moreover have "all_services (sample_host names) (c_rules (sample_config names)) (replicate (length names) (None, 2)) = sy_services (sample_system names)"
    by (rule nth_equalityI) (simp_all add: all_services_def sample_system_def sample_config_def sample_host_def)
  moreover have "map r_name (c_rules (sample_config names)) = names" by (simp add: sample_config_def comp_def)
  moreover have "length (c_rules (sample_config names)) = length names" by (simp add: sample_config_def)
  ultimately show ?thesis
    unfolding boot_Inr using sample_boots[of names 0] by (simp add: sample_system_def) (simp add: sample_host_def)
qed

theorem boot_ok_witness:
  "list_all rule_ok (c_rules (sample_config [''app'', ''web''])) \<and>
   sy_acceptors (sample_system [''app'', ''web'']) = [2, 2] \<and>
   sy_lbs (sample_system [''app'', ''web'']) = [''app'' \<mapsto> 0, ''web'' \<mapsto> 1]"
proof -
  have "boot (sample_host [''app'', ''web'']) (Inr ''rules'') = Inr (sample_config [''app'', ''web''], sample_system [''app'', ''web''])"
    by (rule sample_boot) simp
  from this[unfolded boot_ok] have "list_all rule_ok (c_rules (sample_config [''app'', ''web'']))"
    and "sy_lbs (sample_system [''app'', ''web'']) =
      Map.empty(map r_name (c_rules (sample_config [''app'', ''web''])) [\<mapsto>] [0..<length (c_rules (sample_config [''app'', ''web'']))])" by auto
  then show ?thesis by (simp add: sample_config_def sample_system_def numeral_2_eq_2)
qed

text \<open>Of three rules the second and the third have bad addresses; the second is reported.\<close>

definition faulty_host :: "(cidr, unit, unit, unit, unit) host" where
  "faulty_host = (sample_host [])\<lparr>ho_from_str_yaml := (\<lambda>_. Inr \<lparr>c_rules = [sample_rule\<lparr>r_name := ''a'', r_health_check := None\<rparr>,
     sample_rule\<lparr>r_listen := ''x''\<rparr>, sample_rule\<lparr>r_listen := ''y''\<rparr>], c_cluster = None, c_log = None\<rparr>)\<rparr>"

theorem boot_error_witness:
  "boot faulty_host (Inr ''rules'') = Inl (AddressInvalid ''Invalid address: invalid socket address syntax'')"
proof -
  let ?rules = "[sample_rule\<lparr>r_name := ''a'', r_health_check := None\<rparr>, sample_rule\<lparr>r_listen := ''x''\<rparr>, sample_rule\<lparr>r_listen := ''y''\<rparr>]"
  let ?config = "\<lparr>c_rules = ?rules, c_cluster = None, c_log = None\<rparr>"
  have valid: "validate ?config = Inr ()" by (simp add: validate_iff rule_ok_def sample_rule_def)
  have bad: "rule_boot faulty_host 1 (?rules ! 1) = Inl (AddressInvalid ''Invalid address: invalid socket address syntax'')"
  proof -
    have "parse_socket ''x'' = None" by code_simp
    then show ?thesis by (simp add: rule_boot_def rule_tls_def rule_addr_def sample_rule_def)
  qed
  have ok: "\<forall>i < 1. \<exists>x. rule_boot faulty_host i (?rules ! i) = Inr x"
    by (simp add: rule_boot_def rule_tls_def rule_addr_def sample_rule_def sample_addr num_acceptors_def faulty_host_def sample_host_def
        numeral_2_eq_2 try_socket_def)
  have yaml: "ho_from_str_yaml faulty_host ''rules'' = Inr ?config" by (simp add: faulty_host_def)
  have "\<exists>j < length ?rules. rule_boot faulty_host j (?rules ! j) = Inl (AddressInvalid ''Invalid address: invalid socket address syntax'') \<and>
      (\<forall>i < j. \<exists>x. rule_boot faulty_host i (?rules ! i) = Inr x)"
    using bad ok by (intro exI[of _ 1]) simp
  then show ?thesis
    unfolding boot_error rule_boot_Inl[symmetric] rule_boot_Inr[symmetric] using yaml valid by (intro disjI2 exI[of _ "''rules''"] exI[of _ ?config]) simp
qed

theorem reload_accepts_invalid_witness:
  "let yaml = (\<lambda>_. Inr \<lparr>c_rules = [sample_rule\<lparr>r_backends := []\<rparr>], c_cluster = None, c_log = None\<rparr>);
       sv = sy_services (reload yaml (Inr []) (sample_system [''app''])) ! 0
   in start_task sample_readings sample_client (Inr sample_client) sv = sv"
  unfolding Let_def
  by (rule conjunct2[OF reload_accepts_invalid[where before = "[]" and after = "[]" and i = 0 and config = "\<lparr>c_rules = [sample_rule\<lparr>r_backends := []\<rparr>], c_cluster = None, c_log = None\<rparr>"
        and rule = "sample_rule\<lparr>r_backends := []\<rparr>" and sys = "sample_system [''app'']", OF refl _ _ _ _ _ refl]])
     (simp_all add: sample_system_def sample_config_def sample_rule_def)

theorem checkers_multiply_witness:
  "count_list (sy_checkers (main_loop (ho_from_str_yaml (sample_host [''app''])) (replicate 2 (Inr Modify, Inr ''rules'')) (sample_system [''app''])))
     (0, ''a'', sample_check) = 3"
proof -
  have "count_list (sy_checkers (sample_system [''app''])) (0, ''a'', sample_check) = 1"
    by (simp add: sample_system_def sample_config_def all_checkers_def rule_checkers_def sample_rule_def)
  then show ?thesis
    using checkers_multiply[OF sample_boot, of "[''app'']" 2 "(0, ''a'', sample_check)"] by (simp add: sample_config_def)
qed

theorem shadowed_rule_never_reloaded_witness:
  "sy_services (main_loop (ho_from_str_yaml (sample_host [''app''])) [(Inr Modify, Inr ''rules'')] (sample_system [''app'', ''app''])) ! 0 =
     sy_services (sample_system [''app'', ''app'']) ! 0"
  by (rule shadowed_rule_never_reloaded[OF sample_boot, of _ 0 1]) (simp_all add: sample_config_def)

definition sample_run :: "(unit, unit, unit, unit) system_event list" where
  "sample_run = [Client 0 (Accept 1 1 sample_client), Watch (Inr Modify) (Inr ''rules''), Client 1 (Accept 2 2 sample_client)]"

definition sample_share :: "(unit, unit, unit) service_event list" where
  "sample_share = [Reload [Simple ''a'', Simple ''b''], Accept 2 2 sample_client]"

theorem system_refines_services_witness:
  "\<exists>tls. sy_services (fold (system_step (ho_from_str_yaml (sample_host [''app'', ''web''])) cidr_contains) sample_run (sample_system [''app'', ''web''])) ! 1 =
      service_run cidr_contains sample_share (new_service cidr_from_str cidr_from_ip (c_rules (sample_config [''app'', ''web'']) ! 1) tls)"
proof -
  let ?host = "sample_host [''app'', ''web'']" and ?sys = "sample_system [''app'', ''web'']"
  have hist: "history (system_step (ho_from_str_yaml ?host) cidr_contains) (service_share (ho_from_str_yaml ?host) 1) sample_run ?sys = sample_share"
    by (simp add: wakes_def sample_run_def sample_share_def) (simp add: sample_host_def sample_system_def sample_config_def sample_rule_def)
  have net: "ho_net_from_str ?host = cidr_from_str" "ho_net_from_ip ?host = cidr_from_ip" by (simp_all add: sample_host_def)
  have "1 < length (c_rules (sample_config [''app'', ''web'']))" by (simp add: sample_config_def)
  from system_refines_services[OF sample_boot[OF list.distinct(2)] this, of "ho_from_str_yaml ?host" cidr_contains sample_run]
  show ?thesis unfolding hist net by blast
qed

end
