(* ===== verification/Program.thy ===== *)
theory Program
  imports Startup
begin

text \<open>
  The process (\<^verbatim>\<open>src/main.rs\<close>): the system of \<^verbatim>\<open>Startup\<close> together with everything else that \<open>main\<close>
  starts, which is the cluster actor and the consumer of its updates, the metrics server, and the watcher
  with the channel that wakes the main loop. Channels, sockets and libraries are arguments. Shown here:
  how startup ends, that the tasks beside the services do not affect them, and that every change of the
  configuration file takes effect with the next turn of the main loop.
\<close>

section \<open>Surroundings\<close>

text \<open>
  Beside the host: reading a file, the gossip engine, the state channel between the actor and its
  consumer (\<open>mpsc::channel\<close> and \<open>recv\<close>, where \<open>None\<close> is an empty channel), the wake channel between the
  watcher and the main loop (sending gives \<open>None\<close> when it has to wait for room), and the results of
  creating the watcher, of watching a path and of binding the metrics port.
\<close>

record ('net, 'file, 'cert, 'key, 'tls, 'f, 'q, 'w) outside =
  ou_host :: "('net, 'file, 'cert, 'key, 'tls) host"
  ou_read_to_string :: "string \<Rightarrow> io_error + string"
  ou_cluster :: "('f, 'q) cluster_lib"
  ou_debug :: "NodeIdentity \<Rightarrow> string"
  ou_udp_bind :: "SocketAddr \<Rightarrow> io_error + unit"
  ou_random :: u64
  ou_state_channel :: "nat \<Rightarrow> 'q"
  ou_state_recv :: "'q \<Rightarrow> ((u64 \<times> string \<times> u32) \<times> 'q) option"
  ou_tcp_bind :: "SocketAddr \<Rightarrow> io_error + unit"
  ou_wake_channel :: "nat \<Rightarrow> 'w"
  ou_wake_send :: "'w \<Rightarrow> 'w option"
  ou_wake_recv :: "'w \<Rightarrow> 'w option"
  ou_watcher_new :: "string + unit"
  ou_watch :: "string \<Rightarrow> string + unit"
  ou_format_type :: string

section \<open>The process\<close>

text \<open>
  The state of the process: the system, the cluster actor, the lines its consumer has logged and the
  datagrams it has sent, the streams the metrics server has accepted (\<open>None\<close> without a server) and its
  responses, the wake channel, and what reading the configuration file would return.
\<close>

record ('net, 'tls, 'f, 'q, 'w, 'io) process =
  pc_system :: "('net, 'tls) system"
  pc_cluster :: "('f, 'q) cluster_start"
  pc_updates :: "string list"
  pc_sent :: "(SocketAddr \<times> u8 list) list"
  pc_scrapers :: "'io list option"
  pc_responses :: "http_response list"
  pc_wakeups :: 'w
  pc_file :: "io_error + string"

text \<open>The option \<open>--config\<close> with its default, and the level that is the default filter of the logger.\<close>

definition config_path :: "string option \<Rightarrow> string" where
  "config_path arg = (case arg of Some p \<Rightarrow> p | None \<Rightarrow> ''lb.yaml'')"

definition log_level :: "Config \<Rightarrow> string" where
  "log_level config = (case c_log config of Some log_config \<Rightarrow> lg_level log_config | None \<Rightarrow> ''info'')"

definition metrics_addr :: SocketAddr where
  "metrics_addr = SocketV4 (Ipv4Addr 0 0 0 0) 9091"

text \<open>A metrics port that is taken leaves the process without a server.\<close>

definition start_metrics :: "(SocketAddr \<Rightarrow> io_error + unit) \<Rightarrow> 'io list option" where
  "start_metrics bind = (case bind metrics_addr of Inl e \<Rightarrow> None | Inr _ \<Rightarrow> Some [])"

definition metrics_accept :: "io_error + 'io \<Rightarrow> 'io list option \<Rightarrow> 'io list option" where
  "metrics_accept r server =
     (case server of
        None \<Rightarrow> None
      | Some served \<Rightarrow> (case r of Inr stream \<Rightarrow> Some (served @ [stream]) | Inl e \<Rightarrow> Some served))"

datatype main_exit = BootFailed boot_error | ClusterAborted string | WatcherFailed string

definition start_watcher :: "('net, 'file, 'cert, 'key, 'tls, 'f, 'q, 'w) outside \<Rightarrow> string \<Rightarrow> main_exit + unit" where
  "start_watcher out path =
     (case ou_watcher_new out of
        Inl e \<Rightarrow> Inl (WatcherFailed e)
      | Inr _ \<Rightarrow> (case ou_watch out path of Inl e \<Rightarrow> Inl (WatcherFailed e) | Inr _ \<Rightarrow> Inr ()))"

text \<open>\<open>main\<close> up to its loop: configuration and listeners, cluster, metrics server, watcher.\<close>

definition start_process ::
  "('net, 'file, 'cert, 'key, 'tls, 'f, 'q, 'w) outside \<Rightarrow> string option \<Rightarrow> main_exit + ('net, 'tls, 'f, 'q, 'w, 'io) process" where
  "start_process out arg =
     (let path = config_path arg
      in case boot (ou_host out) (ou_read_to_string out path) of
           Inl e \<Rightarrow> Inl (BootFailed e)
         | Inr (config, sys) \<Rightarrow>
             (let cluster = start_cluster (ou_cluster out) (ou_udp_bind out) (ou_random out) config (ou_state_channel out 1000)
              in case cluster of
                   ClusterPanic e \<Rightarrow> Inl (ClusterAborted e)
                 | _ \<Rightarrow> (case start_watcher out path of
                       Inl e \<Rightarrow> Inl e
                     | Inr _ \<Rightarrow> Inr \<lparr>pc_system = sys, pc_cluster = cluster, pc_updates = [], pc_sent = [],
                           pc_scrapers = start_metrics (ou_tcp_bind out), pc_responses = [],
                           pc_wakeups = ou_wake_channel out 1, pc_file = ou_read_to_string out path\<rparr>)))"

section \<open>The tasks of the process\<close>

definition update_line :: "u64 \<times> string \<times> u32 \<Rightarrow> string" where
  "update_line = (\<lambda>(node_id, key, usage).
     ''Cluster Update: Node '' @ string_of_nat (unat node_id) @ '' Key '' @ key @ '' Usage '' @ string_of_nat (unat usage))"

text \<open>One turn of the consumer: it logs an update and does nothing else with it.\<close>

definition consume_update ::
  "('q \<Rightarrow> ((u64 \<times> string \<times> u32) \<times> 'q) option) \<Rightarrow> ('net, 'tls, 'f, 'q, 'w, 'io) process \<Rightarrow> ('net, 'tls, 'f, 'q, 'w, 'io) process" where
  "consume_update recv p =
     (case pc_cluster p of
        ClusterRunning c \<Rightarrow> (case recv (cs_tx_state c) of
            Some (u, q) \<Rightarrow> p\<lparr>pc_cluster := ClusterRunning (c\<lparr>cs_tx_state := q\<rparr>), pc_updates := pc_updates p @ [update_line u]\<rparr>
          | None \<Rightarrow> p)
      | _ \<Rightarrow> p)"

text \<open>
  One turn of the actor. The sending end of its command channel is kept by \<open>main\<close> and never used, so
  the actor is woken by its timer and its socket only.
\<close>

definition cluster_turn ::
  "('f, 'q) cluster_lib \<Rightarrow> (NodeIdentity \<Rightarrow> string) \<Rightarrow> cluster_event \<Rightarrow>
   ('net, 'tls, 'f, 'q, 'w, 'io) process \<Rightarrow> ('net, 'tls, 'f, 'q, 'w, 'io) process" where
  "cluster_turn lib debug ev p =
     (case (pc_cluster p, ev) of
        (ClusterRunning c, Command _) \<Rightarrow> p
      | (ClusterRunning c, _) \<Rightarrow>
          (let (c1, sent, printed) = run_round lib debug ev c
           in p\<lparr>pc_cluster := ClusterRunning c1, pc_sent := pc_sent p @ sent\<rparr>)
      | _ \<Rightarrow> p)"

text \<open>The callback of the watcher; one that has to wait for room in the channel has not happened yet.\<close>

definition watch_callback ::
  "('w \<Rightarrow> 'w option) \<Rightarrow> string + event_kind \<Rightarrow> ('net, 'tls, 'f, 'q, 'w, 'io) process \<Rightarrow> ('net, 'tls, 'f, 'q, 'w, 'io) process" where
  "watch_callback send res p =
     (if wakes res then (case send (pc_wakeups p) of Some w \<Rightarrow> p\<lparr>pc_wakeups := w\<rparr> | None \<Rightarrow> p) else p)"

text \<open>One turn of the main loop: it takes a wake-up and reads the file as it is then.\<close>

definition main_turn ::
  "('w \<Rightarrow> 'w option) \<Rightarrow> (string \<Rightarrow> string + Config) \<Rightarrow> ('net, 'tls, 'f, 'q, 'w, 'io) process \<Rightarrow> ('net, 'tls, 'f, 'q, 'w, 'io) process" where
  "main_turn recv yaml p =
     (case recv (pc_wakeups p) of
        Some w \<Rightarrow> p\<lparr>pc_wakeups := w, pc_system := reload yaml (pc_file p) (pc_system p)\<rparr>
      | None \<Rightarrow> p)"

datatype ('tls, 'c, 's, 'sock, 'io) process_event =
    SystemEvent "('tls, 'c, 's, 'sock) system_event"
  | FileWritten "io_error + string"
  | Callback "string + event_kind"
  | MainTurn
  | ClusterTurn cluster_event
  | ConsumerTurn
  | MetricsAccept "io_error + 'io"
  | Scrape nat "string + u8 list"

text \<open>Clients and checkers act on the system; its watcher events come from the main loop alone.\<close>

fun outer_event :: "('tls, 'c, 's, 'sock) system_event \<Rightarrow> bool" where
  "outer_event (Watch _ _) = False"
| "outer_event _ = True"

fun process_step ::
  "('net, 'file, 'cert, 'key, 'tls, 'f, 'q, 'w) outside \<Rightarrow> ('net \<Rightarrow> IpAddr \<Rightarrow> bool) \<Rightarrow>
   ('tls, 'c, 's, 'sock, 'io) process_event \<Rightarrow> ('net, 'tls, 'f, 'q, 'w, 'io) process \<Rightarrow> ('net, 'tls, 'f, 'q, 'w, 'io) process" where
  "process_step out contains (SystemEvent e) p =
     (if outer_event e then p\<lparr>pc_system := system_step (ho_from_str_yaml (ou_host out)) contains e (pc_system p)\<rparr> else p)"
| "process_step out contains (FileWritten f) p = p\<lparr>pc_file := f\<rparr>"
| "process_step out contains (Callback res) p = watch_callback (ou_wake_send out) res p"
| "process_step out contains MainTurn p = main_turn (ou_wake_recv out) (ho_from_str_yaml (ou_host out)) p"
| "process_step out contains (ClusterTurn ev) p = cluster_turn (ou_cluster out) (ou_debug out) ev p"
| "process_step out contains ConsumerTurn p = consume_update (ou_state_recv out) p"
| "process_step out contains (MetricsAccept r) p = p\<lparr>pc_scrapers := metrics_accept r (pc_scrapers p)\<rparr>"
| "process_step out contains (Scrape i encoded) p =
     (case pc_scrapers p of
        Some served \<Rightarrow> if i < length served then p\<lparr>pc_responses := pc_responses p @ [metrics_handler (ou_format_type out) encoded]\<rparr> else p
      | None \<Rightarrow> p)"

abbreviation process_run ::
  "('net, 'file, 'cert, 'key, 'tls, 'f, 'q, 'w) outside \<Rightarrow> ('net \<Rightarrow> IpAddr \<Rightarrow> bool) \<Rightarrow>
   ('tls, 'c, 's, 'sock, 'io) process_event list \<Rightarrow> ('net, 'tls, 'f, 'q, 'w, 'io) process \<Rightarrow> ('net, 'tls, 'f, 'q, 'w, 'io) process" where
  "process_run out contains es p \<equiv> fold (process_step out contains) es p"

section \<open>How startup ends\<close>

lemma start_process_Inr:
  assumes "start_process out arg = Inr p"
  shows "\<exists>config. boot (ou_host out) (ou_read_to_string out (config_path arg)) = Inr (config, pc_system p) \<and>
    pc_cluster p = start_cluster (ou_cluster out) (ou_udp_bind out) (ou_random out) config (ou_state_channel out 1000) \<and>
    (\<forall>e. pc_cluster p \<noteq> ClusterPanic e) \<and> ou_watcher_new out = Inr () \<and> ou_watch out (config_path arg) = Inr () \<and>
    pc_wakeups p = ou_wake_channel out 1"
  using assms by (auto simp: start_process_def start_watcher_def Let_def split: sum.splits cluster_start.splits)

text \<open>
  Startup fails in the order of the program; the listeners already accept connections when the cluster
  or the watcher ends it.
\<close>

lemma start_process_Inl:
  "start_process out arg = Inl x \<longleftrightarrow>
     (\<exists>e. boot (ou_host out) (ou_read_to_string out (config_path arg)) = Inl e \<and> x = BootFailed e) \<or>
     (\<exists>config sys. boot (ou_host out) (ou_read_to_string out (config_path arg)) = Inr (config, sys) \<and>
        (let cluster = start_cluster (ou_cluster out) (ou_udp_bind out) (ou_random out) config (ou_state_channel out 1000)
         in (\<exists>e. cluster = ClusterPanic e \<and> x = ClusterAborted e) \<or>
            (\<forall>e. cluster \<noteq> ClusterPanic e) \<and>
            (\<exists>e. (ou_watcher_new out = Inl e \<or> ou_watcher_new out = Inr () \<and> ou_watch out (config_path arg) = Inl e) \<and>
               x = WatcherFailed e)))"
  by (auto simp: start_process_def start_watcher_def Let_def split: sum.splits cluster_start.splits)

section \<open>The services run on their own\<close>

fun process_share ::
  "('net, 'file, 'cert, 'key, 'tls, 'f, 'q, 'w) outside \<Rightarrow>
   ('tls, 'c, 's, 'sock, 'io) process_event \<Rightarrow> ('net, 'tls, 'f, 'q, 'w, 'io) process \<Rightarrow> ('tls, 'c, 's, 'sock) system_event list" where
  "process_share out (SystemEvent e) p = (if outer_event e then [e] else [])"
| "process_share out MainTurn p = (if ou_wake_recv out (pc_wakeups p) = None then [] else [Watch (Inr Modify) (pc_file p)])"
| "process_share out _ p = []"

lemma process_step_system:
  "pc_system (process_step out contains e p) =
     fold (system_step (ho_from_str_yaml (ou_host out)) contains) (process_share out e p) (pc_system p)"
  by (cases e)
     (simp_all add: watch_callback_def main_turn_def cluster_turn_def consume_update_def wakes_def Let_def split_beta
       split: option.split cluster_start.split cluster_event.split)

interpretation prc: simulation "process_step out contains" "process_share out"
  "system_step (ho_from_str_yaml (ou_host out)) contains" pc_system "\<lambda>_. True" for out contains
  by unfold_locales (rule process_step_system, rule TrueI)

lemmas process_run_system = prc.abs_run[OF TrueI]

lemma process_service:
  fixes es :: "('tls, 'c, 's, 'sock, 'io) process_event list" and p :: "('net, 'tls, 'f, 'q, 'w, 'io) process"
  assumes "start_process out arg = Inr p"
  shows "\<exists>config. boot (ou_host out) (ou_read_to_string out (config_path arg)) = Inr (config, pc_system p) \<and>
    (\<forall>j < length (c_rules config). \<exists>tls. \<exists>events :: ('tls, 'c, 's) service_event list.
       sy_services (pc_system (process_run out contains es p)) ! j =
         service_run contains events
           (new_service (ho_net_from_str (ou_host out)) (ho_net_from_ip (ou_host out)) (c_rules config ! j) tls))"
proof -
  obtain config where config: "boot (ou_host out) (ou_read_to_string out (config_path arg)) = Inr (config, pc_system p)"
    using start_process_Inr[OF assms] by blast
  then show ?thesis unfolding process_run_system using system_service[OF config] by blast
qed

section \<open>Changes of the file take effect\<close>

text \<open>
  A configuration is in force when every service that it names has exactly the configured backends and drain
  flags, in their order. Of several rules with one name the last counts.
\<close>

definition in_force :: "Config \<Rightarrow> ('net, 'tls) system \<Rightarrow> bool" where
  "in_force config sys \<longleftrightarrow> (\<forall>before rule after i.
     c_rules config = before @ rule # after \<longrightarrow> sy_lbs sys (r_name rule) = Some i \<longrightarrow> i < length (sy_services sys) \<longrightarrow>
     (\<forall>r \<in> set after. sy_lbs sys (r_name r) \<noteq> Some i) \<longrightarrow> distinct (addrs (r_backends rule)) \<longrightarrow>
     listing (world_of (sy_services sys ! i)) = map backend_entry (r_backends rule))"

definition wf_services :: "('net, 'tls) system \<Rightarrow> bool" where
  "wf_services sys \<longleftrightarrow> list_all (\<lambda>sv. wf_world (world_of sv)) (sy_services sys)"

lemma wf_service_run: "wf_world (world_of sv) \<Longrightarrow> wf_world (world_of (service_run contains es sv))"
  unfolding service_run_world using lbs.steps_inv[OF lb_moves_run] by blast

lemma wf_reload_backends: "wf_world (world_of sv) \<Longrightarrow> wf_world (world_of (reload_backends cs sv))"
  using wf_service_run[of sv _ "[Reload cs]"] by (simp add: reload_backends_step del: service_step.simps)

lemma wf_fold_reload: "wf_world (world_of sv) \<Longrightarrow> wf_world (world_of (fold reload_backends css sv))"
  by (induction css arbitrary: sv) (simp_all add: wf_reload_backends)

lemma reload_in_force:
  assumes "wf_services sys" "yaml content = Inr config"
  shows "in_force config (reload yaml (Inr content) sys)"
  unfolding in_force_def
proof (intro allI impI)
  fix before after :: "LBRule list" and rule i
  let ?sys = "reload yaml (Inr content) sys"
  assume rules: "c_rules config = before @ rule # after" "sy_lbs ?sys (r_name rule) = Some i" "i < length (sy_services ?sys)"
    "\<forall>r \<in> set after. sy_lbs ?sys (r_name r) \<noteq> Some i" "distinct (addrs (r_backends rule))"
  let ?sv = "fold reload_backends (map r_backends (filter (\<lambda>r. sy_lbs sys (r_name r) = Some i) before)) (sy_services sys ! i)"
  have "filter (\<lambda>r. sy_lbs sys (r_name r) = Some i) after = []" using rules(4) by (simp add: filter_empty_conv)
  then have sv: "sy_services ?sys ! i = reload_backends (r_backends rule) ?sv"
    using rules(2,3) reload_rules_service[of i sys "c_rules config"] by (simp add: reload_def assms(2)) (simp add: rules(1))
  have "wf_world (world_of ?sv)" using assms(1) rules(3) by (intro wf_fold_reload) (simp add: wf_services_def list_all_length)
  then have "refs_ok (lb_backends (w_lb (world_of ?sv))) (heap (world_of ?sv))" by (rule wf_worldD(1))
  moreover have "world_of (reload_backends (r_backends rule) ?sv) = lb_step (Update_backends (r_backends rule)) (world_of ?sv)"
    by (simp add: world_of_def reload_backends_def split_beta)
  ultimately show "listing (world_of (sy_services ?sys ! i)) = map backend_entry (r_backends rule)"
    unfolding sv using listing_updated rules(5) by metis
qed

lemma wf_boot:
  assumes "boot host file = Inr (config, sys)"
  shows "wf_services sys"
proof -
  have "wf_world (world_of (new_service from_str from_ip rule tls))" for from_str from_ip rule tls
    unfolding world_of_new_service by (rule wf_init_world)
  then show ?thesis using assms unfolding boot_Inr by (auto simp: wf_services_def all_services_def list_all_iff)
qed

text \<open>Nothing but a reload changes what is in force.\<close>

lemma listing_service_step:
  assumes "\<And>cs. e \<noteq> Reload cs"
  shows "listing (world_of (service_step contains e sv)) = listing (world_of sv)"
  unfolding service_step_world using assms by (cases e) (simp_all add: listing_kept del: lb_step.simps)

lemma outer_event_in_force:
  assumes "outer_event e" "in_force config sys"
  shows "in_force config (system_step yaml contains e sys)"
proof -
  have same: "sy_lbs (system_step yaml contains e sys) = sy_lbs sys"
    using assms(1) by (cases e) (simp_all add: split_beta)
  have "listing (world_of (sy_services (system_step yaml contains e sys) ! i)) = listing (world_of (sy_services sys ! i))"
    if "i < length (sy_services sys)" for i
  proof (cases e)
    case (Client j ev)
    have "\<And>cs. ev \<noteq> Reload cs" if "client_event ev" using that by auto
    then show ?thesis using that by (cases "j = i") (simp_all add: Client listing_service_step del: service_step.simps)
  next
    case (Check k net in_time)
    have report: "listing (world_of (report_check net in_time a c sv)) = listing (world_of sv)" for a c sv
    proof -
      have "world_of (report_check net in_time a c sv) = lb_step (Set_backend_health a (check_res net in_time a c)) (world_of sv)"
        by (simp add: world_of_def report_check_def health_round_def)
      then show ?thesis by (simp add: listing_kept del: lb_step.simps)
    qed
    show ?thesis using that by (cases "fst (sy_checkers sys ! k) = i") (simp_all add: Check report split_beta)
  qed (use assms(1) in simp)
  then show ?thesis using assms(2) unfolding in_force_def same system_step_length by metis
qed

text \<open>
  The invariant of a run in which the file stays as it is: a wake-up is pending, unless the file is in force
  already.
\<close>

definition catching_up ::
  "('net, 'file, 'cert, 'key, 'tls, 'f, 'q, 'w) outside \<Rightarrow> string \<Rightarrow> Config \<Rightarrow> ('net, 'tls, 'f, 'q, 'w, 'io) process \<Rightarrow> bool" where
  "catching_up out content config p \<longleftrightarrow> pc_file p = Inr content \<and> wf_services (pc_system p) \<and>
     (ou_wake_recv out (pc_wakeups p) = None \<longrightarrow> in_force config (pc_system p))"

definition caught_up :: "string \<Rightarrow> Config \<Rightarrow> ('net, 'tls, 'f, 'q, 'w, 'io) process \<Rightarrow> bool" where
  "caught_up content config p \<longleftrightarrow> pc_file p = Inr content \<and> wf_services (pc_system p) \<and> in_force config (pc_system p)"

lemma wf_system_step: "wf_services sys \<Longrightarrow> wf_services (system_step yaml contains e sys)"
  unfolding wf_services_def list_all_length system_step_length by (simp add: system_step_service wf_service_run)

lemma wf_process_step: "wf_services (pc_system p) \<Longrightarrow> wf_services (pc_system (process_step out contains e p))"
proof -
  have "wf_services (fold (system_step yaml contains) es sys)" if "wf_services sys" for yaml contains es sys
    using that by (induction es arbitrary: sys) (simp_all add: wf_system_step)
  then show "wf_services (pc_system p) \<Longrightarrow> ?thesis" unfolding process_step_system .
qed

lemma wf_process_run: "wf_services (pc_system p) \<Longrightarrow> wf_services (pc_system (process_run out contains es p))"
  by (induction es arbitrary: p) (simp_all add: wf_process_step del: process_step.simps)

lemma process_step_file: "\<not> (\<exists>f. e = FileWritten f) \<Longrightarrow> pc_file (process_step out contains e p) = pc_file p"
  by (cases e)
     (auto simp: watch_callback_def main_turn_def cluster_turn_def consume_update_def Let_def split_beta
       split: option.split cluster_start.split cluster_event.split)

lemma process_step_wakeups:
  assumes "\<And>w. ou_wake_recv out (case ou_wake_send out w of Some w' \<Rightarrow> w' | None \<Rightarrow> w) \<noteq> None" "e \<noteq> MainTurn"
    "ou_wake_recv out (pc_wakeups p) \<noteq> None"
  shows "ou_wake_recv out (pc_wakeups (process_step out contains e p)) \<noteq> None"
  using assms(2,3) assms(1)[of "pc_wakeups p"]
  by (cases e)
     (auto simp: watch_callback_def cluster_turn_def consume_update_def Let_def split_beta
       split: option.splits cluster_start.split cluster_event.split)

text \<open>A turn of the main loop reads the file if a wake-up is pending; everything else keeps what is in force.\<close>

lemma main_turn_catches_up:
  assumes "ho_from_str_yaml (ou_host out) content = Inr config" "catching_up out content config p"
  shows "caught_up content config (process_step out contains MainTurn p)"
proof -
  have "in_force config (reload (ho_from_str_yaml (ou_host out)) (pc_file p) (pc_system p))"
    using assms(2) reload_in_force[where yaml = "ho_from_str_yaml (ou_host out)", OF _ assms(1), of "pc_system p"] by (simp add: catching_up_def)
  moreover have "wf_services (pc_system (process_step out contains MainTurn p))"
    by (rule wf_process_step) (use assms(2) in \<open>simp add: catching_up_def\<close>)
  ultimately show ?thesis using assms(2) by (auto simp: catching_up_def caught_up_def main_turn_def split: option.splits)
qed

lemma caught_up_step:
  assumes "ho_from_str_yaml (ou_host out) content = Inr config" "caught_up content config p" "\<not> (\<exists>f. e = FileWritten f)"
  shows "caught_up content config (process_step out contains e p)"
proof (cases "e = MainTurn")
  case True
  have "catching_up out content config p" using assms(2) by (simp add: caught_up_def catching_up_def)
  then show ?thesis unfolding True by (rule main_turn_catches_up[OF assms(1)])
next
  case False
  have "in_force config (pc_system (process_step out contains e p))"
    unfolding process_step_system using False assms(2) by (cases e) (simp_all add: caught_up_def outer_event_in_force)
  then show ?thesis
    using assms(2) process_step_file[OF assms(3), of out contains p] wf_process_step[of p out contains e] by (simp add: caught_up_def)
qed

lemma caught_up_run:
  assumes "ho_from_str_yaml (ou_host out) content = Inr config" "caught_up content config p" "\<And>f. FileWritten f \<notin> set es"
  shows "caught_up content config (process_run out contains es p)"
  using assms(2,3)
proof (induction es arbitrary: p)
  case (Cons e es)
  have "caught_up content config (process_step out contains e p)"
    by (rule caught_up_step[OF assms(1) Cons.prems(1)]) (use Cons.prems(2) in auto)
  then show ?case using Cons by simp
qed simp

lemma catching_up_run:
  assumes "\<And>w. ou_wake_recv out (case ou_wake_send out w of Some w' \<Rightarrow> w' | None \<Rightarrow> w) \<noteq> None"
    and "ho_from_str_yaml (ou_host out) content = Inr config"
    and "catching_up out content config p" "\<And>f. FileWritten f \<notin> set es"
  shows "catching_up out content config (process_run out contains es p)"
  using assms(3,4)
proof (induction es arbitrary: p)
  case (Cons e es)
  have e: "\<not> (\<exists>f. e = FileWritten f)" using Cons.prems(2) by auto
  have "catching_up out content config (process_step out contains e p)"
  proof (cases "in_force config (pc_system p) \<or> e = MainTurn")
    case True
    have "caught_up content config (process_step out contains e p)"
    proof (cases "e = MainTurn")
      case False
      then have "caught_up content config p" using True Cons.prems(1) by (simp add: caught_up_def catching_up_def)
      then show ?thesis by (rule caught_up_step[OF assms(2) _ e])
    qed (use main_turn_catches_up[OF assms(2) Cons.prems(1)] in blast)
    then show ?thesis by (simp add: caught_up_def catching_up_def)
  next
    case False
    then have "ou_wake_recv out (pc_wakeups p) \<noteq> None" using Cons.prems(1) by (auto simp: catching_up_def)
    from process_step_wakeups[OF assms(1) _ this, of e contains] False show ?thesis
      using Cons.prems(1) process_step_file[OF e, of out contains p] wf_process_step[of p out contains e] by (auto simp: catching_up_def)
  qed
  then show ?case using Cons by simp
qed simp

text \<open>
  C6. Every change of the file takes effect with the next turn of the main loop. Let a process have been
  started, let anything happen, and let the watcher report a modification after which the file is not
  written again. Whatever happens then, after the first turn of the main loop the configuration in the file
  is in force and stays so: each service that it names has exactly its backends and drain flags. Of the
  channel this needs that an attempt to send, which either sends or finds it full, leaves something to
  receive.
\<close>

theorem changes_take_effect:
  assumes "\<And>w. ou_wake_recv out (case ou_wake_send out w of Some w' \<Rightarrow> w' | None \<Rightarrow> w) \<noteq> None"
    and "start_process out arg = Inr p0" "p = process_run out contains es p0"
    and "pc_file p = Inr content" "ho_from_str_yaml (ou_host out) content = Inr config"
    and "\<And>f. FileWritten f \<notin> set es'" "MainTurn \<in> set es'"
  shows "in_force config (pc_system (process_run out contains (Callback (Inr Modify) # es') p))"
proof -
  obtain config0 where "boot (ou_host out) (ou_read_to_string out (config_path arg)) = Inr (config0, pc_system p0)"
    using start_process_Inr[OF assms(2)] by blast
  then have "wf_services (pc_system p0)" by (rule wf_boot)
  then have "wf_services (pc_system p)" unfolding assms(3) by (rule wf_process_run)
  then have start: "catching_up out content config (process_step out contains (Callback (Inr Modify)) p)"
    using assms(1)[of "pc_wakeups p"] assms(4)
    by (auto simp: catching_up_def watch_callback_def wakes_def split: option.splits)
  obtain xs ys where es': "es' = xs @ MainTurn # ys" using split_list[OF assms(7)] by blast
  have none: "\<And>f. FileWritten f \<notin> set xs" "\<And>f. FileWritten f \<notin> set ys" using assms(6) by (auto simp: es')
  from caught_up_run[OF assms(5) main_turn_catches_up[OF assms(5) catching_up_run[OF assms(1,5) start none(1)]] none(2)]
  show ?thesis by (simp add: es' caught_up_def)
qed

section \<open>A process in operation\<close>

text \<open>A process on the sample host, with a wake channel of one place; the file is then replaced by one with other backends.\<close>

definition edited_config :: Config where
  "edited_config = \<lparr>c_rules = [sample_rule\<lparr>r_backends := [Detailed ''c'' True, Simple ''a'']\<rparr>], c_cluster = None, c_log = None\<rparr>"

definition edited_host :: "(cidr, unit, unit, unit, unit) host" where
  "edited_host = (sample_host [''app''])\<lparr>ho_from_str_yaml := (\<lambda>s. if s = ''rules'' then Inr (sample_config [''app'']) else Inr edited_config)\<rparr>"

definition sample_outside :: "(cidr, unit, unit, unit, unit, NodeIdentity list \<times> u8 list list, (u64 \<times> string \<times> u32) list, nat) outside" where
  "sample_outside = \<lparr>ou_host = edited_host, ou_read_to_string = (\<lambda>_. Inr ''rules''), ou_cluster = small_lib, ou_debug = (\<lambda>_. []),
     ou_udp_bind = (\<lambda>_. Inr ()), ou_random = 7, ou_state_channel = (\<lambda>_. []),
     ou_state_recv = (\<lambda>q. case q of [] \<Rightarrow> None | u # us \<Rightarrow> Some (u, us)), ou_tcp_bind = (\<lambda>_. Inr ()),
     ou_wake_channel = (\<lambda>_. 0), ou_wake_send = (\<lambda>w. if w < 1 then Some (w + 1) else None),
     ou_wake_recv = (\<lambda>w. if 0 < w then Some (w - 1) else None),
     ou_watcher_new = Inr (), ou_watch = (\<lambda>_. Inr ()), ou_format_type = ''text/plain''\<rparr>"

lemma rule_boot_yaml: "rule_boot (host\<lparr>ho_from_str_yaml := y\<rparr>) i rule = rule_boot host i rule"
proof -
  have "spawn_acceptors (host\<lparr>ho_from_str_yaml := y\<rparr>) ri a j n = spawn_acceptors host ri a j n" for ri a j n
    by (induction n arbitrary: j) (simp_all cong: sum.case_cong)
  moreover have "rule_tls (host\<lparr>ho_from_str_yaml := y\<rparr>) rule = rule_tls host rule"
    by (simp add: rule_tls_def split: option.split)
  moreover have "num_acceptors (host\<lparr>ho_from_str_yaml := y\<rparr>) = num_acceptors host" by (simp add: num_acceptors_def)
  ultimately show ?thesis by (simp only: rule_boot_def)
qed

lemma edited_boot: "boot edited_host (Inr ''rules'') = Inr (sample_config [''app''], sample_system [''app''])"
proof -
  have s: "boot (sample_host [''app'']) (Inr ''rules'') = Inr (sample_config [''app''], sample_system [''app''])"
    by (rule sample_boot) simp
  have b: "boots edited_host k rules = boots (sample_host [''app'']) k rules" for k rules
    by (simp add: boots_def edited_host_def rule_boot_yaml)
  have a: "all_services edited_host rules xs = all_services (sample_host [''app'']) rules xs" for rules xs
    by (simp add: all_services_def edited_host_def)
  have y: "ho_from_str_yaml edited_host ''rules'' = Inr (sample_config [''app''])" by (simp add: edited_host_def)
  show ?thesis using s unfolding boot_Inr b a using y by auto
qed

definition sample_process :: "(cidr, unit, NodeIdentity list \<times> u8 list list, (u64 \<times> string \<times> u32) list, nat, unit) process" where
  "sample_process = \<lparr>pc_system = sample_system [''app''], pc_cluster = NoCluster, pc_updates = [], pc_sent = [],
     pc_scrapers = Some [], pc_responses = [], pc_wakeups = 0, pc_file = Inr ''rules''\<rparr>"

lemma sample_start: "start_process sample_outside None = Inr sample_process"
  using edited_boot
  by (simp add: start_process_def start_watcher_def start_metrics_def start_cluster_def sample_outside_def sample_process_def sample_config_def Let_def)

definition sample_edit :: "(unit, unit, unit, unit, unit) process_event list" where
  "sample_edit = [FileWritten (Inr ''new'')]"

theorem changes_take_effect_witness:
  "listing (world_of (sy_services (pc_system (process_run sample_outside cidr_contains
      [Callback (Inr Modify), MainTurn] (process_run sample_outside cidr_contains sample_edit sample_process))) ! 0)) = [(''c'', True), (''a'', False)]"
proof -
  let ?p = "process_run sample_outside cidr_contains sample_edit sample_process"
  let ?q = "process_run sample_outside cidr_contains (Callback (Inr Modify) # ([MainTurn] :: (unit, unit, unit, unit, unit) process_event list)) ?p"
  have "in_force edited_config (pc_system ?q)"
  proof (rule changes_take_effect[OF _ sample_start refl])
    show "pc_file ?p = Inr ''new''" by (simp add: sample_edit_def)
    show "ho_from_str_yaml (ou_host sample_outside) ''new'' = Inr edited_config" by (simp add: sample_outside_def edited_host_def)
  qed (simp_all add: sample_outside_def)
  moreover have "sy_lbs (pc_system ?q) ''app'' = Some 0" "length (sy_services (pc_system ?q)) = 1"
    by (simp_all add: sample_edit_def sample_outside_def sample_process_def watch_callback_def main_turn_def wakes_def)
       (simp_all add: sample_system_def sample_config_def)
  ultimately show ?thesis
    unfolding in_force_def by (auto simp: edited_config_def sample_rule_def simp del: fold_simps dest!: spec[of _ "[]"])
qed

end
