(* ===== verification/Throughput.thy ===== *)
theory Throughput
  imports Net_Addr F64
begin

text \<open>
  The benchmark tool (\<^verbatim>\<open>utilities/throughput.rs\<close>): its command line, the sink with its connections and its
  reports, and the source with its connection tasks, its start signal and its figures. Sockets and clock
  are arguments, and the text of the output is left to the formatter. Shown here: the reports of the sink
  add up to what it received, the source counts whole buffers, its total never counts a task that was late
  for the start signal, and the average it prints is that of the bytes written up to the end of its sleep.
\<close>

section \<open>Command line\<close>

datatype bench_command =
  PrintUsage | RunServer u16 | RunClient string usize u64 | InvalidMode | ParseFailed | Panic string

definition arg_or :: "string list \<Rightarrow> nat \<Rightarrow> string \<Rightarrow> string" where
  "arg_or args i otherwise = (if i < length args then args ! i else otherwise)"

definition bench_main :: "string list \<Rightarrow> bench_command" where
  "bench_main args =
     (if length args < 2 then (if args = [] then Panic ''index out of bounds'' else PrintUsage)
      else if args ! 1 = ''server'' then
        (case parse_uint (2 ^ 16) (arg_or args 2 ''9001'') of
           Some port \<Rightarrow> RunServer (of_nat port)
         | None \<Rightarrow> ParseFailed)
      else if args ! 1 = ''client'' then
        (if length args \<le> 2 then Panic ''Missing target addr''
         else case parse_uint (2 ^ 64) (arg_or args 3 ''1'') of
           None \<Rightarrow> ParseFailed
         | Some connections \<Rightarrow> (case parse_uint (2 ^ 64) (arg_or args 4 ''10'') of
               None \<Rightarrow> ParseFailed
             | Some duration \<Rightarrow> RunClient (args ! 2) (of_nat connections) (of_nat duration)))
      else InvalidMode)"

section \<open>The sink\<close>

text \<open>
  The counters, which of the accepted connections are still read, and the error that has ended
  \<open>run_server\<close>: a failed bind or a failed accept, either of which ends the process.
\<close>

record sink =
  sk_bytes_received :: usize
  sk_last_bytes :: usize
  sk_reading :: "bool list"
  sk_exit :: "io_error option"

definition start_sink :: "io_error + unit \<Rightarrow> sink" where
  "start_sink bind =
     \<lparr>sk_bytes_received = 0, sk_last_bytes = 0, sk_reading = [], sk_exit = (case bind of Inl e \<Rightarrow> Some e | Inr _ \<Rightarrow> None)\<rparr>"

text \<open>An accept, a read on the connection of that number, or a tick of the reporter.\<close>

datatype sink_event = Accepted "io_error + unit" | ReadDone nat "io_error + nat" | ReportTick

text \<open>\<open>bytes as f64 / 1_000_000_000.0\<close>; and what a report prints, the difference in gigabytes and in whole megabytes.\<close>

definition gigabytes :: "usize \<Rightarrow> f64" where
  "gigabytes bytes = rnd (rnd (of_nat (unat bytes)) / 1000000000)"

definition report :: "usize \<Rightarrow> f64 \<times> usize" where
  "report delta = (gigabytes delta, delta div 1000000)"

definition read_done :: "nat \<Rightarrow> io_error + nat \<Rightarrow> sink \<Rightarrow> sink" where
  "read_done i res s =
     (if i < length (sk_reading s) \<and> sk_reading s ! i
      then case res of
             Inl e \<Rightarrow> s\<lparr>sk_reading := (sk_reading s)[i := False]\<rparr>
           | Inr n \<Rightarrow> if n = 0 then s\<lparr>sk_reading := (sk_reading s)[i := False]\<rparr>
                      else s\<lparr>sk_bytes_received := sk_bytes_received s + of_nat n\<rparr>
      else s)"

text \<open>A step, with the difference that it reports if it is a report.\<close>

definition sink_step :: "sink_event \<Rightarrow> sink \<Rightarrow> usize list \<times> sink" where
  "sink_step e s =
     (if sk_exit s \<noteq> None then ([], s)
      else case e of
             Accepted (Inr _) \<Rightarrow> ([], s\<lparr>sk_reading := sk_reading s @ [True]\<rparr>)
           | Accepted (Inl err) \<Rightarrow> ([], s\<lparr>sk_exit := Some err\<rparr>)
           | ReadDone i res \<Rightarrow> ([], read_done i res s)
           | ReportTick \<Rightarrow> ([sk_bytes_received s - sk_last_bytes s], s\<lparr>sk_last_bytes := sk_bytes_received s\<rparr>))"

fun sink_run :: "sink_event list \<Rightarrow> sink \<Rightarrow> usize list \<times> sink" where
  "sink_run [] s = ([], s)"
| "sink_run (e # es) s = (let (d, s1) = sink_step e s; (ds, s2) = sink_run es s1 in (d @ ds, s2))"

text \<open>The bytes that an event brings in: those of a read on a connection that is still read.\<close>

definition received :: "sink_event \<Rightarrow> sink \<Rightarrow> nat" where
  "received e s =
     (case e of
        ReadDone i (Inr n) \<Rightarrow> if sk_exit s = None \<and> i < length (sk_reading s) \<and> sk_reading s ! i then n else 0
      | _ \<Rightarrow> 0)"

fun total_received :: "sink_event list \<Rightarrow> sink \<Rightarrow> nat" where
  "total_received [] s = 0"
| "total_received (e # es) s = received e s + total_received es (snd (sink_step e s))"

lemma sink_step_balance:
  "sum_list (fst (sink_step e s)) + (sk_bytes_received (snd (sink_step e s)) - sk_last_bytes (snd (sink_step e s))) =
     (sk_bytes_received s - sk_last_bytes s) + of_nat (received e s)"
  by (auto simp: sink_step_def read_done_def received_def split: sink_event.split sum.split)

lemma sink_run_balance:
  "sum_list (fst (sink_run es s)) + (sk_bytes_received (snd (sink_run es s)) - sk_last_bytes (snd (sink_run es s))) =
     (sk_bytes_received s - sk_last_bytes s) + of_nat (total_received es s)"
proof (induction es arbitrary: s)
  case (Cons e es)
  let ?s1 = "snd (sink_step e s)"
  have "sum_list (fst (sink_run (e # es) s)) + (sk_bytes_received (snd (sink_run (e # es) s)) - sk_last_bytes (snd (sink_run (e # es) s))) =
      sum_list (fst (sink_step e s)) + (sum_list (fst (sink_run es ?s1)) +
        (sk_bytes_received (snd (sink_run es ?s1)) - sk_last_bytes (snd (sink_run es ?s1))))"
    by (simp add: split_beta Let_def)
  also have "\<dots> = (sum_list (fst (sink_step e s)) + (sk_bytes_received ?s1 - sk_last_bytes ?s1)) + of_nat (total_received es ?s1)"
    unfolding Cons.IH by (simp only: add.assoc)
  also have "\<dots> = (sk_bytes_received s - sk_last_bytes s) + of_nat (total_received (e # es) s)"
    unfolding sink_step_balance by (simp only: total_received.simps of_nat_add add.assoc)
  finally show ?case .
qed simp

text \<open>
  The reported differences and what is not reported yet add up to the bytes received on all connections, also
  when the counter wraps around.
\<close>

lemma reports_add_up:
  "sum_list (fst (sink_run es (start_sink b))) +
     (sk_bytes_received (snd (sink_run es (start_sink b))) - sk_last_bytes (snd (sink_run es (start_sink b)))) =
   of_nat (total_received es (start_sink b))"
  using sink_run_balance[of es "start_sink b"] by (simp add: start_sink_def)

section \<open>The source\<close>

text \<open>A connection task: connecting, waiting for the start signal, sending until a deadline, ended.\<close>

datatype bench_task = Connecting | Waiting | Sending instant | Ended

record source =
  so_bytes_sent :: usize
  so_tasks :: "bench_task list"

definition start_source :: "usize \<Rightarrow> source" where
  "start_source connections = \<lparr>so_bytes_sent = 0, so_tasks = replicate (unat connections) Connecting\<rparr>"

definition bench_buf :: nat where
  "bench_buf = 128 * 1024"

text \<open>
  A connection attempt ends, \<open>notify_waiters\<close> wakes the tasks that wait at that moment, each of which then
  reads the clock, or a sending task makes a turn of its loop with the clock and the result of \<open>write_all\<close>.
\<close>

datatype source_event =
    ConnectDone nat "io_error + unit"
  | NotifyWaiters "nat \<Rightarrow> instant"
  | SendTurn nat instant "io_error + unit"

definition from_secs :: "u64 \<Rightarrow> duration" where
  "from_secs seconds = unat seconds * 1000000000"

definition send_turn :: "instant \<Rightarrow> io_error + unit \<Rightarrow> bench_task \<Rightarrow> nat \<times> bench_task" where
  "send_turn now res t =
     (case t of
        Sending deadline \<Rightarrow>
          if now < deadline then (case res of Inl e \<Rightarrow> (0, Ended) | Inr _ \<Rightarrow> (bench_buf, t)) else (0, Ended)
      | _ \<Rightarrow> (0, t))"

fun source_step :: "u64 \<Rightarrow> source_event \<Rightarrow> source \<Rightarrow> source" where
  "source_step seconds (ConnectDone i res) s =
     (if i < length (so_tasks s) \<and> so_tasks s ! i = Connecting
      then s\<lparr>so_tasks := (so_tasks s)[i := (case res of Inr _ \<Rightarrow> Waiting | Inl e \<Rightarrow> Ended)]\<rparr>
      else s)"
| "source_step seconds (NotifyWaiters woken) s =
     s\<lparr>so_tasks := map (\<lambda>(i, t). if t = Waiting then Sending (woken i + from_secs seconds) else t) (enumerate 0 (so_tasks s))\<rparr>"
| "source_step seconds (SendTurn i now res) s =
     (if i < length (so_tasks s)
      then let (n, t) = send_turn now res (so_tasks s ! i)
           in \<lparr>so_bytes_sent = so_bytes_sent s + of_nat n, so_tasks = (so_tasks s)[i := t]\<rparr>
      else s)"

text \<open>
  \<open>run_client\<close>: what happens in the second before the start signal, the signal, what happens while the
  client sleeps, and then the total, in gigabytes and per second of the elapsed time. The tasks are not
  joined. A division by a time of zero has no finite result.
\<close>

definition average_speed :: "usize \<Rightarrow> duration \<Rightarrow> f64 option" where
  "average_speed total_bytes elapsed =
     (let duration = as_secs_f64 elapsed in if duration = 0 then None else Some (rnd (gigabytes total_bytes / duration)))"

definition run_client ::
  "usize \<Rightarrow> u64 \<Rightarrow> source_event list \<Rightarrow> (nat \<Rightarrow> instant) \<Rightarrow> source_event list \<Rightarrow> duration \<Rightarrow> usize \<times> f64 \<times> f64 option" where
  "run_client connections seconds before woken during elapsed =
     (let s = fold (source_step seconds) (before @ NotifyWaiters woken # during) (start_source connections);
          total_bytes = so_bytes_sent s
      in (total_bytes, gigabytes total_bytes, average_speed total_bytes elapsed))"

section \<open>What the source counts\<close>

text \<open>The events of one run: the signal is given once, by \<open>run_client\<close> itself.\<close>

fun signals :: "source_event \<Rightarrow> bool" where
  "signals (NotifyWaiters _) = True"
| "signals _ = False"

text \<open>The complete writes of a task before its deadline.\<close>

definition full_write :: "nat \<Rightarrow> source_event \<Rightarrow> source \<Rightarrow> bool" where
  "full_write i e s \<longleftrightarrow>
     (\<exists>now deadline. e = SendTurn i now (Inr ()) \<and> i < length (so_tasks s) \<and> so_tasks s ! i = Sending deadline \<and> now < deadline)"

fun full_writes :: "u64 \<Rightarrow> nat \<Rightarrow> source_event list \<Rightarrow> source \<Rightarrow> nat" where
  "full_writes seconds i [] s = 0"
| "full_writes seconds i (e # es) s = (if full_write i e s then 1 else 0) + full_writes seconds i es (source_step seconds e s)"

lemma source_step_tasks [simp]: "length (so_tasks (source_step seconds e s)) = length (so_tasks s)"
  by (cases e) (simp_all add: split_beta Let_def)

lemma send_turn_bytes:
  "fst (send_turn now res t) = (if \<exists>d. t = Sending d \<and> now < d \<and> res = Inr () then bench_buf else 0)"
  by (cases t) (auto simp: send_turn_def split: sum.split)

lemma source_step_bytes:
  "so_bytes_sent (source_step seconds e s) =
     so_bytes_sent s + of_nat (bench_buf * (\<Sum>i < length (so_tasks s). if full_write i e s then 1 else 0))"
proof (cases e)
  case (SendTurn i now res)
  show ?thesis
  proof (cases "i < length (so_tasks s)")
    case True
    have "(\<Sum>j < length (so_tasks s). if full_write j e s then 1 else 0 :: nat) =
        (\<Sum>j < length (so_tasks s). if j = i then (if full_write i e s then 1 else 0) else 0)"
      by (rule sum.cong) (auto simp: full_write_def SendTurn)
    also have "\<dots> = (if full_write i e s then 1 else 0)" using True by simp
    finally show ?thesis
      using True by (auto simp: SendTurn split_beta Let_def send_turn_bytes full_write_def)
  next
    case False
    then show ?thesis by (auto simp: SendTurn full_write_def intro!: sum.neutral)
  qed
qed (simp_all add: full_write_def)

text \<open>The total is the sum of the complete writes of the tasks, in buffers of 128 KiB.\<close>

lemma source_total:
  "so_bytes_sent (fold (source_step seconds) es s) =
     so_bytes_sent s + of_nat (bench_buf * (\<Sum>i < length (so_tasks s). full_writes seconds i es s))"
proof (induction es arbitrary: s)
  case (Cons e es)
  show ?case
    unfolding fold_simps comp_apply Cons.IH source_step_bytes by (simp add: sum.distrib algebra_simps)
qed simp

text \<open>
  A task that is not waiting when the signal is given never sends: it has missed the only signal. So a
  connection that takes longer than the second before the start counts for nothing.
\<close>

definition idle :: "nat \<Rightarrow> source \<Rightarrow> bool" where
  "idle i s \<longleftrightarrow> (\<forall>d. i < length (so_tasks s) \<longrightarrow> so_tasks s ! i \<noteq> Sending d)"

lemma idle_step: "\<not> signals e \<Longrightarrow> idle i s \<Longrightarrow> idle i (source_step seconds e s)"
  by (cases e) (auto simp: idle_def nth_list_update send_turn_def Let_def split_beta split: sum.split bench_task.split)

lemma idle_no_write: "idle i s \<Longrightarrow> \<not> full_write i e s"
  by (auto simp: idle_def full_write_def)

lemma idle_writes: "list_all (\<lambda>e. \<not> signals e) es \<Longrightarrow> idle i s \<Longrightarrow> full_writes seconds i es s = 0"
  by (induction es arbitrary: s) (simp_all add: idle_no_write idle_step del: source_step.simps)

lemma late_task_never_sends:
  assumes "list_all (\<lambda>e. \<not> signals e) during" "i < length (so_tasks s)" "so_tasks s ! i = Connecting \<or> so_tasks s ! i = Ended"
  shows "full_writes seconds i (NotifyWaiters woken # during) s = 0"
proof -
  have "idle i (source_step seconds (NotifyWaiters woken) s)" using assms(2,3) by (auto simp: idle_def nth_enumerate_eq)
  from idle_writes[OF assms(1) this] show ?thesis by (simp add: full_write_def del: source_step.simps)
qed

lemma full_writes_append:
  "full_writes seconds i (es @ es') s = full_writes seconds i es s + full_writes seconds i es' (fold (source_step seconds) es s)"
  by (induction es arbitrary: s) simp_all

lemma idle_run: "list_all (\<lambda>e. \<not> signals e) es \<Longrightarrow> idle i s \<Longrightarrow> idle i (fold (source_step seconds) es s)"
  by (induction es arbitrary: s) (simp_all add: idle_step del: source_step.simps)

text \<open>
  The total that \<open>run_client\<close> prints: the buffers that the tasks waiting at the signal have written
  completely, each before its own deadline, until the client wakes up.
\<close>

lemma run_client_total:
  fixes connections :: usize
  assumes "list_all (\<lambda>e. \<not> signals e) before" "list_all (\<lambda>e. \<not> signals e) during"
    and "s = fold (source_step seconds) before (start_source connections)"
  shows "fst (run_client connections seconds before woken during elapsed) =
    of_nat (bench_buf * (\<Sum>i < unat connections. if so_tasks s ! i = Waiting
      then full_writes seconds i during (source_step seconds (NotifyWaiters woken) s) else 0))"
proof -
  let ?s0 = "start_source connections"
  have "length (so_tasks (fold (source_step seconds) es t)) = length (so_tasks t)" for es t
    by (induction es arbitrary: t) (simp_all del: source_step.simps)
  then have len: "length (so_tasks s) = unat connections" by (simp add: assms(3) start_source_def)
  have "full_writes seconds i (before @ NotifyWaiters woken # during) ?s0 =
      (if so_tasks s ! i = Waiting then full_writes seconds i during (source_step seconds (NotifyWaiters woken) s) else 0)"
    if i: "i < unat connections" for i
  proof -
    have i0: "idle i ?s0" by (simp add: idle_def start_source_def)
    have "idle i s" unfolding assms(3) by (rule idle_run[OF assms(1) i0])
    then have "so_tasks s ! i \<noteq> Waiting \<Longrightarrow> so_tasks s ! i = Connecting \<or> so_tasks s ! i = Ended"
      using i len by (cases "so_tasks s ! i") (auto simp: idle_def)
    moreover have "full_writes seconds i (NotifyWaiters woken # during) s = full_writes seconds i during (source_step seconds (NotifyWaiters woken) s)"
      by (simp add: full_write_def del: source_step.simps)
    ultimately show ?thesis
      using late_task_never_sends[OF assms(2), of i s seconds woken] idle_writes[OF assms(1) i0, of seconds] i len
      by (auto simp: full_writes_append assms(3)[symmetric] simp del: full_writes.simps)
  qed
  then have "(\<Sum>i < unat connections. full_writes seconds i (before @ NotifyWaiters woken # during) ?s0) =
      (\<Sum>i < unat connections. if so_tasks s ! i = Waiting
        then full_writes seconds i during (source_step seconds (NotifyWaiters woken) s) else 0)" by (intro sum.cong) simp_all
  moreover have "length (so_tasks ?s0) = unat connections" "so_bytes_sent ?s0 = 0" by (simp_all add: start_source_def)
  ultimately show ?thesis by (simp only: run_client_def Let_def fst_conv source_total add_0)
qed

end
