(* ===== verification/Spec2Isabelle.thy ===== *)
theory Spec2Isabelle
  imports Balancer_Tasks Traffic Program Throughput
begin

text \<open>
  A verification library for a layer-4 load balancer written in Rust. The program listens on the
  address of every configured rule, turns clients away by address lists and by a connection rate,
  selects a backend for each connection, and copies bytes in both directions under bandwidth limits;
  beside that it checks the health of its backends, reloads its configuration, counts metrics and has an
  actor for a cluster.

  \<^bold>\<open>The parts and where they are modelled.\<close> File names are relative to \<^verbatim>\<open>src/src/\<close>.

  \<^item> \<^verbatim>\<open>Prelude\<close>: machine integers as words, time, lists, decimal output; the locales of transition systems
    with an invariant, of counted systems and of simulations. \<^verbatim>\<open>Net_Addr\<close>: addresses, their text and
    the parsers of the Rust standard library. \<^verbatim>\<open>F64\<close>: binary64 as rationals with an exact rounding
    function and the error bound of one rounding, as a locale.
  \<^item> \<^verbatim>\<open>Config\<close> (\<^verbatim>\<open>config/mod.rs\<close>): one record per struct, and \<open>validate\<close>. \<^verbatim>\<open>Metrics\<close>
    (\<^verbatim>\<open>metrics/mod.rs\<close>): the families, the log of calls on them, and readings of such a log.
  \<^item> \<^verbatim>\<open>Balancer\<close> and \<^verbatim>\<open>Connections\<close> (\<^verbatim>\<open>core/balancer.rs\<close>): backends in a heap, because lists, guards
    and older lists share them; \<open>new\<close>, \<open>next_backend\<close>, \<open>update_backends\<close>, \<open>set_backend_health\<close> and the
    drop of a guard as whole operations. \<^verbatim>\<open>Balancer_Tasks\<close> cuts \<open>next_backend\<close> into its atomic accesses
    and interleaves any number of calls with all other operations.
  \<^item> \<^verbatim>\<open>Limiter\<close>, \<^verbatim>\<open>Limiters\<close> (\<^verbatim>\<open>traffic/limiter.rs\<close>): the token bucket, the limiter of connections per
    client, the tables of bandwidth buckets. \<^verbatim>\<open>Bandwidth\<close> (\<^verbatim>\<open>traffic/bandwidth.rs\<close>): the limited
    stream, poll by poll, over a shared heap of buckets.
  \<^item> \<^verbatim>\<open>Acl\<close>, \<^verbatim>\<open>Proxy_Protocol\<close>, \<^verbatim>\<open>Proxy\<close>, \<^verbatim>\<open>Tls\<close> (\<^verbatim>\<open>networking/\<close> and \<^verbatim>\<open>common/error.rs\<close>): the address
    lists, the PROXY header, one proxied connection, loading of TLS material. \<^verbatim>\<open>Health\<close>
    (\<^verbatim>\<open>core/health.rs\<close>): the checks and the checker task. \<^verbatim>\<open>Cluster\<close> (\<^verbatim>\<open>cluster/mod.rs\<close>): the actor.
  \<^item> \<^verbatim>\<open>Acceptor\<close> and \<^verbatim>\<open>Startup\<close> (\<^verbatim>\<open>main.rs\<close>): the service of one rule, which composes the components in
    the order of the accept loop and of the task of a connection; startup, the running system of
    services, checkers and watcher, and reload.
  \<^item> \<^verbatim>\<open>Traffic\<close> (\<^verbatim>\<open>main.rs\<close>, \<^verbatim>\<open>networking/proxy.rs\<close>): a service together with the limited streams of
    its connections, polled in any order on the buckets that the service hands out. \<^verbatim>\<open>Program\<close>
    (\<^verbatim>\<open>main.rs\<close>): the process, that is the system with the cluster actor and its consumer, the metrics
    server, and the watcher with the channel that wakes the main loop; how \<open>main\<close> starts and exits.
  \<^item> \<^verbatim>\<open>Throughput\<close> (\<^verbatim>\<open>src/utilities/throughput.rs\<close>): the benchmark tool, its sink and its source.

  \<^bold>\<open>How code becomes definitions.\<close> A struct is a record with the fields in the order of the source, an
  enum a datatype, a function a definition that takes and returns the state it changes; an early
  return or \<open>?\<close> is a branch with a value of a sum or option type. Integers keep their width, and
  additions wrap as in the release profile. Clock readings, sockets, timers, files and every crate that is
  not in the sources are arguments; what a theorem needs of them is among its assumptions, and its witness
  gives functions that satisfy them. Metric calls are a log in the order of the program.

  \<^bold>\<open>What is shown.\<close>

  \<^item> Balancer: counters are the open connections; the limit holds for selections one at a time and is
    exceeded by less than the number of concurrent calls otherwise; selection is the first available
    backend in cyclic order and fair; reconfiguration keeps the state of retained backends; a call that
    runs alone has the effect of the whole operation.
  \<^item> Limits: a bucket and a client stay within burst and rate up to rounding; a wait for at most the burst
    sleeps for the right time and is granted after it unless other tasks take the tokens first, which can
    go on forever, and a wait for more is never granted; clients do not affect each other; the bytes through
    a bucket are bounded over all streams that share it, and so are the bytes of a client in a direction
    over all its connections, except for what a buffer that grew under a pending permit lets pass; a
    pending permit is served once the other streams leave its bucket alone for as long as its tokens take.
  \<^item> Networking: which addresses are admitted; the header is read back by a receiver of the published
    format; when a connection succeeds; the gauge of active connections counts those in progress; which
    error loading of TLS material returns; which answers of a backend are healthy and what a round of a
    checker does to the selection.
  \<^item> Composition: a service runs on its balancer, with or without its streams, a system on its services and
    a process on its system, each by the locale \<^verbatim>\<open>simulation\<close>, so the properties of the parts hold in
    the whole and cluster and metrics server do not affect the services; a denied client leaves no trace; which
    connections share a bucket; startup succeeds or fails with its first error; what a reload changes, and that a reported change of the
    file is in force after the next turn of the main loop.
  \<^item> Benchmark tool: the reports of the sink add up, and the total of the source is what the tasks that
    were in time for the start signal have written.
  \<^item> Where the program does not do what it is meant to, the theorem says what it does: reload accepts
    what startup refuses and multiplies checkers, a rule with a repeated name is never reloaded, configured
    peers are never contacted, and, as lemmas of their theories, a selection at the wrap of the index, a
    removed and re-added backend, the slack of the limit, a growing buffer, headers for mixed address
    families, unparsable allow lists and lenient HTTP checks.

  \<^bold>\<open>Bounds and fuel.\<close> Loops over lists are structural recursions. The wait \<open>until_n_ready\<close> may never end
  and takes its rounds as a list, each with its clock reading and with what the other tasks did to the
  bucket since the round before, for the lock is free during the sleep. A request within the burst is
  shown to be granted by the first round that comes late enough in a list in which the others take nothing,
  and a larger one by no list of rounds. The rounding bounds of the limiter theorems hold for all rates and
  bursts of 32 bits. Counters are exact while fewer than \<open>2\<^sup>6\<^sup>4\<close> connections are open.

  \<^bold>\<open>Not modelled.\<close> Log messages and \<open>set_nodelay\<close>, which do not affect the state; parsing of the command
  line (\<^verbatim>\<open>clap\<close>), the filter of the logger (\<^verbatim>\<open>env_logger\<close>), HTTP (\<^verbatim>\<open>hyper\<close>), YAML, TLS, gossip and the
  prometheus registry, which are crates and enter as arguments or by their results; the layout of the
  figures that the benchmark tool prints; the unit tests of the sources. The memory order of the atomic
  accesses is taken as sequential. The steps of a service are whole operations, so what is shown of services,
  systems and processes is shown for selections one at a time; that interleaved selections have the same
  counters and exceed a limit by a bounded amount is shown in \<^verbatim>\<open>Balancer_Tasks\<close>. A poll of a limited
  stream is a step as well.
\<close>

section \<open>The whole program\<close>

lemma service_safety:
  assumes sv: "sv = service_run contains events (new_service from_str from_ip rule tls)"
  shows "(\<forall>r < length (st_heap (sv_store sv)). b_active_connections (st_heap (sv_store sv) ! r) = of_nat (served_on sv r)) \<and>
    (\<forall>l r. r_backend_connection_limit rule = Some l \<longrightarrow> served_on sv r \<le> unat l) \<and>
    (\<forall>c \<in> set (sv_open sv). cn_backend_addr c = b_addr (st_heap (sv_store sv) ! g_counter (cn_guard c)) \<and>
       is_allowed contains (new_acl from_str from_ip (r_allow_list rule) (r_deny_list rule)) (ip_of (px_client_addr (cn_config c)))) \<and>
    list_all op_ok (st_metrics (sv_store sv) @ sv_calls sv)"
proof (intro conjI allI impI ballI)
  fix r assume "r < length (st_heap (sv_store sv))"
  then show "b_active_connections (st_heap (sv_store sv) ! r) = of_nat (served_on sv r)" by (rule service_counters[OF sv])
next
  fix l r assume "r_backend_connection_limit rule = Some l"
  then show "served_on sv r \<le> unat l" unfolding sv by (rule service_limit)
next
  fix c assume c: "c \<in> set (sv_open sv)"
  then show "cn_backend_addr c = b_addr (st_heap (sv_store sv) ! g_counter (cn_guard c))" by (rule service_backend_addr[OF sv])
  from c show "is_allowed contains (new_acl from_str from_ip (r_allow_list rule) (r_deny_list rule)) (ip_of (px_client_addr (cn_config c)))"
    unfolding sv by (rule service_open_allowed)
next
  show "list_all op_ok (st_metrics (sv_store sv) @ sv_calls sv)" unfolding sv by (rule service_op_ok)
qed

text \<open>
  C4. As long as tasks select their backends one at a time, each selection being one step: in every state of a
  running process, for every rule, the counter of each backend is the number of the connections open on it;
  with a limit no backend has more; each open connection goes to the backend it is counted on and comes from
  a client that the address lists of the rule admit; and every metric call made so far fits its family. This
  holds after startup and any interleaving of whole steps of clients, checks, file events, the main loop,
  the cluster and the metrics server. Selections that overlap can exceed the limit, by less than their
  number, as \<^verbatim>\<open>Balancer_Tasks\<close> shows.
\<close>

theorem process_safety:
  fixes es :: "('tls, 'c, 's, 'sock, 'io) process_event list" and p :: "('net, 'tls, 'f, 'q, 'w, 'io) process"
  assumes "start_process out arg = Inr p" "sys = pc_system (process_run out contains es p)"
  shows "\<exists>config. boot (ou_host out) (ou_read_to_string out (config_path arg)) = Inr (config, pc_system p) \<and>
    (\<forall>j < length (c_rules config). let rule = c_rules config ! j; sv = sy_services sys ! j in
      (\<forall>r < length (st_heap (sv_store sv)). b_active_connections (st_heap (sv_store sv) ! r) = of_nat (served_on sv r)) \<and>
      (\<forall>l r. r_backend_connection_limit rule = Some l \<longrightarrow> served_on sv r \<le> unat l) \<and>
      (\<forall>c \<in> set (sv_open sv). cn_backend_addr c = b_addr (st_heap (sv_store sv) ! g_counter (cn_guard c)) \<and>
         is_allowed contains (new_acl (ho_net_from_str (ou_host out)) (ho_net_from_ip (ou_host out)) (r_allow_list rule) (r_deny_list rule))
           (ip_of (px_client_addr (cn_config c)))) \<and>
      list_all op_ok (st_metrics (sv_store sv) @ sv_calls sv))"
proof -
  obtain config where config: "boot (ou_host out) (ou_read_to_string out (config_path arg)) = Inr (config, pc_system p)"
    and run: "\<forall>j < length (c_rules config). \<exists>tls. \<exists>events :: ('tls, 'c, 's) service_event list. sy_services sys ! j = service_run contains events
      (new_service (ho_net_from_str (ou_host out)) (ho_net_from_ip (ou_host out)) (c_rules config ! j) tls)"
    using process_service[OF assms(1), of contains es] unfolding assms(2) by blast
  show ?thesis unfolding Let_def
  proof (intro exI[of _ config] conjI[OF config] allI impI)
    fix j assume "j < length (c_rules config)"
    with run obtain tls and events :: "('tls, 'c, 's) service_event list" where
      sv: "sy_services sys ! j = service_run contains events
        (new_service (ho_net_from_str (ou_host out)) (ho_net_from_ip (ou_host out)) (c_rules config ! j) tls)" by blast
    show "(\<forall>r < length (st_heap (sv_store (sy_services sys ! j))).
          b_active_connections (st_heap (sv_store (sy_services sys ! j)) ! r) = of_nat (served_on (sy_services sys ! j) r)) \<and>
        (\<forall>l r. r_backend_connection_limit (c_rules config ! j) = Some l \<longrightarrow> served_on (sy_services sys ! j) r \<le> unat l) \<and>
        (\<forall>c \<in> set (sv_open (sy_services sys ! j)).
          cn_backend_addr c = b_addr (st_heap (sv_store (sy_services sys ! j)) ! g_counter (cn_guard c)) \<and>
          is_allowed contains (new_acl (ho_net_from_str (ou_host out)) (ho_net_from_ip (ou_host out))
            (r_allow_list (c_rules config ! j)) (r_deny_list (c_rules config ! j))) (ip_of (px_client_addr (cn_config c)))) \<and>
        list_all op_ok (st_metrics (sv_store (sy_services sys ! j)) @ sv_calls (sy_services sys ! j))"
      by (rule service_safety[OF sv])
  qed
qed

text \<open>A process with one rule: a client is accepted, gets its backend, the file is replaced and reloaded, and a second client comes.\<close>

definition sample_life :: "(unit, unit, unit, unit, unit) process_event list" where
  "sample_life = [SystemEvent (Client 0 (Accept 1 1 sample_client)), SystemEvent (Client 0 (Start 0 sample_readings (Inr sample_client))),
     FileWritten (Inr ''new''), Callback (Inr Modify), ClusterTurn Tick, MainTurn, MetricsAccept (Inr ()),
     SystemEvent (Client 0 (Accept 2 2 sample_client)), SystemEvent (Client 0 (Start 0 sample_readings (Inr sample_client)))]"

theorem process_safety_witness:
  "let sv = sy_services (pc_system (process_run sample_outside cidr_contains sample_life sample_process)) ! 0
   in (\<forall>r. served_on sv r \<le> 5) \<and> list_all op_ok (st_metrics (sv_store sv) @ sv_calls sv)"
proof -
  obtain config where config: "boot (ou_host sample_outside) (ou_read_to_string sample_outside (config_path None)) = Inr (config, pc_system sample_process)"
    and safe: "\<forall>j < length (c_rules config). let rule = c_rules config ! j;
        sv = sy_services (pc_system (process_run sample_outside cidr_contains sample_life sample_process)) ! j
      in (\<forall>l r. r_backend_connection_limit rule = Some l \<longrightarrow> served_on sv r \<le> unat l) \<and>
         list_all op_ok (st_metrics (sv_store sv) @ sv_calls sv)"
    using process_safety[OF sample_start refl, of cidr_contains sample_life] unfolding Let_def by blast
  have "config = sample_config [''app'']" using config edited_boot by (simp add: sample_outside_def)
  then have "length (c_rules config) = 1" "r_backend_connection_limit (c_rules config ! 0) = Some 5"
    by (simp_all add: sample_config_def sample_rule_def)
  with safe show ?thesis unfolding Let_def by fastforce
qed

end
